(* ===== verification/Prelude.thy ===== *)
theory Prelude
  imports Main "HOL-Library.Word"
begin

text \<open>
  Shared vocabulary of the development: results with errors, state-passing actions, durations,
  and the parts of Go's \<^verbatim>\<open>strconv\<close>, \<^verbatim>\<open>fmt\<close> and \<^verbatim>\<open>strings\<close> packages that the services call.

  A Go string is a byte sequence, so it is an Isabelle \<^typ>\<open>string\<close> whose characters are bytes.
  A fallible Go call is a value of a sum type with \<open>Inl\<close> the error. A method that changes a store
  is a function from the store to a result and the new store; \<open>and_then\<close> is the
  \<^verbatim>\<open>if err != nil { return err }\<close> that follows almost every call.
\<close>

named_theorems action_simps \<open>evaluation of state-passing actions\<close>
named_theorems key_simps \<open>equations between store keys\<close>

section \<open>Actions\<close>

type_synonym ('s, 'e, 'a) action = "'s \<Rightarrow> ('e + 'a) \<times> 's"

definition ok :: "'a \<Rightarrow> ('s, 'e, 'a) action" where
  "ok a = (\<lambda>s. (Inr a, s))"

definition fail :: "'e \<Rightarrow> ('s, 'e, 'a) action" where
  "fail e = (\<lambda>s. (Inl e, s))"

definition and_then :: "('s, 'e, 'a) action \<Rightarrow> ('a \<Rightarrow> ('s, 'e, 'b) action) \<Rightarrow> ('s, 'e, 'b) action" where
  "and_then m f = (\<lambda>s. case m s of (Inl e, s') \<Rightarrow> (Inl e, s') | (Inr a, s') \<Rightarrow> f a s')"

definition lift_res :: "'e + 'a \<Rightarrow> ('s, 'e, 'a) action" where
  "lift_res r = (\<lambda>s. (r, s))"

text \<open>Errors of one component seen by its caller (the caller keeps the value and renames the error).\<close>

definition map_err :: "('e \<Rightarrow> 'f) \<Rightarrow> ('s, 'e, 'a) action \<Rightarrow> ('s, 'f, 'a) action" where
  "map_err g m = (\<lambda>s. case m s of (Inl e, s') \<Rightarrow> (Inl (g e), s') | (Inr a, s') \<Rightarrow> (Inr a, s'))"

text \<open>A call whose error the Go code drops.\<close>

definition ignore :: "('s, 'e, 'a) action \<Rightarrow> ('s, 'f, unit) action" where
  "ignore m = (\<lambda>s. (Inr (), snd (m s)))"

text \<open>A sequence of independent calls: each runs on the store the one before left, errors or not.\<close>

fun run_all :: "('s, 'e, 'a) action list \<Rightarrow> 's \<Rightarrow> ('e + 'a) list \<times> 's" where
  "run_all [] s = ([], s)"
| "run_all (m # ms) s =
     (case m s of (r, s1) \<Rightarrow> case run_all ms s1 of (rs, s2) \<Rightarrow> (r # rs, s2))"

lemma ok_apply [action_simps]: "ok a s = (Inr a, s)"
  by (simp add: ok_def)

lemma fail_apply [action_simps]: "fail e s = (Inl e, s)"
  by (simp add: fail_def)

lemma lift_res_apply [action_simps]: "lift_res r s = (r, s)"
  by (simp add: lift_res_def)

lemma ignore_apply [action_simps]: "ignore m s = (Inr (), snd (m s))"
  by (simp add: ignore_def)

lemma run_all_ConsE:
  assumes "run_all (m # ms) s = (rs, s')"
  obtains r s1 rs1 where "m s = (r, s1)" and "run_all ms s1 = (rs1, s')" and "rs = r # rs1"
  using assms by (auto split: prod.splits)

lemma run_all_nth: "run_all ms s = (rs, s') \<Longrightarrow> i < length ms \<Longrightarrow> \<exists>u u'. (ms ! i) u = (rs ! i, u')"
proof (induction ms arbitrary: s rs i)
  case (Cons m ms)
  from Cons.prems(1) obtain r s1 rs1 where "m s = (r, s1)" "run_all ms s1 = (rs1, s')" "rs = r # rs1" by (rule run_all_ConsE)
  with Cons show ?case by (cases i) auto
qed simp

lemma run_all_length: "run_all ms s = (rs, s') \<Longrightarrow> length rs = length ms"
  by (induction ms arbitrary: s rs) (auto elim!: run_all_ConsE simp del: run_all.simps(2))

text \<open>An invariant indexed by the number of calls made holds along the whole sequence.\<close>

lemma run_all_invariant:
  assumes "run_all (map f xs) s = (rs, s')" and "I d s"
    and "\<And>x d s r s1. x \<in> set xs \<Longrightarrow> I d s \<Longrightarrow> f x s = (r, s1) \<Longrightarrow> I (Suc d) s1 \<and> Q d x r"
  shows "I (d + length xs) s' \<and> (\<forall>i < length xs. Q (d + i) (xs ! i) (rs ! i))"
  using assms
proof (induction xs arbitrary: s rs d)
  case Nil
  then show ?case by simp
next
  case (Cons x xs)
  from Cons.prems(1) obtain r s1 rs1 where run: "f x s = (r, s1)"
    and rest: "run_all (map f xs) s1 = (rs1, s')" and rs: "rs = r # rs1"
    by (auto elim!: run_all_ConsE simp del: run_all.simps(2))
  from Cons.prems(2) run have step: "I (Suc d) s1 \<and> Q d x r"
    by (intro Cons.prems(3)) auto
  have "I (Suc d + length xs) s' \<and> (\<forall>i < length xs. Q (Suc d + i) (xs ! i) (rs1 ! i))"
  proof (rule Cons.IH [OF rest])
    show "I (Suc d) s1" using step by simp
    show "I (Suc d') u1 \<and> Q d' y q" if "y \<in> set xs" "I d' u" "f y u = (q, u1)" for y d' u q u1
      using that by (intro Cons.prems(3)) simp_all
  qed
  then show ?case using step rs by (auto simp: nth_Cons' less_Suc_eq_0_disj)
qed

lemma and_then_Inl [action_simps]: "m s = (Inl e, s') \<Longrightarrow> and_then m f s = (Inl e, s')"
  by (simp add: and_then_def)

lemma and_then_Inr [action_simps]: "m s = (Inr a, s') \<Longrightarrow> and_then m f s = f a s'"
  by (simp add: and_then_def)

lemma map_err_Inl [action_simps]: "m s = (Inl e, s') \<Longrightarrow> map_err g m s = (Inl (g e), s')"
  by (simp add: map_err_def)

lemma map_err_Inr [action_simps]: "m s = (Inr a, s') \<Longrightarrow> map_err g m s = (Inr a, s')"
  by (simp add: map_err_def)

lemma and_then_InrE:
  assumes "and_then m f s = (Inr b, s'')"
  obtains a s' where "m s = (Inr a, s')" and "f a s' = (Inr b, s'')"
  using assms by (auto simp: and_then_def split: prod.splits sum.splits)

lemma and_then_InlE:
  assumes "and_then m f s = (Inl e, s'')"
  obtains "m s = (Inl e, s'')" | a s' where "m s = (Inr a, s')" and "f a s' = (Inl e, s'')"
  using assms by (auto simp: and_then_def split: prod.splits sum.splits)

lemma and_thenE:
  assumes "and_then m f s = (r, s'')"
  obtains e where "m s = (Inl e, s'')" and "r = Inl e"
    | a s' where "m s = (Inr a, s')" and "f a s' = (r, s'')"
  using assms by (auto simp: and_then_def split: prod.splits sum.splits)

lemma map_errE:
  assumes "map_err g m s = (r, s')"
  obtains e where "m s = (Inl e, s')" and "r = Inl (g e)" | a where "m s = (Inr a, s')" and "r = Inr a"
  using assms by (auto simp: map_err_def split: prod.splits sum.splits)

lemma map_err_InrE:
  assumes "map_err g m s = (Inr a, s')"
  obtains "m s = (Inr a, s')"
  using assms by (auto simp: map_err_def split: prod.splits sum.splits)

lemma map_err_InlE:
  assumes "map_err g m s = (Inl e, s')"
  obtains d where "m s = (Inl d, s')" and "e = g d"
  using assms by (auto simp: map_err_def split: prod.splits sum.splits)

text \<open>
  A relation between stores that holds for the first action and for its continuation holds for the
  sequence, when it is transitive.
\<close>

lemma and_then_rel:
  assumes "\<And>r s'. m s = (r, s') \<Longrightarrow> P s s'"
    and "\<And>a s' r s''. m s = (Inr a, s') \<Longrightarrow> f a s' = (r, s'') \<Longrightarrow> P s' s''"
    and "\<And>x y z. P x y \<Longrightarrow> P y z \<Longrightarrow> P x z"
    and "and_then m f s = (r, s'')"
  shows "P s s''"
proof (cases "m s")
  case (Pair q s')
  show ?thesis
  proof (cases q)
    case (Inl e)
    with Pair assms(4) have "s'' = s'" by (simp add: and_then_def)
    with Pair assms(1) show ?thesis by blast
  next
    case (Inr a)
    with Pair assms(4) have "f a s' = (r, s'')" by (simp add: and_then_def)
    with Pair Inr assms(1,2,3) show ?thesis by blast
  qed
qed

section \<open>Durations\<close>

text \<open>A \<^verbatim>\<open>time.Duration\<close> counts nanoseconds.\<close>

type_synonym duration = int

definition Second :: duration where "Second = 10 ^ 9"
definition Minute :: duration where "Minute = 60 * Second"
definition Hour :: duration where "Hour = 60 * Minute"

definition Milliseconds :: "duration \<Rightarrow> int" where
  "Milliseconds d = d div 10 ^ 6"

definition Seconds :: "duration \<Rightarrow> int" where
  "Seconds d = d div 10 ^ 9"

lemmas duration_defs = Second_def Minute_def Hour_def Milliseconds_def Seconds_def

section \<open>Decimal numbers\<close>

definition digit :: "nat \<Rightarrow> char" where
  "digit d = char_of (48 + d)"

definition digit_val :: "char \<Rightarrow> nat option" where
  "digit_val c = (let n = of_char c in if 48 \<le> n \<and> n \<le> 57 then Some (n - 48) else None)"

lemma digit_val_digit [simp]: "d < 10 \<Longrightarrow> digit_val (digit d) = Some d"
  by (simp add: digit_val_def digit_def)

lemma digit_eq_iff: "d < 10 \<Longrightarrow> e < 10 \<Longrightarrow> digit d = digit e \<longleftrightarrow> d = e"
  by (metis digit_val_digit option.inject)

fun fmt_nat :: "nat \<Rightarrow> string" where
  "fmt_nat n = (if n < 10 then [digit n] else fmt_nat (n div 10) @ [digit (n mod 10)])"

declare fmt_nat.simps [simp del]

text \<open>\<^verbatim>\<open>strconv.FormatInt(n, 10)\<close> and the verb \<^verbatim>\<open>%d\<close>.\<close>

definition FormatInt :: "int \<Rightarrow> string" where
  "FormatInt n = (if n < 0 then CHR ''-'' # fmt_nat (nat (- n)) else fmt_nat (nat n))"

text \<open>The digits of a string, read from the left with an accumulator.\<close>

fun parse_digits :: "nat \<Rightarrow> string \<Rightarrow> nat option" where
  "parse_digits acc [] = Some acc"
| "parse_digits acc (c # cs) =
     (case digit_val c of None \<Rightarrow> None | Some d \<Rightarrow> parse_digits (10 * acc + d) cs)"

definition max_int64 :: int where "max_int64 = 2 ^ 63 - 1"
definition min_int64 :: int where "min_int64 = - (2 ^ 63)"

text \<open>
  \<^verbatim>\<open>strconv.ParseInt(s, 10, 64)\<close>: an optional sign, at least one digit, nothing else, and a value
  that fits. \<open>None\<close> is either of its two errors, which no caller tells apart.
\<close>

definition ParseInt :: "string \<Rightarrow> int option" where
  "ParseInt s =
     (let neg = (s \<noteq> [] \<and> hd s = CHR ''-'');
          body = (if s \<noteq> [] \<and> (hd s = CHR ''-'' \<or> hd s = CHR ''+'') then tl s else s)
      in if body = [] then None
         else case parse_digits 0 body of
           None \<Rightarrow> None
         | Some m \<Rightarrow>
             let v = (if neg then - int m else int m)
             in if min_int64 \<le> v \<and> v \<le> max_int64 then Some v else None)"

lemma fmt_nat_nonempty [simp]: "fmt_nat n \<noteq> []"
  by (subst fmt_nat.simps) simp

lemma fmt_nat_digits: "c \<in> set (fmt_nat n) \<Longrightarrow> \<exists>d < 10. c = digit d"
proof (induction n rule: fmt_nat.induct)
  case (1 n)
  show ?case
  proof (cases "n < 10")
    case True
    with "1.prems" show ?thesis by (auto simp: fmt_nat.simps [of n])
  next
    case False
    with "1.prems" have "c \<in> set (fmt_nat (n div 10)) \<or> c = digit (n mod 10)"
      by (auto simp: fmt_nat.simps [of n])
    moreover have "n mod 10 < 10" by simp
    ultimately show ?thesis using "1.IH" False by blast
  qed
qed

lemma parse_digits_append:
  "parse_digits acc (xs @ ys) =
     (case parse_digits acc xs of None \<Rightarrow> None | Some m \<Rightarrow> parse_digits m ys)"
  by (induction xs arbitrary: acc) (auto split: option.splits)

lemma parse_digits_fmt_nat: "parse_digits 0 (fmt_nat n) = Some n"
proof (induction n rule: fmt_nat.induct)
  case (1 n)
  show ?case
  proof (cases "n < 10")
    case True
    then show ?thesis by (simp add: fmt_nat.simps [of n])
  next
    case False
    with "1.IH" show ?thesis by (simp add: fmt_nat.simps [of n] parse_digits_append)
  qed
qed

lemma fmt_nat_inject [simp]: "fmt_nat m = fmt_nat n \<longleftrightarrow> m = n"
  by (metis option.inject parse_digits_fmt_nat)

lemma digit_not_sign: "d < 10 \<Longrightarrow> digit d \<noteq> CHR ''-'' \<and> digit d \<noteq> CHR ''+''"
proof -
  assume "d < 10"
  then have "digit_val (digit d) \<noteq> None" by simp
  moreover have "digit_val (CHR ''-'') = None" and "digit_val (CHR ''+'') = None"
    by (simp_all add: digit_val_def)
  ultimately show ?thesis by metis
qed

lemma hd_fmt_nat: "hd (fmt_nat n) \<noteq> CHR ''-'' \<and> hd (fmt_nat n) \<noteq> CHR ''+''"
proof -
  have "hd (fmt_nat n) \<in> set (fmt_nat n)" by simp
  then obtain d where "d < 10" and "hd (fmt_nat n) = digit d"
    using fmt_nat_digits by blast
  then show ?thesis by (simp add: digit_not_sign)
qed

lemma ParseInt_FormatInt:
  assumes "min_int64 \<le> n" and "n \<le> max_int64"
  shows "ParseInt (FormatInt n) = Some n"
proof (cases "n < 0")
  case True
  then show ?thesis using assms
    by (simp add: ParseInt_def FormatInt_def parse_digits_fmt_nat)
next
  case False
  then show ?thesis using assms hd_fmt_nat [of "nat n"]
    by (simp add: ParseInt_def FormatInt_def parse_digits_fmt_nat)
qed

lemma FormatInt_inject [simp]: "FormatInt m = FormatInt n \<longleftrightarrow> m = n"
proof
  assume eq: "FormatInt m = FormatInt n"
  show "m = n"
  proof (cases "m < 0"; cases "n < 0")
    assume "m < 0" and "n < 0"
    with eq show ?thesis by (simp add: FormatInt_def)
  next
    assume "m < 0" and "\<not> n < 0"
    with eq have "fmt_nat (nat n) = CHR ''-'' # fmt_nat (nat (- m))" by (simp add: FormatInt_def)
    then show ?thesis using hd_fmt_nat [of "nat n"] by simp
  next
    assume "\<not> m < 0" and "n < 0"
    with eq have "fmt_nat (nat m) = CHR ''-'' # fmt_nat (nat (- n))" by (simp add: FormatInt_def)
    then show ?thesis using hd_fmt_nat [of "nat m"] by simp
  next
    assume "\<not> m < 0" and "\<not> n < 0"
    with eq show ?thesis by (simp add: FormatInt_def)
  qed
qed simp

lemma FormatInt_nonempty [simp]: "FormatInt n \<noteq> []"
  by (simp add: FormatInt_def)

lemma FormatInt_0: "FormatInt 0 = ''0''"
  by code_simp

text \<open>Zero padding to a width: the verb \<^verbatim>\<open>%06d\<close> and the fields of a formatted time.\<close>

definition pad_left :: "nat \<Rightarrow> string \<Rightarrow> string" where
  "pad_left w s = replicate (w - length s) (CHR ''0'') @ s"

lemma length_pad_left: "length (pad_left w s) = max w (length s)"
  by (simp add: pad_left_def)

lemma length_fmt_nat_le: "n < 10 ^ Suc k \<Longrightarrow> length (fmt_nat n) \<le> Suc k"
proof (induction n arbitrary: k rule: fmt_nat.induct)
  case (1 n)
  show ?case
  proof (cases "n < 10")
    case True
    then show ?thesis by (simp add: fmt_nat.simps [of n])
  next
    case False
    then obtain j where k: "k = Suc j"
      using "1.prems" by (cases k) auto
    have "n div 10 < 10 ^ Suc j"
      using "1.prems" k by (simp add: less_mult_imp_div_less)
    with "1.IH" False k show ?thesis by (simp add: fmt_nat.simps [of n])
  qed
qed

lemma digit_val_zero: "digit_val (CHR ''0'') = Some 0"
  by (simp add: digit_val_def)

lemma parse_digits_zeros: "parse_digits 0 (replicate k (CHR ''0'') @ s) = parse_digits 0 s"
  by (induction k) (simp_all add: digit_val_zero)

lemma parse_digits_pad_left: "parse_digits 0 (pad_left w (fmt_nat n)) = Some n"
  by (simp add: pad_left_def parse_digits_zeros parse_digits_fmt_nat)

section \<open>Strings\<close>

definition has_prefix :: "string \<Rightarrow> string \<Rightarrow> bool" where
  "has_prefix s p \<longleftrightarrow> take (length p) s = p"

definition to_lower_byte :: "char \<Rightarrow> char" where
  "to_lower_byte c =
     (let n = (of_char c :: nat) in if 65 \<le> n \<and> n \<le> 90 then char_of (n + 32) else c)"

text \<open>On the letters of ASCII; it is only used to find an ASCII prefix, on which no other letter has an effect.\<close>

definition ToLower :: "string \<Rightarrow> string" where
  "ToLower s = map to_lower_byte s"


lemma append_prefix_inject [key_simps]: "p @ x = p @ y \<longleftrightarrow> x = y"
  by simp

end
