(* ===== verification/Redis_Server.thy ===== *)
theory Redis_Server
  imports Prelude "HOL-Library.AList"
begin

text \<open>
  Redis as the services use it. Redis and its Go client are not part of the repository, so they are
  a parameter: a record \<open>'s redis\<close> of three operations on an unknown server state \<open>'s\<close> (one command,
  one MULTI/EXEC pipeline, one Lua script). What the code relies on is the locale \<open>redis_server\<close>:
  the documented effect of each command on the \<^emph>\<open>view\<close> of a server, the function that tells for a
  time and a key what a client reading that key at that time finds. A time-to-live is part of the
  view (a value vanishes at its deadline), and the time at which a command runs is chosen by the
  server, no earlier than the command before it. A command that returns an error may or may not
  have been carried out. The locale \<open>redis_reliable\<close> adds that commands are answered.

  The last section interprets both locales on a store of values with deadlines.
\<close>

section \<open>Commands, replies and views\<close>

datatype rval = RStr string | RHash "(string \<times> string) list"

datatype rerr = WrongType | NotInteger | Overflow | UnexpectedReply | ConnErr string

datatype rreply = RepNil | RepStr string | RepInt int | RepHash "(string \<times> string) list" | RepOK

datatype rcmd =
    GET string
  | SET string string duration
  | DEL "string list"
  | INCR string
  | EXPIRE string duration
  | HSET string "(string \<times> string) list"
  | HGETALL string
  | HINCRBY string string int

type_synonym rview = "int \<Rightarrow> string \<Rightarrow> rval option"

definition vset :: "string \<Rightarrow> (int \<Rightarrow> rval option) \<Rightarrow> rview \<Rightarrow> rview" where
  "vset k f V = (\<lambda>t. (V t)(k := f t))"

definition until :: "int \<Rightarrow> rval \<Rightarrow> int \<Rightarrow> rval option" where
  "until d v = (\<lambda>t. if t < d then Some v else None)"

text \<open>Writing a value to a key: a live key keeps its deadline, a new one has none.\<close>

definition vput :: "string \<Rightarrow> rval \<Rightarrow> int \<Rightarrow> rview \<Rightarrow> rview" where
  "vput k v t V =
     vset k (if V t k = None then (\<lambda>_. Some v) else (\<lambda>t'. if V t' k = None then None else Some v)) V"

definition counter_of :: "rval option \<Rightarrow> rerr + int" where
  "counter_of x = (case x of
      None \<Rightarrow> Inr 0
    | Some (RStr s) \<Rightarrow> (case ParseInt s of None \<Rightarrow> Inl NotInteger | Some n \<Rightarrow> Inr n)
    | Some (RHash _) \<Rightarrow> Inl WrongType)"

definition hash_of :: "rval option \<Rightarrow> rerr + (string \<times> string) list" where
  "hash_of x = (case x of
      None \<Rightarrow> Inr []
    | Some (RStr _) \<Rightarrow> Inl WrongType
    | Some (RHash h) \<Rightarrow> Inr h)"

definition field_int :: "(string \<times> string) list \<Rightarrow> string \<Rightarrow> rerr + int" where
  "field_int h f = (case map_of h f of
      None \<Rightarrow> Inr 0
    | Some s \<Rightarrow> (case ParseInt s of None \<Rightarrow> Inl NotInteger | Some n \<Rightarrow> Inr n))"

definition in_int64 :: "int \<Rightarrow> bool" where
  "in_int64 n \<longleftrightarrow> min_int64 \<le> n \<and> n \<le> max_int64"

definition set_fields :: "(string \<times> string) list \<Rightarrow> (string \<times> string) list \<Rightarrow> (string \<times> string) list" where
  "set_fields fvs h = fold (\<lambda>fv. AList.update (fst fv) (snd fv)) fvs h"

text \<open>The value a command writes, if it writes one, and the reply it gives at time \<open>t\<close>.\<close>

fun reply :: "rcmd \<Rightarrow> int \<Rightarrow> rview \<Rightarrow> rerr + rreply" where
  "reply (GET k) t V = (case V t k of
      None \<Rightarrow> Inr RepNil | Some (RStr s) \<Rightarrow> Inr (RepStr s) | Some (RHash _) \<Rightarrow> Inl WrongType)"
| "reply (SET k v d) t V = Inr RepOK"
| "reply (DEL ks) t V = Inr (RepInt (int (length (filter (\<lambda>k. V t k \<noteq> None) (remdups ks)))))"
| "reply (INCR k) t V = (case counter_of (V t k) of
      Inl e \<Rightarrow> Inl e
    | Inr n \<Rightarrow> if in_int64 (n + 1) then Inr (RepInt (n + 1)) else Inl Overflow)"
| "reply (EXPIRE k d) t V = Inr (RepInt (if V t k = None then 0 else 1))"
| "reply (HSET k fvs) t V = (case hash_of (V t k) of
      Inl e \<Rightarrow> Inl e
    | Inr h \<Rightarrow> Inr (RepInt (int (length (filter (\<lambda>f. f \<notin> fst ` set h) (remdups (map fst fvs)))))))"
| "reply (HGETALL k) t V = (case hash_of (V t k) of Inl e \<Rightarrow> Inl e | Inr h \<Rightarrow> Inr (RepHash h))"
| "reply (HINCRBY k f n) t V = (case hash_of (V t k) of
      Inl e \<Rightarrow> Inl e
    | Inr h \<Rightarrow> (case field_int h f of
        Inl e \<Rightarrow> Inl e
      | Inr m \<Rightarrow> if in_int64 (m + n) then Inr (RepInt (m + n)) else Inl Overflow))"

fun effect :: "rcmd \<Rightarrow> int \<Rightarrow> rview \<Rightarrow> rview" where
  "effect (GET k) t V = V"
| "effect (SET k v d) t V = vset k (until (t + d) (RStr v)) V"
| "effect (DEL ks) t V = (\<lambda>t' k. if k \<in> set ks then None else V t' k)"
| "effect (INCR k) t V = (case counter_of (V t k) of
      Inl e \<Rightarrow> V
    | Inr n \<Rightarrow> if in_int64 (n + 1) then vput k (RStr (FormatInt (n + 1))) t V else V)"
| "effect (EXPIRE k d) t V = (case V t k of
      None \<Rightarrow> V | Some v \<Rightarrow> vset k (until (t + d) v) V)"
| "effect (HSET k fvs) t V = (case hash_of (V t k) of
      Inl e \<Rightarrow> V | Inr h \<Rightarrow> vput k (RHash (set_fields fvs h)) t V)"
| "effect (HGETALL k) t V = V"
| "effect (HINCRBY k f n) t V = (case hash_of (V t k) of
      Inl e \<Rightarrow> V
    | Inr h \<Rightarrow> (case field_int h f of
        Inl e \<Rightarrow> V
      | Inr m \<Rightarrow> if in_int64 (m + n)
          then vput k (RHash (AList.update f (FormatInt (m + n)) h)) t V else V))"

fun touches :: "rcmd \<Rightarrow> string set" where
  "touches (GET k) = {}"
| "touches (SET k v d) = {k}"
| "touches (DEL ks) = set ks"
| "touches (INCR k) = {k}"
| "touches (EXPIRE k d) = {k}"
| "touches (HSET k fvs) = {k}"
| "touches (HGETALL k) = {}"
| "touches (HINCRBY k f n) = {k}"

definition effects :: "rcmd list \<Rightarrow> int \<Rightarrow> rview \<Rightarrow> rview" where
  "effects cs t V = fold (\<lambda>c. effect c t) cs V"

text \<open>A pipeline's result is an error as soon as one of its commands replies with one.\<close>

fun all_ok :: "rcmd list \<Rightarrow> int \<Rightarrow> rview \<Rightarrow> bool" where
  "all_ok [] t V = True"
| "all_ok (c # cs) t V = (\<not> isl (reply c t V) \<and> all_ok cs t (effect c t V))"

text \<open>
  A Lua script: it returns a number, or calls a command and goes on with its reply. An error reply
  aborts the script and keeps the effects so far.
\<close>

datatype script = Return int | Call rcmd "rreply \<Rightarrow> script"

primrec run_script :: "script \<Rightarrow> int \<Rightarrow> rview \<Rightarrow> (rerr + int) \<times> rview" where
  "run_script (Return n) t V = (Inr n, V)"
| "run_script (Call c f) t V = (case reply c t V of
      Inl e \<Rightarrow> (Inl e, V) | Inr r \<Rightarrow> run_script (f r) t (effect c t V))"

record 's redis =
  do_cmd :: "rcmd \<Rightarrow> ('s, rerr, rreply) action"
  exec_tx :: "rcmd list \<Rightarrow> ('s, rerr, unit) action"
  run_lua :: "script \<Rightarrow> ('s, rerr, int) action"

text \<open>The typed results of the Go client's methods.\<close>

definition redis_get :: "'s redis \<Rightarrow> string \<Rightarrow> ('s, rerr, string option) action" where
  "redis_get R k = and_then (do_cmd R (GET k)) (\<lambda>r. case r of
      RepNil \<Rightarrow> ok None | RepStr s \<Rightarrow> ok (Some s) | _ \<Rightarrow> fail UnexpectedReply)"

definition redis_int :: "'s redis \<Rightarrow> rcmd \<Rightarrow> ('s, rerr, int) action" where
  "redis_int R c = and_then (do_cmd R c) (\<lambda>r. case r of
      RepInt n \<Rightarrow> ok n | _ \<Rightarrow> fail UnexpectedReply)"

definition redis_hgetall :: "'s redis \<Rightarrow> string \<Rightarrow> ('s, rerr, (string \<times> string) list) action" where
  "redis_hgetall R k = and_then (do_cmd R (HGETALL k)) (\<lambda>r. case r of
      RepHash h \<Rightarrow> ok h | _ \<Rightarrow> fail UnexpectedReply)"

section \<open>Generic facts about views\<close>

lemma vset_same [simp]: "vset k f V t k = f t"
  by (simp add: vset_def)

lemma vset_other [simp]: "k' \<noteq> k \<Longrightarrow> vset k f V t k' = V t k'"
  by (simp add: vset_def)

lemma until_eq: "until d v t = (if t < d then Some v else None)"
  by (simp add: until_def)

lemma vput_other [simp]: "k' \<noteq> k \<Longrightarrow> vput k v t V t' k' = V t' k'"
  by (simp add: vput_def)

lemma vput_now [simp]: "vput k v t V t k = Some v"
  by (simp add: vput_def)

lemma vput_same:
  "vput k v t V t' k = (if V t k \<noteq> None \<and> V t' k = None then None else Some v)"
  by (simp add: vput_def)

lemma effect_other: "k \<notin> touches c \<Longrightarrow> effect c t V t' k = V t' k"
  by (cases c) (auto split: sum.splits option.splits)

lemma effect_error: "reply c t V = Inl e \<Longrightarrow> effect c t V = V"
  by (cases c) (auto split: sum.splits option.splits rval.splits if_splits)

lemma effects_Nil [simp]: "effects [] t V = V"
  by (simp add: effects_def)

lemma effects_Cons [simp]: "effects (c # cs) t V = effects cs t (effect c t V)"
  by (simp add: effects_def)

lemma effects_other: "k \<notin> \<Union> (touches ` set cs) \<Longrightarrow> effects cs t V t' k = V t' k"
  by (induction cs arbitrary: V) (auto simp: effect_other)

lemma counter_of_None [simp]: "counter_of None = Inr 0"
  by (simp add: counter_of_def)

lemma counter_of_FormatInt: "in_int64 n \<Longrightarrow> counter_of (Some (RStr (FormatInt n))) = Inr n"
  by (simp add: counter_of_def in_int64_def ParseInt_FormatInt)

lemma counter_of_HashE: "counter_of x = Inr n \<Longrightarrow> x \<noteq> Some (RHash h)"
  by (auto simp: counter_of_def)

lemma hash_of_None [simp]: "hash_of None = Inr []"
  by (simp add: hash_of_def)

lemma hash_of_Hash [simp]: "hash_of (Some (RHash h)) = Inr h"
  by (simp add: hash_of_def)

lemma hash_of_InrD: "hash_of x = Inr h \<Longrightarrow> x = None \<and> h = [] \<or> x = Some (RHash h)"
  by (auto simp: hash_of_def split: option.splits rval.splits)

section \<open>The contract\<close>

definition evolves ::
  "('s \<Rightarrow> rview) \<Rightarrow> ('s \<Rightarrow> int) \<Rightarrow> (int \<Rightarrow> rview \<Rightarrow> rview) \<Rightarrow> 's \<Rightarrow> 's \<Rightarrow> bool" where
  "evolves view clock E s s' \<longleftrightarrow>
     clock s \<le> clock s' \<and> (\<forall>t \<ge> clock s'. view s' t = E (clock s') (view s) t)"

text \<open>Time has passed and only the keys of \<open>K\<close> may have changed.\<close>

definition only_keys ::
  "('s \<Rightarrow> rview) \<Rightarrow> ('s \<Rightarrow> int) \<Rightarrow> string set \<Rightarrow> 's \<Rightarrow> 's \<Rightarrow> bool" where
  "only_keys view clock K s s' \<longleftrightarrow>
     clock s \<le> clock s' \<and> (\<forall>t \<ge> clock s'. \<forall>k. k \<notin> K \<longrightarrow> view s' t k = view s t k)"

lemma only_keys_trans:
  "only_keys view clock K s s' \<Longrightarrow> only_keys view clock K s' s'' \<Longrightarrow> only_keys view clock K s s''"
  by (auto simp: only_keys_def)

lemma only_keys_refl [simp]: "only_keys view clock K s s"
  by (simp add: only_keys_def)

lemma only_keys_mono: "only_keys view clock K s s' \<Longrightarrow> K \<subseteq> K' \<Longrightarrow> only_keys view clock K' s s'"
  by (auto simp: only_keys_def)

text \<open>Every value that the key can still show satisfies \<open>\<Phi>\<close>.\<close>

definition shows_only ::
  "('s \<Rightarrow> rview) \<Rightarrow> ('s \<Rightarrow> int) \<Rightarrow> string \<Rightarrow> (rval \<Rightarrow> bool) \<Rightarrow> 's \<Rightarrow> bool" where
  "shows_only view clock k \<Phi> s \<longleftrightarrow> (\<forall>t \<ge> clock s. \<forall>x. view s t k = Some x \<longrightarrow> \<Phi> x)"

lemma shows_onlyD: "shows_only view clock k \<Phi> s \<Longrightarrow> clock s \<le> t \<Longrightarrow> view s t k = Some x \<Longrightarrow> \<Phi> x"
  by (simp add: shows_only_def)

lemma shows_only_only_keys:
  "shows_only view clock k \<Phi> s \<Longrightarrow> only_keys view clock K s s' \<Longrightarrow> k \<notin> K \<Longrightarrow> shows_only view clock k \<Phi> s'"
  unfolding shows_only_def only_keys_def by (metis order_trans)

lemma shows_only_same:
  "shows_only view clock k \<Phi> s \<Longrightarrow> evolves view clock (\<lambda>_ V. V) s s' \<Longrightarrow> shows_only view clock k \<Phi> s'"
  unfolding shows_only_def evolves_def by (metis order_trans)

lemma shows_only_absent: "\<forall>t \<ge> clock s. view s t k = None \<Longrightarrow> shows_only view clock k \<Phi> s"
  by (simp add: shows_only_def)

lemma shows_only_evolves:
  assumes "shows_only view clock k \<Phi> s" and "evolves view clock E s s'"
    and "\<And>t x. clock s' \<le> t \<Longrightarrow> E (clock s') (view s) t k = Some x \<Longrightarrow> view s t k = Some x \<or> \<Phi> x"
  shows "shows_only view clock k \<Phi> s'"
  using assms unfolding shows_only_def evolves_def by (metis order_trans)

lemma evolves_clock: "evolves view clock E s s' \<Longrightarrow> clock s \<le> clock s'"
  by (simp add: evolves_def)

lemma evolves_view: "evolves view clock E s s' \<Longrightarrow> clock s' \<le> t \<Longrightarrow> view s' t k = E (clock s') (view s) t k"
  by (simp add: evolves_def)

text \<open>An action that, whatever it returns, touches no key outside \<open>K\<close>.\<close>

definition frame ::
  "('s \<Rightarrow> rview) \<Rightarrow> ('s \<Rightarrow> int) \<Rightarrow> string set \<Rightarrow> ('s, 'e, 'a) action \<Rightarrow> bool" where
  "frame view clock K m \<longleftrightarrow> (\<forall>s r s'. m s = (r, s') \<longrightarrow> only_keys view clock K s s')"

named_theorems frame_intros \<open>which keys an action can touch\<close>

lemma frameD: "frame view clock K m \<Longrightarrow> m s = (r, s') \<Longrightarrow> only_keys view clock K s s'"
  by (simp add: frame_def)

lemma frame_clock: "frame view clock K m \<Longrightarrow> m s = (r, s') \<Longrightarrow> clock s \<le> clock s'"
  by (auto simp: frame_def only_keys_def)

lemma frame_ok [frame_intros]: "frame view clock K (ok a)"
  by (simp add: frame_def ok_def)

lemma frame_fail [frame_intros]: "frame view clock K (fail e)"
  by (simp add: frame_def fail_def)

lemma frame_lift_res [frame_intros]: "frame view clock K (lift_res r)"
  by (simp add: frame_def lift_res_def)

lemma frame_map_err [frame_intros]: "frame view clock K m \<Longrightarrow> frame view clock K (map_err g m)"
  by (auto simp: frame_def map_err_def split: prod.splits sum.splits)

lemma frame_ignore [frame_intros]: "frame view clock K m \<Longrightarrow> frame view clock K (ignore m)"
  by (auto simp: frame_def ignore_def prod_eq_iff)

lemma frame_and_then [frame_intros]:
  assumes "frame view clock K m" and "\<And>a. frame view clock K (f a)"
  shows "frame view clock K (and_then m f)"
  unfolding frame_def
proof (intro allI impI)
  fix s r s'
  assume run: "and_then m f s = (r, s')"
  show "only_keys view clock K s s'"
    by (rule and_then_rel [OF frameD [OF assms(1)] frameD [OF assms(2)] only_keys_trans run])
qed

lemma frame_if [frame_intros]:
  "frame view clock K m \<Longrightarrow> frame view clock K n \<Longrightarrow> frame view clock K (if b then m else n)"
  by simp

lemma frame_case_sum [frame_intros]:
  "(\<And>a. frame view clock K (f a)) \<Longrightarrow> (\<And>b. frame view clock K (g b)) \<Longrightarrow>
     frame view clock K (case x of Inl a \<Rightarrow> f a | Inr b \<Rightarrow> g b)"
  by (cases x) simp_all

lemma frame_case_option [frame_intros]:
  "frame view clock K m \<Longrightarrow> (\<And>b. frame view clock K (g b)) \<Longrightarrow>
     frame view clock K (case x of None \<Rightarrow> m | Some b \<Rightarrow> g b)"
  by (cases x) simp_all

locale redis_server =
  fixes R :: "'s redis" and view :: "'s \<Rightarrow> rview" and clock :: "'s \<Rightarrow> int"
  assumes vanish:
      "clock s \<le> t \<Longrightarrow> t \<le> t' \<Longrightarrow> view s t' k = Some v \<Longrightarrow> view s t k = Some v"
    and do_ok: "do_cmd R c s = (Inr r, s') \<Longrightarrow>
      evolves view clock (effect c) s s' \<and> reply c (clock s') (view s) = Inr r"
    and do_err: "do_cmd R c s = (Inl e, s') \<Longrightarrow>
      evolves view clock (\<lambda>_ V. V) s s' \<or> evolves view clock (effect c) s s'"
    and tx_ok: "exec_tx R cs s = (Inr u, s') \<Longrightarrow>
      evolves view clock (effects cs) s s' \<and> all_ok cs (clock s') (view s)"
    and tx_err: "exec_tx R cs s = (Inl e, s') \<Longrightarrow>
      evolves view clock (\<lambda>_ V. V) s s' \<or> evolves view clock (effects cs) s s'"
    and lua_ok: "run_lua R p s = (Inr n, s') \<Longrightarrow>
      evolves view clock (\<lambda>t V. snd (run_script p t V)) s s' \<and>
      fst (run_script p (clock s') (view s)) = Inr n"
    and lua_err: "run_lua R p s = (Inl e, s') \<Longrightarrow>
      evolves view clock (\<lambda>_ V. V) s s' \<or>
      evolves view clock (\<lambda>t V. snd (run_script p t V)) s s'"
begin

lemma do_clock: "do_cmd R c s = (r, s') \<Longrightarrow> clock s \<le> clock s'"
  by (cases r) (auto simp: evolves_def dest: do_ok do_err)

lemma tx_clock: "exec_tx R cs s = (r, s') \<Longrightarrow> clock s \<le> clock s'"
  by (cases r) (auto simp: evolves_def dest: tx_ok tx_err)

lemma lua_clock: "run_lua R p s = (r, s') \<Longrightarrow> clock s \<le> clock s'"
  by (cases r) (auto simp: evolves_def dest: lua_ok lua_err)

lemma do_only_keys: "do_cmd R c s = (r, s') \<Longrightarrow> touches c \<subseteq> K \<Longrightarrow> only_keys view clock K s s'"
proof -
  assume run: "do_cmd R c s = (r, s')" and sub: "touches c \<subseteq> K"
  have "evolves view clock (\<lambda>_ V. V) s s' \<or> evolves view clock (effect c) s s'"
    using run by (cases r) (auto dest: do_ok do_err)
  moreover have "effect c t V t' k = V t' k" if "k \<notin> K" for t V t' k
    using that sub by (intro effect_other) blast
  ultimately show ?thesis by (auto simp: evolves_def only_keys_def)
qed

lemma tx_only_keys:
  "exec_tx R cs s = (r, s') \<Longrightarrow> \<Union> (touches ` set cs) \<subseteq> K \<Longrightarrow> only_keys view clock K s s'"
proof -
  assume run: "exec_tx R cs s = (r, s')" and sub: "\<Union> (touches ` set cs) \<subseteq> K"
  have "evolves view clock (\<lambda>_ V. V) s s' \<or> evolves view clock (effects cs) s s'"
    using run by (cases r) (auto dest: tx_ok tx_err)
  moreover have "effects cs t V t' k = V t' k" if "k \<notin> K" for t V t' k
    using that sub by (intro effects_other) blast
  ultimately show ?thesis by (auto simp: evolves_def only_keys_def)
qed

lemma do_frame [frame_intros]: "touches c \<subseteq> K \<Longrightarrow> frame view clock K (do_cmd R c)"
  by (auto simp: frame_def dest: do_only_keys)

lemma tx_frame [frame_intros]: "\<Union> (touches ` set cs) \<subseteq> K \<Longrightarrow> frame view clock K (exec_tx R cs)"
  by (auto simp: frame_def dest: tx_only_keys)

lemma redis_int_frame [frame_intros]: "touches c \<subseteq> K \<Longrightarrow> frame view clock K (redis_int R c)"
  unfolding redis_int_def by (auto intro!: frame_intros split: rreply.splits)

lemma redis_get_frame [frame_intros]: "frame view clock K (redis_get R k)"
  unfolding redis_get_def by (auto intro!: frame_intros split: rreply.splits)

lemma redis_hgetall_frame [frame_intros]: "frame view clock K (redis_hgetall R k)"
  unfolding redis_hgetall_def by (auto intro!: frame_intros split: rreply.splits)

text \<open>A value read after a command was there, at the same time, in the state before it.\<close>

lemma gone_stays_gone: "clock s \<le> t \<Longrightarrow> t \<le> t' \<Longrightarrow> view s t k = None \<Longrightarrow> view s t' k = None"
  using vanish by (metis option.exhaust option.simps(3))

lemma redis_get_InrD:
  assumes "redis_get R k s = (Inr v, s')"
  shows "evolves view clock (\<lambda>_ V. V) s s'"
    and "view s (clock s') k = map_option RStr v"
proof -
  from assms obtain r where run: "do_cmd R (GET k) s = (Inr r, s')"
    and r: "r = (case v of None \<Rightarrow> RepNil | Some x \<Rightarrow> RepStr x)"
    by (auto simp: redis_get_def ok_def fail_def split: rreply.splits elim!: and_then_InrE)
  from do_ok [OF run] show "evolves view clock (\<lambda>_ V. V) s s'"
    by (simp add: evolves_def)
  from do_ok [OF run] r show "view s (clock s') k = map_option RStr v"
    by (auto split: option.splits rval.splits)
qed

lemma redis_get_only_keys: "redis_get R k s = (r, s') \<Longrightarrow> only_keys view clock K s s'"
  by (rule frameD [OF redis_get_frame])

lemma redis_int_InrD:
  assumes "redis_int R c s = (Inr n, s')"
  shows "evolves view clock (effect c) s s'"
    and "reply c (clock s') (view s) = Inr (RepInt n)"
proof -
  from assms have run: "do_cmd R c s = (Inr (RepInt n), s')"
    by (auto simp: redis_int_def ok_def fail_def split: rreply.splits elim!: and_then_InrE)
  from do_ok [OF run] show "evolves view clock (effect c) s s'"
    and "reply c (clock s') (view s) = Inr (RepInt n)" by auto
qed

lemma redis_int_only_keys:
  "redis_int R c s = (r, s') \<Longrightarrow> touches c \<subseteq> K \<Longrightarrow> only_keys view clock K s s'"
  by (rule frameD [OF redis_int_frame])

lemma redis_hgetall_InrD:
  assumes "redis_hgetall R k s = (Inr h, s')"
  shows "evolves view clock (\<lambda>_ V. V) s s'"
    and "hash_of (view s (clock s') k) = Inr h"
proof -
  from assms have run: "do_cmd R (HGETALL k) s = (Inr (RepHash h), s')"
    by (auto simp: redis_hgetall_def ok_def fail_def split: rreply.splits elim!: and_then_InrE)
  from do_ok [OF run] show "evolves view clock (\<lambda>_ V. V) s s'"
    by (simp add: evolves_def)
  from do_ok [OF run] show "hash_of (view s (clock s') k) = Inr h"
    by (auto split: sum.splits)
qed

lemma redis_hgetall_only_keys: "redis_hgetall R k s = (r, s') \<Longrightarrow> only_keys view clock K s s'"
  by (rule frameD [OF redis_hgetall_frame])

end

text \<open>A server that answers: the reply of a command is the documented one.\<close>

locale redis_reliable = redis_server R view clock
  for R :: "'s redis" and view :: "'s \<Rightarrow> rview" and clock :: "'s \<Rightarrow> int" +
  assumes do_answers: "\<exists>s'. do_cmd R c s = (reply c (clock s') (view s), s')"
    and tx_answers: "\<exists>r s'. exec_tx R cs s = (r, s') \<and>
      (all_ok cs (clock s') (view s) \<longrightarrow> r = Inr ())"
    and lua_answers: "\<exists>s'. run_lua R p s = (fst (run_script p (clock s') (view s)), s')"
begin

lemma do_result:
  assumes "do_cmd R c s = (r, s')"
  shows "r = reply c (clock s') (view s)" and "evolves view clock (effect c) s s'"
proof -
  from do_answers [of c s] assms show r: "r = reply c (clock s') (view s)" by auto
  show "evolves view clock (effect c) s s'"
  proof (cases r)
    case (Inl e)
    with r have "effect c (clock s') (view s) = view s" by (intro effect_error [of _ _ _ e]) simp
    with do_err [of c s e s'] assms Inl show ?thesis by (auto simp: evolves_def)
  qed (use do_ok assms in auto)
qed

lemma redis_get_result:
  assumes "redis_get R k s = (r, s')"
  shows "evolves view clock (\<lambda>_ V. V) s s'"
    and "view s (clock s') k = map_option RStr v \<Longrightarrow> r = Inr v"
proof -
  obtain q where run: "do_cmd R (GET k) s = (q, s')"
    using assms by (cases "do_cmd R (GET k) s")
      (auto simp: redis_get_def and_then_def ok_def fail_def split: sum.splits rreply.splits)
  from do_result(2) [OF run] show "evolves view clock (\<lambda>_ V. V) s s'" by (simp add: evolves_def)
  show "r = Inr v" if "view s (clock s') k = map_option RStr v"
    using do_result(1) [OF run] run assms that
    by (cases v) (simp_all add: redis_get_def and_then_def ok_def)
qed

lemma redis_hgetall_result:
  assumes "redis_hgetall R k s = (r, s')"
  shows "evolves view clock (\<lambda>_ V. V) s s'" and "r = hash_of (view s (clock s') k)"
proof -
  obtain q where run: "do_cmd R (HGETALL k) s = (q, s')"
    using assms by (cases "do_cmd R (HGETALL k) s")
      (auto simp: redis_hgetall_def and_then_def ok_def fail_def split: sum.splits rreply.splits)
  from do_result(2) [OF run] show "evolves view clock (\<lambda>_ V. V) s s'" by (simp add: evolves_def)
  show "r = hash_of (view s (clock s') k)"
    using do_result(1) [OF run] run assms
    by (auto simp: redis_hgetall_def and_then_def ok_def split: sum.splits)
qed

lemma redis_int_result:
  assumes "redis_int R c s = (r, s')"
  shows "evolves view clock (effect c) s s'"
    and "reply c (clock s') (view s) = Inr (RepInt n) \<Longrightarrow> r = Inr n"
    and "reply c (clock s') (view s) = Inl e \<Longrightarrow> r = Inl e"
proof -
  obtain q where run: "do_cmd R c s = (q, s')"
    using assms by (cases "do_cmd R c s")
      (auto simp: redis_int_def and_then_def ok_def fail_def split: sum.splits rreply.splits)
  from do_result(2) [OF run] show "evolves view clock (effect c) s s'" .
  show "r = Inr n" if "reply c (clock s') (view s) = Inr (RepInt n)"
    using do_result(1) [OF run] run assms that by (simp add: redis_int_def and_then_def ok_def)
  show "r = Inl e" if "reply c (clock s') (view s) = Inl e"
    using do_result(1) [OF run] run assms that by (simp add: redis_int_def and_then_def)
qed

end

section \<open>A store of values with deadlines\<close>

text \<open>
  The contract is satisfiable: a map from keys to a value and an optional deadline, with a clock,
  that answers every command at once and drops a key when its deadline has passed.
\<close>

record mem =
  m_now :: int
  m_store :: "string \<Rightarrow> (rval \<times> int option) option"

definition mem_view :: "mem \<Rightarrow> rview" where
  "mem_view s = (\<lambda>t k. case m_store s k of
      None \<Rightarrow> None
    | Some (v, None) \<Rightarrow> Some v
    | Some (v, Some d) \<Rightarrow> if t < d then Some v else None)"

definition mem_put :: "string \<Rightarrow> rval \<Rightarrow> mem \<Rightarrow> mem" where
  "mem_put k v s = s\<lparr>m_store := (m_store s)(k \<mapsto>
     (v, if mem_view s (m_now s) k = None then None
         else case m_store s k of None \<Rightarrow> None | Some (_, d) \<Rightarrow> d))\<rparr>"

fun mem_effect :: "rcmd \<Rightarrow> mem \<Rightarrow> mem" where
  "mem_effect (GET k) s = s"
| "mem_effect (SET k v d) s = s\<lparr>m_store := (m_store s)(k \<mapsto> (RStr v, Some (m_now s + d)))\<rparr>"
| "mem_effect (DEL ks) s = s\<lparr>m_store := (\<lambda>k. if k \<in> set ks then None else m_store s k)\<rparr>"
| "mem_effect (INCR k) s = (case counter_of (mem_view s (m_now s) k) of
      Inl e \<Rightarrow> s
    | Inr n \<Rightarrow> if in_int64 (n + 1) then mem_put k (RStr (FormatInt (n + 1))) s else s)"
| "mem_effect (EXPIRE k d) s = (case mem_view s (m_now s) k of
      None \<Rightarrow> s | Some v \<Rightarrow> s\<lparr>m_store := (m_store s)(k \<mapsto> (v, Some (m_now s + d)))\<rparr>)"
| "mem_effect (HSET k fvs) s = (case hash_of (mem_view s (m_now s) k) of
      Inl e \<Rightarrow> s | Inr h \<Rightarrow> mem_put k (RHash (set_fields fvs h)) s)"
| "mem_effect (HGETALL k) s = s"
| "mem_effect (HINCRBY k f n) s = (case hash_of (mem_view s (m_now s) k) of
      Inl e \<Rightarrow> s
    | Inr h \<Rightarrow> (case field_int h f of
        Inl e \<Rightarrow> s
      | Inr m \<Rightarrow> if in_int64 (m + n)
          then mem_put k (RHash (AList.update f (FormatInt (m + n)) h)) s else s))"

primrec mem_script :: "script \<Rightarrow> mem \<Rightarrow> (rerr + int) \<times> mem" where
  "mem_script (Return n) s = (Inr n, s)"
| "mem_script (Call c f) s = (case reply c (m_now s) (mem_view s) of
      Inl e \<Rightarrow> (Inl e, s) | Inr r \<Rightarrow> mem_script (f r) (mem_effect c s))"

definition mem_redis :: "mem redis" where
  "mem_redis = \<lparr>
     do_cmd = (\<lambda>c s. (reply c (m_now s) (mem_view s), mem_effect c s)),
     exec_tx = (\<lambda>cs s. (if all_ok cs (m_now s) (mem_view s) then Inr () else Inl WrongType,
       fold mem_effect cs s)),
     run_lua = mem_script\<rparr>"

lemma mem_now_put [simp]: "m_now (mem_put k v s) = m_now s"
  by (simp add: mem_put_def)

lemma mem_now_effect [simp]: "m_now (mem_effect c s) = m_now s"
  by (cases c) (auto split: sum.splits option.splits)

lemma mem_view_put: "mem_view (mem_put k v s) = vput k v (m_now s) (mem_view s)"
  by (intro ext) (auto simp: mem_view_def mem_put_def vput_def vset_def split: option.splits)

lemma mem_view_effect: "mem_view (mem_effect c s) = effect c (m_now s) (mem_view s)"
proof (cases c)
  case (SET k v d)
  then show ?thesis by (intro ext) (simp add: mem_view_def vset_def until_def)
next
  case (DEL ks)
  then show ?thesis by (intro ext) (simp add: mem_view_def)
next
  case (EXPIRE k d)
  then show ?thesis
    by (cases "mem_view s (m_now s) k")
      (auto intro!: ext simp: mem_view_def vset_def until_def split: option.splits if_splits)
qed (auto simp: mem_view_put split: sum.splits)

lemma mem_now_fold [simp]: "m_now (fold mem_effect cs s) = m_now s"
  by (induction cs arbitrary: s) simp_all

lemma mem_view_fold: "mem_view (fold mem_effect cs s) = effects cs (m_now s) (mem_view s)"
  by (induction cs arbitrary: s) (simp_all add: mem_view_effect)

lemma mem_script_now: "m_now (snd (mem_script p s)) = m_now s"
  by (induction p arbitrary: s) (auto split: sum.splits)

lemma mem_script_run:
  "fst (mem_script p s) = fst (run_script p (m_now s) (mem_view s)) \<and>
   mem_view (snd (mem_script p s)) = snd (run_script p (m_now s) (mem_view s))"
proof (induction p arbitrary: s)
  case (Call c f)
  show ?case
  proof (cases "reply c (m_now s) (mem_view s)")
    case (Inr r)
    then show ?thesis using Call.IH [of "f r" "mem_effect c s"] by (simp add: mem_view_effect)
  qed simp
qed simp

lemma mem_vanish: "t \<le> t' \<Longrightarrow> mem_view s t' k = Some v \<Longrightarrow> mem_view s t k = Some v"
  by (auto simp: mem_view_def split: option.splits if_splits)

interpretation mem: redis_server mem_redis mem_view m_now
proof
  show "evolves mem_view m_now (effect c) s s' \<and> reply c (m_now s') (mem_view s) = Inr r"
    if "do_cmd mem_redis c s = (Inr r, s')" for c s r s'
    using that by (auto simp: mem_redis_def evolves_def mem_view_effect)
  show "evolves mem_view m_now (\<lambda>_ V. V) s s' \<or> evolves mem_view m_now (effect c) s s'"
    if "do_cmd mem_redis c s = (Inl e, s')" for c s e s'
    using that by (auto simp: mem_redis_def evolves_def mem_view_effect effect_error)
  show "evolves mem_view m_now (effects cs) s s' \<and> all_ok cs (m_now s') (mem_view s)"
    if "exec_tx mem_redis cs s = (Inr u, s')" for cs s u s'
    using that by (auto simp: mem_redis_def evolves_def mem_view_fold split: if_splits)
  show "evolves mem_view m_now (\<lambda>_ V. V) s s' \<or> evolves mem_view m_now (effects cs) s s'"
    if "exec_tx mem_redis cs s = (Inl e, s')" for cs s e s'
    using that by (auto simp: mem_redis_def evolves_def mem_view_fold)
  show "evolves mem_view m_now (\<lambda>t V. snd (run_script p t V)) s s' \<and>
      fst (run_script p (m_now s') (mem_view s)) = Inr n"
    if "run_lua mem_redis p s = (Inr n, s')" for p s n s'
    using that mem_script_run [of p s] mem_script_now [of p s]
    by (simp add: mem_redis_def evolves_def)
  show "evolves mem_view m_now (\<lambda>_ V. V) s s' \<or>
      evolves mem_view m_now (\<lambda>t V. snd (run_script p t V)) s s'"
    if "run_lua mem_redis p s = (Inl e, s')" for p s e s'
    using that mem_script_run [of p s] mem_script_now [of p s]
    by (simp add: mem_redis_def evolves_def)
qed (auto simp: mem_redis_def intro: mem_vanish)

interpretation mem_rel: redis_reliable mem_redis mem_view m_now
proof
  show "\<exists>s'. do_cmd mem_redis c s = (reply c (m_now s') (mem_view s), s')" for c s
    by (simp add: mem_redis_def)
  show "\<exists>r s'. exec_tx mem_redis cs s = (r, s') \<and>
      (all_ok cs (m_now s') (mem_view s) \<longrightarrow> r = Inr ())" for cs s
    by (simp add: mem_redis_def)
  show "\<exists>s'. run_lua mem_redis p s = (fst (run_script p (m_now s') (mem_view s)), s')" for p s
    using mem_script_run [of p s] mem_script_now [of p s]
    by (intro exI [of _ "snd (mem_script p s)"]) (simp add: mem_redis_def prod_eq_iff)
qed

lemmas mem_contract = mem.redis_server_axioms
lemmas mem_reliable_contract = mem_rel.redis_reliable_axioms

end
