(* ===== verification/Rate_Window.thy ===== *)
theory Rate_Window
  imports Redis_Server
begin

text \<open>
  The counter that the OTP request limit and the device-verification limit share: INCR, then EXPIRE
  when the count is 1, with EXPIRE's error dropped. The locale \<open>window_limited\<close> is the contract of an
  operation guarded by such a counter, and its lemmas bound how often the operation succeeds.
\<close>

definition incr_window :: "'s redis \<Rightarrow> string \<Rightarrow> duration \<Rightarrow> ('s, rerr, int) action" where
  "incr_window R k d =
     and_then (redis_int R (INCR k)) (\<lambda>count.
     and_then (if count = 1 then ignore (do_cmd R (EXPIRE k d)) else ok ()) (\<lambda>_.
     ok count))"

text \<open>At the times where \<open>P\<close> holds the counter reads \<open>n\<close>, a missing key counting as 0.\<close>

definition reads_count ::
  "('s \<Rightarrow> rview) \<Rightarrow> ('s \<Rightarrow> int) \<Rightarrow> string \<Rightarrow> int \<Rightarrow> (int \<Rightarrow> bool) \<Rightarrow> 's \<Rightarrow> bool" where
  "reads_count view clock k n P s \<longleftrightarrow> 0 \<le> n \<and> in_int64 n \<and>
     (\<forall>t \<ge> clock s. P t \<longrightarrow> view s t k = (if n = 0 then None else Some (RStr (FormatInt n))))"

lemma reads_count_only_keys:
  "reads_count view clock k n P s \<Longrightarrow> only_keys view clock K s s' \<Longrightarrow> k \<notin> K \<Longrightarrow>
     reads_count view clock k n P s'"
  by (auto simp: reads_count_def only_keys_def)

lemma in_int64_0 [simp]: "in_int64 0"
  by (simp add: in_int64_def min_int64_def max_int64_def)

context redis_server
begin

lemma incr_window_frame [frame_intros]: "k \<in> K \<Longrightarrow> frame view clock K (incr_window R k d)"
  unfolding incr_window_def by (auto intro!: frame_intros)

lemma incr_window_only_keys: "incr_window R k d s = (r, s') \<Longrightarrow> only_keys view clock {k} s s'"
  by (rule frameD [OF incr_window_frame]) simp

lemma incr_reads_count:
  assumes "reads_count view clock k n P s" and "evolves view clock (effect (INCR k)) s s1"
    and "P (clock s1)" and "in_int64 (n + 1)"
  shows "reads_count view clock k (n + 1) P s1"
proof -
  have now: "view s (clock s1) k = (if n = 0 then None else Some (RStr (FormatInt n)))"
    using assms by (auto simp: reads_count_def evolves_def)
  then have "counter_of (view s (clock s1) k) = Inr n"
    using assms(1) by (simp add: reads_count_def counter_of_FormatInt)
  then have eff: "effect (INCR k) (clock s1) (view s) =
      vput k (RStr (FormatInt (n + 1))) (clock s1) (view s)"
    using assms(4) by simp
  have "view s1 t k = Some (RStr (FormatInt (n + 1)))" if "clock s1 \<le> t" "P t" for t
    using that assms(1,2) eff now
    by (auto simp: evolves_def vput_same reads_count_def)
  then show ?thesis using assms(1,4) by (auto simp: reads_count_def)
qed

lemma incr_no_answer:
  assumes "redis_int R (INCR k) s = (Inl e, s1)"
  shows "evolves view clock (\<lambda>_ V. V) s s1 \<or> evolves view clock (effect (INCR k)) s s1"
  using assms
  by (cases "do_cmd R (INCR k) s")
    (auto simp: redis_int_def and_then_def ok_def fail_def
      split: sum.splits rreply.splits dest: do_err do_ok)

lemma expire_reads_count:
  assumes "reads_count view clock k n P s" and "do_cmd R (EXPIRE k d) s = (r, s1)"
    and "\<And>t. P t \<Longrightarrow> t < clock s + d" and "P (clock s1)"
  shows "reads_count view clock k n P s1"
proof -
  have mono: "clock s \<le> clock s1" by (rule do_clock [OF assms(2)])
  have "evolves view clock (\<lambda>_ V. V) s s1 \<or> evolves view clock (effect (EXPIRE k d)) s s1"
    using assms(2) by (cases r) (auto dest: do_ok do_err)
  moreover have "t < clock s1 + d" if "P t" for t
    using assms(3) [OF that] mono by simp
  ultimately show ?thesis
    using assms(1,4) mono
    by (fastforce simp: reads_count_def evolves_def until_eq split: if_splits)
qed

lemma incr_counts:
  assumes counts: "reads_count view clock k n P s" and incr: "redis_int R (INCR k) s = (q, s1)"
    and P1: "P (clock s1)"
  shows "\<exists>m. reads_count view clock k m P s1 \<and> (m = n \<or> m = n + 1) \<and>
    (\<forall>c. q = Inr c \<longrightarrow> c = n + 1 \<and> m = n + 1)"
proof -
  have "clock s \<le> clock s1"
    using redis_int_only_keys [OF incr, of "{k}"] by (simp add: only_keys_def)
  then have cnt: "counter_of (view s (clock s1) k) = Inr n"
    using counts P1 by (simp add: reads_count_def counter_of_FormatInt)
  show ?thesis
  proof (cases q)
    case (Inl e)
    have same: "reads_count view clock k n P s1" if "evolves view clock (\<lambda>_ V. V) s s1"
      using counts that by (simp add: reads_count_def evolves_def)
    have overflow: "reads_count view clock k n P s1"
      if "evolves view clock (effect (INCR k)) s s1" "\<not> in_int64 (n + 1)"
      using counts cnt that by (simp add: reads_count_def evolves_def)
    show ?thesis
      using incr_no_answer [OF incr [unfolded Inl]] Inl same overflow
        incr_reads_count [OF counts _ P1] by blast
  next
    case (Inr c)
    from redis_int_InrD [OF incr [unfolded Inr]]
    have ev: "evolves view clock (effect (INCR k)) s s1"
      and ans: "reply (INCR k) (clock s1) (view s) = Inr (RepInt c)" by auto
    from ans cnt have c: "c = n + 1" "in_int64 (n + 1)" by (auto split: if_splits)
    with incr_reads_count [OF counts ev P1] Inr show ?thesis by auto
  qed
qed

lemma incr_window_cases:
  assumes "incr_window R k d s = (r, s')"
  obtains s1 where "redis_int R (INCR k) s = (r, s1)" and "s' = s1" and "r \<noteq> Inr 1"
    | s1 x where "redis_int R (INCR k) s = (r, s1)" and "do_cmd R (EXPIRE k d) s1 = (x, s')"
      and "r = Inr 1"
proof (cases "redis_int R (INCR k) s")
  case (Pair q s1)
  show ?thesis
    using assms Pair that
    by (cases q; cases "do_cmd R (EXPIRE k d) s1")
      (auto simp: incr_window_def and_then_def ok_def ignore_def split: if_splits)
qed

lemma incr_window_counts:
  assumes counts: "reads_count view clock k n P s" and run: "incr_window R k d s = (r, s')"
    and inside: "\<And>t. clock s \<le> t \<Longrightarrow> t \<le> clock s' \<Longrightarrow> P t"
    and window: "n = 0 \<Longrightarrow> (\<And>t. P t \<Longrightarrow> t < clock s + d)"
  shows "\<exists>m. reads_count view clock k m P s' \<and> (m = n \<or> m = n + 1) \<and>
    (\<forall>c. r = Inr c \<longrightarrow> c = n + 1 \<and> m = n + 1)"
  using run
proof (cases rule: incr_window_cases)
  case (1 s1)
  have "clock s \<le> clock s1"
    using redis_int_only_keys [OF 1(1), of "{k}"] by (simp add: only_keys_def)
  with 1 inside incr_counts [OF counts 1(1)] show ?thesis by simp
next
  case (2 s1 x)
  have mono: "clock s \<le> clock s1" "clock s1 \<le> clock s'"
    using redis_int_only_keys [OF 2(1), of "{k}"] do_clock [OF 2(2)] by (simp_all add: only_keys_def)
  with inside incr_counts [OF counts 2(1)] 2(3)
  have n: "n = 0" and one: "reads_count view clock k 1 P s1" by auto
  have "reads_count view clock k 1 P s'"
  proof (rule expire_reads_count [OF one 2(2)])
    show "t < clock s1 + d" if "P t" for t using window [OF n that] mono by simp
    show "P (clock s')" using inside mono by simp
  qed
  with n 2(3) show ?thesis by auto
qed

end

locale window_limited = redis_server R view clock
  for R :: "'s redis" and view :: "'s \<Rightarrow> rview" and clock :: "'s \<Rightarrow> int" +
  fixes key :: string and window :: duration and cap :: int
    and attempt :: "'x \<Rightarrow> ('s, 'e, 'a) action"
  assumes attempt_counts: "attempt x s = (r, s') \<Longrightarrow>
    \<exists>q s1. incr_window R key window s = (q, s1) \<and> only_keys view clock (- {key}) s1 s' \<and>
      (\<forall>a. r = Inr a \<longrightarrow> (\<exists>n. q = Inr n \<and> n \<le> cap))"
begin

lemma attempt_clock: "attempt x s = (r, s') \<Longrightarrow> clock s \<le> clock s'"
  using attempt_counts [of x s r s'] incr_window_only_keys [of key window s]
  by (fastforce simp: only_keys_def)

lemma attempts_clock: "run_all (map attempt xs) s = (rs, s') \<Longrightarrow> clock s \<le> clock s'"
proof (induction xs arbitrary: s rs)
  case (Cons x xs)
  then show ?case
    by (auto elim!: run_all_ConsE simp del: run_all.simps(2) dest!: attempt_clock)
      (meson order_trans)
qed simp

lemma attempt_step:
  assumes "reads_count view clock key n P s" and "attempt x s = (r, s')"
    and "\<And>t. clock s \<le> t \<Longrightarrow> t \<le> clock s' \<Longrightarrow> P t"
    and "n = 0 \<Longrightarrow> (\<And>t. P t \<Longrightarrow> t < clock s + window)"
  shows "\<exists>m. reads_count view clock key m P s' \<and> (m = n \<or> m = n + 1) \<and>
    (\<forall>a. r = Inr a \<longrightarrow> m = n + 1 \<and> m \<le> cap)"
proof -
  from attempt_counts [OF assms(2)] obtain q s1 where
    incr: "incr_window R key window s = (q, s1)" and
    rest: "only_keys view clock (- {key}) s1 s'" and
    allowed: "\<forall>a. r = Inr a \<longrightarrow> (\<exists>c. q = Inr c \<and> c \<le> cap)" by (elim exE conjE) rule
  have "\<exists>m. reads_count view clock key m P s1 \<and> (m = n \<or> m = n + 1) \<and>
      (\<forall>c. q = Inr c \<longrightarrow> c = n + 1 \<and> m = n + 1)"
  proof (rule incr_window_counts [OF assms(1) incr _ assms(4)])
    show "P t" if "clock s \<le> t" "t \<le> clock s1" for t
      using assms(3) that rest by (auto simp: only_keys_def)
  qed
  with allowed reads_count_only_keys [OF _ rest] show ?thesis by fastforce
qed

lemma attempts_bounded:
  assumes "run_all (map attempt xs) s = (rs, s')" and "reads_count view clock key n P s"
    and "\<And>t. clock s \<le> t \<Longrightarrow> t \<le> clock s' \<Longrightarrow> P t"
    and "\<And>t. n = 0 \<Longrightarrow> P t \<Longrightarrow> t < clock s + window"
  shows "int (length (filter (\<lambda>r. \<not> isl r) rs)) + n \<le> max cap n"
  using assms
proof (induction xs arbitrary: s rs n)
  case Nil
  then show ?case by simp
next
  case (Cons x xs)
  from Cons.prems(1) obtain r s1 rs1 where one: "attempt x s = (r, s1)"
    and rest: "run_all (map attempt xs) s1 = (rs1, s')" and rs: "rs = r # rs1"
    by (auto elim!: run_all_ConsE simp del: run_all.simps(2))
  have le: "clock s \<le> clock s1" "clock s1 \<le> clock s'"
    using attempt_clock [OF one] attempts_clock [OF rest] by auto
  obtain m where m: "reads_count view clock key m P s1" "m = n \<or> m = n + 1"
      "\<forall>a. r = Inr a \<longrightarrow> m = n + 1 \<and> m \<le> cap"
    using attempt_step [OF Cons.prems(2) one] Cons.prems(3,4) le by fastforce
  have n0: "0 \<le> n" using Cons.prems(2) by (simp add: reads_count_def)
  have "int (length (filter (\<lambda>r. \<not> isl r) rs1)) + m \<le> max cap m"
  proof (rule Cons.IH [OF rest m(1)])
    show "P t" if "clock s1 \<le> t" "t \<le> clock s'" for t
      using Cons.prems(3) that le by auto
    show "t < clock s1 + window" if "m = 0" "P t" for t
      using Cons.prems(4) [of t] that m(2) le n0 by auto
  qed
  then show ?case using rs m(2,3) by (cases r) auto
qed

lemma attempts_in_window:
  assumes "run_all (map attempt xs) s = (rs, s')"
    and "\<forall>t \<ge> clock s. view s t key = None" and "clock s' < clock s + window" and "0 \<le> cap"
  shows "int (length (filter (\<lambda>r. \<not> isl r) rs)) \<le> cap"
  using attempts_bounded [OF assms(1), of 0 "\<lambda>t. t < clock s + window"] assms(2-4)
  by (simp add: reads_count_def)

text \<open>A counter without a deadline is never reset: the operation is locked once the cap is used up.\<close>

lemma attempts_locked:
  assumes "run_all (map attempt xs) s = (rs, s')"
    and "\<forall>t \<ge> clock s. view s t key = Some (RStr (FormatInt n))" and "0 < n" and "in_int64 n"
  shows "int (length (filter (\<lambda>r. \<not> isl r) rs)) \<le> max 0 (cap - n)"
  using attempts_bounded [OF assms(1), of n "\<lambda>_. True"] assms(2-4)
  by (simp add: reads_count_def)

end

end
