(* ===== verification/Otp.thy ===== *)
theory Otp
  imports Rate_Window
begin

text \<open>
  The OTP store (\<^verbatim>\<open>services/identity/internal/otp/store.go\<close>): a per-phone request counter and a
  hash with the current code and the failed attempts, both in Redis. The random number of
  \<^verbatim>\<open>rand.Int\<close> is an argument (\<open>Inl\<close> when the source of randomness fails).
\<close>

datatype otp_err = ErrInvalidCode | OtpTooManyAttempts | ErrRateLimited | OtpRedis rerr | OtpRand string

definition otp_msg :: "otp_err \<Rightarrow> string" where
  "otp_msg e = (case e of
      ErrInvalidCode \<Rightarrow> ''invalid or expired OTP code''
    | OtpTooManyAttempts \<Rightarrow> ''too many failed OTP attempts''
    | ErrRateLimited \<Rightarrow> ''too many OTP requests for this number''
    | _ \<Rightarrow> [])"

definition CodeTTL :: duration where "CodeTTL = 3 * Minute"
definition OtpMaxAttempts :: int where "OtpMaxAttempts = 5"
definition RateLimitWindow :: duration where "RateLimitWindow = Hour"
definition RateLimitMax :: int where "RateLimitMax = 5"

definition codeKey :: "string \<Rightarrow> string" where "codeKey phone = ''otp:code:'' @ phone"
definition rlKey :: "string \<Rightarrow> string" where "rlKey phone = ''otp:rl:'' @ phone"

definition otp_code :: "int \<Rightarrow> string" where
  "otp_code n = pad_left 6 (FormatInt n)"

definition otp_Request :: "'s redis \<Rightarrow> string + int \<Rightarrow> string \<Rightarrow> ('s, otp_err, string) action" where
  "otp_Request R draw phone =
     and_then (map_err OtpRedis (incr_window R (rlKey phone) RateLimitWindow)) (\<lambda>count.
     if count > RateLimitMax then fail ErrRateLimited
     else case draw of
       Inl e \<Rightarrow> fail (OtpRand e)
     | Inr n \<Rightarrow>
         and_then (map_err OtpRedis (exec_tx R
           [HSET (codeKey phone) [(''code'', otp_code n), (''attempts'', ''0'')],
            EXPIRE (codeKey phone) CodeTTL])) (\<lambda>_.
         ok (otp_code n)))"

text \<open>Reading a Go map at a missing key gives the empty string.\<close>

definition hfield :: "(string \<times> string) list \<Rightarrow> string \<Rightarrow> string" where
  "hfield vals f = (case map_of vals f of None \<Rightarrow> [] | Some v \<Rightarrow> v)"

text \<open>The part of \<^verbatim>\<open>Verify\<close> that follows the read of the hash, and \<^verbatim>\<open>Verify\<close> itself.\<close>

definition otp_compare ::
  "'s redis \<Rightarrow> string \<Rightarrow> string \<Rightarrow> (string \<times> string) list \<Rightarrow> ('s, otp_err, unit) action" where
  "otp_compare R phone code vals =
     (if vals = [] then fail ErrInvalidCode
      else if hfield vals ''code'' \<noteq> code then
        and_then (map_err OtpRedis (redis_int R (HINCRBY (codeKey phone) ''attempts'' 1))) (\<lambda>attempts.
        if attempts \<ge> OtpMaxAttempts
        then and_then (ignore (do_cmd R (DEL [codeKey phone]))) (\<lambda>_. fail OtpTooManyAttempts)
        else fail ErrInvalidCode)
      else and_then (map_err OtpRedis (redis_int R (DEL [codeKey phone]))) (\<lambda>_. ok ()))"

definition otp_Verify :: "'s redis \<Rightarrow> string \<Rightarrow> string \<Rightarrow> ('s, otp_err, unit) action" where
  "otp_Verify R phone code =
     and_then (map_err OtpRedis (redis_hgetall R (codeKey phone))) (otp_compare R phone code)"

section \<open>Keys and codes\<close>

lemma otp_keys [simp, key_simps]:
  "codeKey p = codeKey q \<longleftrightarrow> p = q" "rlKey p = rlKey q \<longleftrightarrow> p = q" "codeKey p \<noteq> rlKey q" "rlKey q \<noteq> codeKey p"
  by (simp_all add: codeKey_def rlKey_def)

lemma otp_code_length: "0 \<le> n \<Longrightarrow> n < 1000000 \<Longrightarrow> length (otp_code n) = 6"
proof -
  assume "0 \<le> n" and "n < 1000000"
  then have "length (fmt_nat (nat n)) \<le> Suc 5" by (intro length_fmt_nat_le) simp
  with \<open>0 \<le> n\<close> show ?thesis by (simp add: otp_code_def FormatInt_def length_pad_left)
qed

lemma otp_code_nonempty: "otp_code n \<noteq> []"
  by (simp add: otp_code_def pad_left_def)

section \<open>The stored code\<close>

text \<open>What the code key can still show: the code \<open>c\<close> and \<open>a\<close> failed attempts, or a hash with no code.\<close>

abbreviation holds_code ::
  "('s \<Rightarrow> rview) \<Rightarrow> ('s \<Rightarrow> int) \<Rightarrow> string \<Rightarrow> string \<Rightarrow> int \<Rightarrow> 's \<Rightarrow> bool" where
  "holds_code view clock phone c a \<equiv> shows_only view clock (codeKey phone)
     (\<lambda>x. \<exists>h. x = RHash h \<and> map_of h ''code'' = Some c \<and> field_int h ''attempts'' = Inr a)"

abbreviation holds_no_code :: "('s \<Rightarrow> rview) \<Rightarrow> ('s \<Rightarrow> int) \<Rightarrow> string \<Rightarrow> 's \<Rightarrow> bool" where
  "holds_no_code view clock phone \<equiv> shows_only view clock (codeKey phone)
     (\<lambda>x. \<exists>h. x = RHash h \<and> map_of h ''code'' = None)"

lemma field_int_update: "field_int (AList.update f (FormatInt n) h) f = (if in_int64 n then Inr n else field_int (AList.update f (FormatInt n) h) f)"
  by (simp add: field_int_def update_conv' ParseInt_FormatInt in_int64_def)

lemma fresh_hash:
  "map_of (set_fields [(''code'', c), (''attempts'', ''0'')] h) ''code'' = Some c"
  "field_int (set_fields [(''code'', c), (''attempts'', ''0'')] h) ''attempts'' = Inr 0"
proof -
  have zero: "''0'' = FormatInt 0"
    by (simp add: FormatInt_0)
  show "map_of (set_fields [(''code'', c), (''attempts'', ''0'')] h) ''code'' = Some c"
    by (simp add: set_fields_def update_conv')
  show "field_int (set_fields [(''code'', c), (''attempts'', ''0'')] h) ''attempts'' = Inr 0"
    unfolding zero by (simp add: set_fields_def field_int_update)
qed

lemma set_fields_nonempty: "fvs \<noteq> [] \<Longrightarrow> set_fields fvs h \<noteq> []"
proof -
  have "set_fields gs k \<noteq> []" if "k \<noteq> []" for gs k
    using that
  proof (induction gs arbitrary: k)
    case (Cons g gs)
    have "AList.update (fst g) (snd g) k \<noteq> []" by (cases k) auto
    with Cons.IH show ?case by (simp add: set_fields_def)
  qed (simp add: set_fields_def)
  moreover assume "fvs \<noteq> []"
  then obtain g gs where "fvs = g # gs" by (cases fvs) auto
  moreover have "AList.update (fst g) (snd g) h \<noteq> []" by (cases h) auto
  ultimately show ?thesis by (simp add: set_fields_def)
qed

context redis_server
begin

lemma otp_compare_frame [frame_intros]:
  "codeKey phone \<in> K \<Longrightarrow> frame view clock K (otp_compare R phone code vals)"
  unfolding otp_compare_def by (intro frame_intros) simp_all

lemma otp_Verify_frame [frame_intros]:
  "codeKey phone \<in> K \<Longrightarrow> frame view clock K (otp_Verify R phone code)"
  unfolding otp_Verify_def by (intro frame_intros)

lemma otp_Request_frame [frame_intros]:
  "{rlKey phone, codeKey phone} \<subseteq> K \<Longrightarrow> frame view clock K (otp_Request R draw phone)"
  unfolding otp_Request_def by (intro frame_intros) simp_all

lemma compare_hit:
  assumes "otp_compare R phone code h s1 = (Inr (), s')"
  shows "h \<noteq> [] \<and> hfield h ''code'' = code \<and> (\<exists>n. redis_int R (DEL [codeKey phone]) s1 = (Inr n, s'))"
proof -
  from assms have h: "h \<noteq> []" "hfield h ''code'' = code"
    by (auto simp: otp_compare_def fail_def elim!: and_then_InrE split: if_splits)
  with assms show ?thesis
    by (auto simp: otp_compare_def ok_def elim!: and_then_InrE map_err_InrE)
qed

lemma verify_hit:
  assumes "otp_Verify R phone code s = (Inr (), s')"
  shows "\<exists>t h. clock s \<le> t \<and> t \<le> clock s' \<and> view s t (codeKey phone) = Some (RHash h) \<and>
      hfield h ''code'' = code"
    and "\<forall>t \<ge> clock s'. view s' t (codeKey phone) = None"
proof -
  from assms obtain h s1 where get: "redis_hgetall R (codeKey phone) s = (Inr h, s1)"
    and rest: "otp_compare R phone code h s1 = (Inr (), s')"
    unfolding otp_Verify_def by (blast elim: and_then_InrE map_err_InrE)
  from compare_hit [OF rest] obtain n where h: "h \<noteq> []" "hfield h ''code'' = code"
    and del: "redis_int R (DEL [codeKey phone]) s1 = (Inr n, s')" by blast
  have c: "clock s \<le> clock s1" "clock s1 \<le> clock s'"
    using redis_hgetall_InrD(1) [OF get] redis_int_InrD(1) [OF del] by (auto simp: evolves_def)
  have "view s (clock s1) (codeKey phone) = Some (RHash h)"
    using hash_of_InrD [OF redis_hgetall_InrD(2) [OF get]] h(1) by auto
  with c h show "\<exists>t h. clock s \<le> t \<and> t \<le> clock s' \<and> view s t (codeKey phone) = Some (RHash h) \<and>
      hfield h ''code'' = code" by blast
  from redis_int_InrD(1) [OF del] show "\<forall>t \<ge> clock s'. view s' t (codeKey phone) = None"
    by (simp add: evolves_def)
qed

lemma verify_absent:
  assumes "otp_Verify R phone code s = (r, s')" and "\<forall>t \<ge> clock s. view s t (codeKey phone) = None"
  shows "r = Inl ErrInvalidCode \<or> (\<exists>e. r = Inl (OtpRedis e))"
proof (cases "redis_hgetall R (codeKey phone) s")
  case (Pair q s1)
  show ?thesis
  proof (cases q)
    case (Inl e)
    with Pair assms(1) show ?thesis by (auto simp: otp_Verify_def and_then_def map_err_def)
  next
    case (Inr h)
    with Pair have get: "redis_hgetall R (codeKey phone) s = (Inr h, s1)" by simp
    from redis_hgetall_InrD [OF get] assms(2) have "h = []"
      by (auto simp: evolves_def)
    with get assms(1) show ?thesis
      by (auto simp: otp_Verify_def otp_compare_def and_then_def map_err_def fail_def)
  qed
qed

lemma request_InrE:
  assumes "otp_Request R draw phone s = (Inr code, s')"
  obtains n count s1 u where "draw = Inr n" and "code = otp_code n" and "count \<le> RateLimitMax"
    and "incr_window R (rlKey phone) RateLimitWindow s = (Inr count, s1)"
    and "exec_tx R [HSET (codeKey phone) [(''code'', code), (''attempts'', ''0'')],
            EXPIRE (codeKey phone) CodeTTL] s1 = (Inr u, s')"
proof -
  from assms obtain count s1 where
    incr: "incr_window R (rlKey phone) RateLimitWindow s = (Inr count, s1)" and
    rest: "(if count > RateLimitMax then fail ErrRateLimited
     else case draw of
       Inl e \<Rightarrow> fail (OtpRand e)
     | Inr n \<Rightarrow>
         and_then (map_err OtpRedis (exec_tx R
           [HSET (codeKey phone) [(''code'', otp_code n), (''attempts'', ''0'')],
            EXPIRE (codeKey phone) CodeTTL])) (\<lambda>_.
         ok (otp_code n))) s1 = (Inr code, s')"
    unfolding otp_Request_def by (blast elim: and_then_InrE map_err_InrE)
  from rest have le: "count \<le> RateLimitMax" by (auto simp: fail_def split: if_splits)
  with rest obtain n where "draw = Inr n" by (auto simp: fail_def split: sum.splits)
  with rest le have "\<exists>u. code = otp_code n \<and>
      exec_tx R [HSET (codeKey phone) [(''code'', code), (''attempts'', ''0'')],
            EXPIRE (codeKey phone) CodeTTL] s1 = (Inr u, s')"
    by (auto simp: ok_def elim!: and_then_InrE map_err_InrE)
  with that \<open>draw = Inr n\<close> le incr show ?thesis by blast
qed

lemma request_stores:
  assumes "otp_Request R draw phone s = (Inr code, s')"
  shows "\<exists>h. map_of h ''code'' = Some code \<and> field_int h ''attempts'' = Inr 0 \<and>
    (\<forall>t \<ge> clock s'. view s' t (codeKey phone) = until (clock s' + CodeTTL) (RHash h) t)"
  using assms
proof (rule request_InrE)
  fix n count s1 u
  let ?fvs = "[(''code'', code), (''attempts'', ''0'')]"
  assume "exec_tx R [HSET (codeKey phone) ?fvs, EXPIRE (codeKey phone) CodeTTL] s1 = (Inr u, s')"
  from tx_ok [OF this] obtain h where
    "hash_of (view s1 (clock s') (codeKey phone)) = Inr h" and
    "evolves view clock (effects [HSET (codeKey phone) ?fvs, EXPIRE (codeKey phone) CodeTTL]) s1 s'"
    by (auto split: sum.splits)
  then have "\<forall>t \<ge> clock s'. view s' t (codeKey phone) =
      until (clock s' + CodeTTL) (RHash (set_fields ?fvs h)) t"
    by (simp add: evolves_def)
  then show ?thesis using fresh_hash by blast
qed

end

sublocale redis_server \<subseteq> otp_rate: window_limited R view clock "rlKey phone" RateLimitWindow
    RateLimitMax "\<lambda>draw. otp_Request R draw phone" for phone
proof
  fix draw s r s'
  assume run: "otp_Request R draw phone s = (r, s')"
  obtain q s1 where incr: "incr_window R (rlKey phone) RateLimitWindow s = (q, s1)" by fastforce
  let ?rest = "\<lambda>count. if count > RateLimitMax then fail ErrRateLimited
     else case draw of
       Inl e \<Rightarrow> fail (OtpRand e)
     | Inr n \<Rightarrow>
         and_then (map_err OtpRedis (exec_tx R
           [HSET (codeKey phone) [(''code'', otp_code n), (''attempts'', ''0'')],
            EXPIRE (codeKey phone) CodeTTL])) (\<lambda>_.
         ok (otp_code n))"
  have rest: "frame view clock (- {rlKey phone}) (?rest count)" for count
    by (intro frame_intros) simp_all
  have "only_keys view clock (- {rlKey phone}) s1 s' \<and> (\<forall>a. r = Inr a \<longrightarrow> (\<exists>n. q = Inr n \<and> n \<le> RateLimitMax))"
  proof (cases q)
    case (Inl e)
    with run incr show ?thesis by (auto simp: otp_Request_def and_then_def map_err_def)
  next
    case (Inr count)
    with run incr have "?rest count s1 = (r, s')"
      by (simp add: otp_Request_def and_then_def map_err_def)
    with frameD [OF rest this] Inr show ?thesis by (auto simp: fail_def split: if_splits)
  qed
  with incr show "\<exists>q s1. incr_window R (rlKey phone) RateLimitWindow s = (q, s1) \<and>
      only_keys view clock (- {rlKey phone}) s1 s' \<and>
      (\<forall>a. r = Inr a \<longrightarrow> (\<exists>n. q = Inr n \<and> n \<le> RateLimitMax))" by simp
qed

section \<open>Guessing\<close>

context redis_reliable
begin

lemma verify_eq:
  assumes get: "redis_hgetall R (codeKey phone) s = (q, s1)"
  shows "otp_Verify R phone g s = (case q of
      Inl e \<Rightarrow> (Inl (OtpRedis e), s1)
    | Inr h \<Rightarrow> if h = [] then (Inl ErrInvalidCode, s1)
        else if hfield h ''code'' \<noteq> g then
          (case redis_int R (HINCRBY (codeKey phone) ''attempts'' 1) s1 of
             (Inl e, s2) \<Rightarrow> (Inl (OtpRedis e), s2)
           | (Inr a, s2) \<Rightarrow> if a \<ge> OtpMaxAttempts
               then (Inl OtpTooManyAttempts, snd (do_cmd R (DEL [codeKey phone]) s2))
               else (Inl ErrInvalidCode, s2))
        else (Inr (), snd (redis_int R (DEL [codeKey phone]) s1)))"
proof -
  have del: "\<exists>n. fst (redis_int R (DEL ks) u) = Inr n" for ks u
    using redis_int_result(2) [of "DEL ks" u] by (metis prod.collapse reply.simps(3))
  show ?thesis
    using get del [of "[codeKey phone]" s1]
    by (auto simp: otp_Verify_def otp_compare_def and_then_def map_err_def fail_def ok_def ignore_def
        split: sum.splits prod.splits)
qed

lemma del_absent: "\<forall>t \<ge> clock (snd (do_cmd R (DEL [k]) u)). view (snd (do_cmd R (DEL [k]) u)) t k = None"
  using do_result(2) [of "DEL [k]" u] by (auto simp: evolves_def prod_eq_iff)

lemma redis_del_absent:
  "\<forall>t \<ge> clock (snd (redis_int R (DEL [k]) u)). view (snd (redis_int R (DEL [k]) u)) t k = None"
  using redis_int_result(1) [of "DEL [k]" u] by (auto simp: evolves_def prod_eq_iff)

lemma verify_no_code:
  assumes run: "otp_Verify R phone g s = (r, s')" and g: "g \<noteq> []"
    and none: "holds_no_code view clock phone s"
  shows "r \<noteq> Inr () \<and> holds_no_code view clock phone s'"
proof -
  let ?k = "codeKey phone"
  obtain q s1 where get: "redis_hgetall R ?k s = (q, s1)" by fastforce
  note get_ev = redis_hgetall_result(1) [OF get]
  have s1: "holds_no_code view clock phone s1" by (rule shows_only_same [OF none get_ev])
  have miss: "hfield h ''code'' \<noteq> g" if "q = Inr h" for h
    using shows_onlyD [OF none evolves_clock [OF get_ev]] redis_hgetall_result(2) [OF get] that g
    by (auto simp: hfield_def dest!: hash_of_InrD [OF sym])
  obtain p s2 where inc: "redis_int R (HINCRBY ?k ''attempts'' 1) s1 = (p, s2)" by fastforce
  note inc_ev = redis_int_result(1) [OF inc]
  have s2: "holds_no_code view clock phone s2"
  proof (rule shows_only_evolves [OF s1 inc_ev])
    fix t x
    assume "effect (HINCRBY ?k ''attempts'' 1) (clock s2) (view s1) t ?k = Some x"
    with shows_onlyD [OF s1 evolves_clock [OF inc_ev]]
    show "view s1 t ?k = Some x \<or> (\<exists>h. x = RHash h \<and> map_of h ''code'' = None)"
      by (auto simp: vput_same update_conv' split: sum.splits if_splits dest!: hash_of_InrD)
  qed
  have s3: "holds_no_code view clock phone (snd (do_cmd R (DEL [?k]) s2))"
    by (rule shows_only_absent) (rule del_absent)
  show ?thesis
    using run verify_eq [OF get, of g] miss inc s1 s2 s3
    by (auto split: sum.splits if_splits)
qed

text \<open>One failed comparison: the attempt is counted, unless the code expired in between.\<close>

lemma count_attempt:
  assumes s1: "holds_code view clock phone c a s1" and a: "0 \<le> a" "a < OtpMaxAttempts"
    and inc: "redis_int R (HINCRBY (codeKey phone) ''attempts'' 1) s1 = (p, s2)"
  shows "holds_no_code view clock phone s2 \<and> p = Inr 1 \<or>
    holds_code view clock phone c (a + 1) s2 \<and> p = Inr (a + 1)"
proof -
  let ?k = "codeKey phone"
  note ev = redis_int_result(1) [OF inc]
  show ?thesis
  proof (cases "view s1 (clock s2) ?k")
    case None
    then have "holds_no_code view clock phone s2" and "p = Inr 1"
      using ev redis_int_result(2) [OF inc]
      by (auto simp: shows_only_def evolves_def field_int_def in_int64_def min_int64_def
          max_int64_def vput_same)
    then show ?thesis by simp
  next
    case (Some y)
    from shows_onlyD [OF s1 evolves_clock [OF ev] Some] obtain h where y: "y = RHash h"
      and h: "map_of h ''code'' = Some c" "field_int h ''attempts'' = Inr a" by blast
    have big: "in_int64 (a + 1)"
      using a by (simp add: in_int64_def min_int64_def max_int64_def OtpMaxAttempts_def)
    with Some y h have "p = Inr (a + 1)" using redis_int_result(2) [OF inc] by simp
    moreover have "holds_code view clock phone c (a + 1) s2"
      using ev Some y h big
      by (auto simp: shows_only_def evolves_def vput_same update_conv' field_int_def
          ParseInt_FormatInt in_int64_def split: if_splits)
    ultimately show ?thesis by simp
  qed
qed

lemma verify_with_code:
  assumes run: "otp_Verify R phone g s = (r, s')"
    and code: "holds_code view clock phone c a s" and a: "0 \<le> a" "a < OtpMaxAttempts"
  shows "(r = Inr () \<longrightarrow> g = c) \<and>
    (holds_no_code view clock phone s' \<or>
     r \<noteq> Inr () \<and> holds_code view clock phone c (a + 1) s' \<and> a + 1 < OtpMaxAttempts)"
proof -
  let ?k = "codeKey phone"
  obtain q s1 where get: "redis_hgetall R ?k s = (q, s1)" by fastforce
  note ev = redis_hgetall_result(1) [OF get]
  show ?thesis
  proof (cases "view s (clock s1) ?k")
    case None
    with ev have "\<forall>t \<ge> clock s1. view s1 t ?k = None"
      by (auto simp: evolves_def intro: gone_stays_gone)
    then have "holds_no_code view clock phone s1" by (rule shows_only_absent)
    moreover from None have "q = Inr []" using redis_hgetall_result(2) [OF get] by simp
    ultimately show ?thesis using run verify_eq [OF get, of g] by auto
  next
    case (Some x)
    from shows_onlyD [OF code evolves_clock [OF ev] Some] obtain h where x: "x = RHash h"
      and h: "map_of h ''code'' = Some c" by blast
    with Some have q: "q = Inr h" "h \<noteq> []" "hfield h ''code'' = c"
      using redis_hgetall_result(2) [OF get] by (auto simp: hfield_def)
    obtain p s2 where inc: "redis_int R (HINCRBY ?k ''attempts'' 1) s1 = (p, s2)" by fastforce
    note step = count_attempt [OF shows_only_same [OF code ev] a inc]
    have gone: "holds_no_code view clock phone (snd (do_cmd R (DEL [?k]) u))" for u
      by (rule shows_only_absent) (rule del_absent)
    have used: "holds_no_code view clock phone (snd (redis_int R (DEL [?k]) u))" for u
      by (rule shows_only_absent) (rule redis_del_absent)
    show ?thesis
      using run verify_eq [OF get, of g] q inc step gone [of s2] used [of s1]
      by (auto simp: OtpMaxAttempts_def split: if_splits)
  qed
qed

lemma guesses_bounded:
  assumes run: "run_all (map (otp_Verify R phone) gs) s = (rs, s')"
    and code: "holds_code view clock phone c 0 s" and gs: "[] \<notin> set gs"
    and i: "i < length gs" "rs ! i = Inr ()"
  shows "int i < OtpMaxAttempts \<and> gs ! i = c"
proof -
  let ?I = "\<lambda>d u. holds_no_code view clock phone u \<or>
    (\<exists>a. holds_code view clock phone c a u \<and> int d \<le> a \<and> a < OtpMaxAttempts)"
  let ?Q = "\<lambda>d g r. r = Inr () \<longrightarrow> int d < OtpMaxAttempts \<and> g = c"
  have start: "?I 0 s" using code by (auto simp: OtpMaxAttempts_def)
  have "?I (Suc d) u1 \<and> ?Q d g r"
    if "g \<in> set gs" "?I d u" "otp_Verify R phone g u = (r, u1)" for g d u r u1
    using that(2)
  proof
    assume none: "holds_no_code view clock phone u"
    have "g \<noteq> []" using gs that(1) by blast
    from verify_no_code [OF that(3) this none] show ?thesis by simp
  next
    assume "\<exists>a. holds_code view clock phone c a u \<and> int d \<le> a \<and> a < OtpMaxAttempts"
    then obtain a where a: "holds_code view clock phone c a u" "int d \<le> a" "a < OtpMaxAttempts" by blast
    then have "0 \<le> a" by simp
    note step = verify_with_code [OF that(3) a(1) this a(3)]
    show ?thesis
    proof (cases "holds_no_code view clock phone u1")
      case True
      with step a(2,3) show ?thesis by simp
    next
      case False
      with step have "holds_code view clock phone c (a + 1) u1" "a + 1 < OtpMaxAttempts" "r \<noteq> Inr ()"
        by simp_all
      with a(2) show ?thesis by (intro conjI disjI2 exI [of _ "a + 1"]) simp_all
    qed
  qed
  from run_all_invariant [of _ _ _ _ _ ?I 0 ?Q, OF run start this] i show ?thesis by auto
qed

text \<open>Many verifications that have all read the code before any of them goes on.\<close>

lemma parallel_reads:
  assumes "run_all (map (\<lambda>g. redis_hgetall R k) gs) u = (vs, u')"
    and "\<forall>t \<ge> clock u. view u t k = until d (RHash h) t"
  shows "clock u \<le> clock u' \<and> (clock u' < d \<longrightarrow> (\<forall>i < length gs. vs ! i = Inr h))"
  using assms
proof (induction gs arbitrary: u vs)
  case (Cons g gs)
  from Cons.prems(1) obtain r u1 vs1 where get: "redis_hgetall R k u = (r, u1)"
    and rest: "run_all (map (\<lambda>g. redis_hgetall R k) gs) u1 = (vs1, u')" and vs: "vs = r # vs1"
    by (auto elim!: run_all_ConsE simp del: run_all.simps(2))
  note ev = redis_hgetall_result(1) [OF get]
  have "\<forall>t \<ge> clock u1. view u1 t k = until d (RHash h) t" using Cons.prems(2) ev by (auto simp: evolves_def)
  note IH = Cons.IH [OF rest this]
  moreover have "r = Inr h" if "clock u' < d"
    using that IH Cons.prems(2) evolves_clock [OF ev] redis_hgetall_result(2) [OF get] by (simp add: until_eq)
  moreover have "vs ! i = Inr h" if "clock u' < d" "i < length (g # gs)" for i
    using that calculation by (cases i) (simp_all add: vs)
  ultimately show ?case using evolves_clock [OF ev] by auto
qed simp

lemma compare_right:
  assumes "h \<noteq> []" and "hfield h ''code'' = code" and "otp_compare R phone code h u = (r, u')"
  shows "r = Inr ()"
proof -
  obtain q u1 where del: "redis_int R (DEL [codeKey phone]) u = (q, u1)" by fastforce
  from redis_int_result(2) [OF this] have "\<exists>n. q = Inr n" by simp
  with del assms show ?thesis by (auto simp: otp_compare_def and_then_def map_err_def ok_def)
qed

lemma parallel_guesses:
  assumes req: "otp_Request R draw phone s = (Inr code, s1)"
    and reads: "run_all (map (\<lambda>g. redis_hgetall R (codeKey phone)) gs) s1 = (vs, s2)" and soon: "clock s2 < clock s1 + CodeTTL"
    and go: "run_all (map2 (\<lambda>g v. and_then (map_err OtpRedis (lift_res v)) (otp_compare R phone g)) gs vs) s2 = (rs, s3)"
    and i: "i < length gs" "gs ! i = code"
  shows "rs ! i = Inr ()"
proof -
  from request_stores [OF req] obtain h where h: "map_of h ''code'' = Some code"
    and stored: "\<forall>t \<ge> clock s1. view s1 t (codeKey phone) = until (clock s1 + CodeTTL) (RHash h) t" by blast
  have v: "vs ! i = Inr h" using parallel_reads [OF reads stored] soon i(1) by simp
  have len: "length vs = length gs" using run_all_length [OF reads] by simp
  then obtain u u' where "and_then (map_err OtpRedis (lift_res (Inr h))) (otp_compare R phone code) u = (rs ! i, u')"
    using run_all_nth [OF go, of i] i v by auto
  then have "otp_compare R phone code h u = (rs ! i, u')" by (simp add: and_then_def map_err_def lift_res_def)
  moreover have "h \<noteq> []" "hfield h ''code'' = code" using h by (auto simp: hfield_def)
  ultimately show ?thesis using compare_right by blast
qed

lemma request_then_verify:
  assumes req: "otp_Request R draw phone s = (Inr code, s1)"
    and other: "only_keys view clock (- {codeKey phone}) s1 s2"
    and ver: "otp_Verify R phone code s2 = (r, s3)"
    and soon: "clock s3 < clock s1 + CodeTTL"
  shows "r = Inr ()"
proof -
  let ?k = "codeKey phone"
  from request_stores [OF req] obtain h where h: "map_of h ''code'' = Some code"
    and stored: "\<forall>t \<ge> clock s1. view s1 t ?k = until (clock s1 + CodeTTL) (RHash h) t" by blast
  obtain q s4 where get: "redis_hgetall R ?k s2 = (q, s4)" by fastforce
  note ev = redis_hgetall_result(1) [OF get]
  have le: "clock s4 \<le> clock s3"
    using ver get frame_clock [OF otp_compare_frame [of phone UNIV code]]
    by (cases q) (auto simp: otp_Verify_def and_then_def map_err_def)
  have "view s2 (clock s4) ?k = Some (RHash h)"
    using stored other evolves_clock [OF ev] le soon by (auto simp: only_keys_def until_eq)
  then have "q = Inr h" using redis_hgetall_result(2) [OF get] by simp
  moreover have "h \<noteq> []" "hfield h ''code'' = code" using h by (auto simp: hfield_def)
  ultimately show ?thesis using ver verify_eq [OF get, of code] by simp
qed

end

section \<open>Properties\<close>

context redis_server
begin

lemma request_holds_code:
  assumes "otp_Request R draw phone s = (Inr c, s')"
  shows "holds_code view clock phone c 0 s'"
proof -
  from request_stores [OF assms] obtain h where h: "map_of h ''code'' = Some c"
      "field_int h ''attempts'' = Inr 0"
    and stored: "\<forall>t \<ge> clock s'. view s' t (codeKey phone) = until (clock s' + CodeTTL) (RHash h) t"
    by blast
  then have "x = RHash h" if "clock s' \<le> t" "view s' t (codeKey phone) = Some x" for t x
    using that by (simp add: until_eq split: if_splits)
  with h show ?thesis unfolding shows_only_def by blast
qed

lemma requests_in_window:
  assumes "run_all (map (\<lambda>draw. otp_Request R draw phone) draws) s = (rs, s')"
    and "\<forall>t \<ge> clock s. view s t (rlKey phone) = None"
    and "clock s' < clock s + RateLimitWindow"
  shows "int (length (filter (\<lambda>r. \<not> isl r) rs)) \<le> RateLimitMax"
  by (rule otp_rate.attempts_in_window [OF assms]) (simp add: RateLimitMax_def)

lemma requests_locked:
  assumes "run_all (map (\<lambda>draw. otp_Request R draw phone) draws) s = (rs, s')"
    and "\<forall>t \<ge> clock s. view s t (rlKey phone) = Some (RStr (FormatInt n))"
    and "0 < n" and "in_int64 n"
  shows "int (length (filter (\<lambda>r. \<not> isl r) rs)) \<le> max 0 (RateLimitMax - n)"
  by (rule otp_rate.attempts_locked [OF assms])

lemma expired_code:
  assumes req: "otp_Request R draw phone s = (Inr code, s1)"
    and other: "only_keys view clock (- {codeKey phone}) s1 s2"
    and late: "clock s1 + CodeTTL \<le> clock s2"
  shows "\<forall>t \<ge> clock s2. view s2 t (codeKey phone) = None"
  using request_stores [OF req] other late by (auto simp: only_keys_def until_eq)

end

text \<open>
  C3. After a code was issued for a phone, however many guesses are verified one after the other, each finished before the
  next one starts, on a server that answers and with no other code issued in between, a guess can succeed only
  among the first five and only if it is the issued code. None of the guesses is empty: the RPC handler refuses an empty code
  before it reaches the store. Guesses that overlap in time are not limited in this way, as is shown below.
\<close>

theorem otp_guess_bound:
  assumes "redis_reliable R view clock"
    and "otp_Request R draw phone s0 = (Inr c, s)"
    and "run_all (map (otp_Verify R phone) gs) s = (rs, s')"
    and "[] \<notin> set gs" and "i < length gs" and "rs ! i = Inr ()"
  shows "int i < OtpMaxAttempts \<and> gs ! i = c"
  by (rule redis_reliable.guesses_bounded [OF assms(1,3) _ assms(4-6)])
    (rule redis_server.request_holds_code [OF redis_reliable.axioms(1) [OF assms(1)] assms(2)])

definition empty_mem :: mem where
  "empty_mem = \<lparr>m_now = 0, m_store = (\<lambda>_. None)\<rparr>"

definition issued_mem :: mem where
  "issued_mem = snd (otp_Request mem_redis (Inr 42) ''7'' empty_mem)"

lemma otp_issued: "otp_Request mem_redis (Inr 42) ''7'' empty_mem = (Inr ''000042'', issued_mem)"
proof -
  have "fst (otp_Request mem_redis (Inr 42) ''7'' empty_mem) = Inr ''000042''" by code_simp
  then show ?thesis by (simp add: issued_mem_def prod_eq_iff)
qed

theorem otp_guess_bound_witness:
  "fst (run_all (map (otp_Verify mem_redis ''7'') [''1'', ''000042'']) issued_mem) ! 1 = Inr () \<and>
   int 1 < OtpMaxAttempts"
proof -
  let ?run = "run_all (map (otp_Verify mem_redis ''7'') [''1'', ''000042'']) issued_mem"
  have hit: "fst ?run ! 1 = Inr ()" by code_simp
  have "?run = (fst ?run, snd ?run)" by simp
  from otp_guess_bound [OF mem_reliable_contract otp_issued this, of 1] hit
  show ?thesis by simp
qed

text \<open>
  C19. A code accepted once is gone: every verification for the phone that starts after the accepting one has
  finished fails, with \<^verbatim>\<open>ErrInvalidCode\<close> or with a Redis error, as long as nothing touches the code of the phone in between, as
  issuing another one would. A verification that overlaps with the accepting one is not covered: it can be accepted too, as is shown below.
\<close>

theorem otp_single_use:
  assumes "redis_server R view clock"
    and "otp_Verify R phone code s = (Inr (), s1)"
    and "only_keys view clock (- {codeKey phone}) s1 s2"
    and "otp_Verify R phone guess s2 = (r, s3)"
  shows "r = Inl ErrInvalidCode \<or> (\<exists>e. r = Inl (OtpRedis e))"
proof -
  have "\<forall>t \<ge> clock s2. view s2 t (codeKey phone) = None"
    using redis_server.verify_hit(2) [OF assms(1,2)] assms(3) by (auto simp: only_keys_def)
  with redis_server.verify_absent [OF assms(1,4)] show ?thesis by blast
qed

theorem otp_single_use_witness:
  "fst (otp_Verify mem_redis ''7'' ''000042'' issued_mem) = Inr () \<and>
   isl (fst (otp_Verify mem_redis ''7'' ''000042''
      (snd (otp_Verify mem_redis ''7'' ''000042'' issued_mem))))"
proof -
  let ?one = "otp_Verify mem_redis ''7'' ''000042'' issued_mem"
  let ?two = "otp_Verify mem_redis ''7'' ''000042'' (snd ?one)"
  have hit: "fst ?one = Inr ()" by code_simp
  then have one: "?one = (Inr (), snd ?one)" by (simp add: prod_eq_iff)
  have two: "?two = (fst ?two, snd ?two)" by simp
  from otp_single_use [OF mem_contract one only_keys_refl two] hit show ?thesis by auto
qed

text \<open>
  A code that was issued is accepted while its three minutes last, whatever happens to other
  keys in between, on a server that answers.
\<close>

theorem otp_request_then_verify:
  assumes "redis_reliable R view clock"
    and "otp_Request R draw phone s = (Inr code, s1)"
    and "only_keys view clock (- {codeKey phone}) s1 s2"
    and "otp_Verify R phone code s2 = (r, s3)"
    and "clock s3 < clock s1 + CodeTTL"
  shows "r = Inr ()"
  by (rule redis_reliable.request_then_verify [OF assms])

theorem otp_request_then_verify_witness:
  "fst (otp_Verify mem_redis ''7'' ''000042'' issued_mem) = Inr ()"
proof (rule otp_request_then_verify [OF mem_reliable_contract otp_issued only_keys_refl prod.collapse [symmetric]])
  show "m_now (snd (otp_Verify mem_redis ''7'' ''000042'' issued_mem)) < m_now issued_mem + CodeTTL"
    by code_simp
qed

text \<open>
  After three minutes the code is dead: no guess succeeds, the right one included.
\<close>

theorem otp_code_expires:
  assumes "redis_server R view clock"
    and "otp_Request R draw phone s = (Inr code, s1)"
    and "only_keys view clock (- {codeKey phone}) s1 s2"
    and "clock s1 + CodeTTL \<le> clock s2"
    and "otp_Verify R phone guess s2 = (r, s3)"
  shows "r = Inl ErrInvalidCode \<or> (\<exists>e. r = Inl (OtpRedis e))"
  by (rule redis_server.verify_absent [OF assms(1,5)])
    (rule redis_server.expired_code [OF assms(1-4)])

theorem otp_code_expires_witness:
  "isl (fst (otp_Verify mem_redis ''7'' ''000042'' (issued_mem\<lparr>m_now := CodeTTL\<rparr>)))"
proof -
  let ?s = "issued_mem\<lparr>m_now := CodeTTL\<rparr>"
  let ?v = "otp_Verify mem_redis ''7'' ''000042'' ?s"
  have now: "m_now issued_mem = 0" by code_simp
  then have "only_keys mem_view m_now (- {codeKey ''7''}) issued_mem ?s"
    by (simp add: only_keys_def mem_view_def CodeTTL_def duration_defs)
  moreover have "m_now issued_mem + CodeTTL \<le> m_now ?s" by (simp add: now)
  moreover have "?v = (fst ?v, snd ?v)" by simp
  ultimately show ?thesis using otp_code_expires [OF mem_contract otp_issued] by fastforce
qed

text \<open>
  C20. The attempt limit does not hold for verifications that run at the same time: \<^verbatim>\<open>Verify\<close> reads the code, and only after a mismatch counts
  the attempt. If any number of verifications (one per guess of \<open>gs\<close>) have read the code before the first of them goes on, then every
  guess that is the code is accepted, at whatever position among however many wrong ones, and as often as it occurs. So neither
  the limit of five attempts nor single use is kept by concurrent requests.
\<close>

theorem otp_parallel_guesses:
  assumes "redis_reliable R view clock" and "otp_Request R draw phone s = (Inr code, s1)"
    and "run_all (map (\<lambda>g. redis_hgetall R (codeKey phone)) gs) s1 = (vs, s2)" and "clock s2 < clock s1 + CodeTTL"
    and "run_all (map2 (\<lambda>g v. and_then (map_err OtpRedis (lift_res v)) (otp_compare R phone g)) gs vs) s2 = (rs, s3)"
    and "i < length gs" and "gs ! i = code"
  shows "rs ! i = Inr ()"
  by (rule redis_reliable.parallel_guesses [OF assms])

theorem otp_parallel_guesses_witness:
  "let gs = replicate 20 ''111111'' @ [''000042'', ''000042''];
       p = run_all (map (\<lambda>g. redis_hgetall mem_redis (codeKey ''7'')) gs) issued_mem;
       q = run_all (map2 (\<lambda>g v. and_then (map_err OtpRedis (lift_res v)) (otp_compare mem_redis ''7'' g)) gs (fst p)) (snd p)
   in fst q ! 20 = Inr () \<and> fst q ! 21 = Inr ()"
proof -
  let ?gs = "replicate 20 ''111111'' @ [''000042'', ''000042'']"
  let ?p = "run_all (map (\<lambda>g. redis_hgetall mem_redis (codeKey ''7'')) ?gs) issued_mem"
  let ?q = "run_all (map2 (\<lambda>g v. and_then (map_err OtpRedis (lift_res v)) (otp_compare mem_redis ''7'' g)) ?gs (fst ?p)) (snd ?p)"
  have soon: "m_now (snd ?p) < m_now issued_mem + CodeTTL" by code_simp
  have "fst ?q ! i = Inr ()" if "i < length ?gs" "?gs ! i = ''000042''" for i
    by (rule otp_parallel_guesses [OF mem_reliable_contract otp_issued prod.collapse [symmetric] soon prod.collapse [symmetric] that])
  from this [of 20] this [of 21] show ?thesis by (simp add: nth_append)
qed

text \<open>
  C25. In one fixed window at most five codes are issued for a phone: of the requests for it, one after the other, that
  start when Redis holds no counter for the phone and end within an hour of that moment, at most \<^verbatim>\<open>RateLimitMax\<close> return a code, even
  when commands fail or their replies are lost. This is no bound for an arbitrary hour: one that straddles the end of a window
  can see the codes of both.
\<close>

theorem otp_rate_limit:
  assumes "redis_server R view clock"
    and "run_all (map (\<lambda>draw. otp_Request R draw phone) draws) s = (rs, s')"
    and "\<forall>t \<ge> clock s. view s t (rlKey phone) = None"
    and "clock s' < clock s + RateLimitWindow"
  shows "int (length (filter (\<lambda>r. \<not> isl r) rs)) \<le> RateLimitMax"
  by (rule redis_server.requests_in_window [OF assms])

theorem otp_rate_limit_witness:
  "length (filter (\<lambda>r. \<not> isl r)
     (fst (run_all (map (\<lambda>draw. otp_Request mem_redis draw ''7'') (replicate 7 (Inr 1))) empty_mem))) = 5"
proof -
  let ?run = "run_all (map (\<lambda>draw. otp_Request mem_redis draw ''7'') (replicate 7 (Inr 1))) empty_mem"
  have "?run = (fst ?run, snd ?run)" by simp
  moreover have "\<forall>t \<ge> m_now empty_mem. mem_view empty_mem t (rlKey ''7'') = None"
    by (simp add: empty_mem_def mem_view_def)
  moreover have "m_now (snd ?run) < m_now empty_mem + RateLimitWindow" by code_simp
  ultimately have "int (length (filter (\<lambda>r. \<not> isl r) (fst ?run))) \<le> RateLimitMax"
    by (rule otp_rate_limit [OF mem_contract])
  moreover have "length (filter (\<lambda>r. \<not> isl r) (fst ?run)) = 5" by code_simp
  ultimately show ?thesis by simp
qed

text \<open>
  C40. The error of EXPIRE is dropped, and a counter that never got its deadline is never reset:
  once such a counter stands at \<open>n\<close>, only \<open>RateLimitMax - n\<close> more codes are ever issued for the phone,
  however long one waits.
\<close>

theorem otp_lost_expiry_locks_phone:
  assumes "redis_server R view clock"
    and "\<forall>t \<ge> clock s. view s t (rlKey phone) = Some (RStr (FormatInt n))"
    and "0 < n" and "in_int64 n"
    and "run_all (map (\<lambda>draw. otp_Request R draw phone) draws) s = (rs, s')"
  shows "int (length (filter (\<lambda>r. \<not> isl r) rs)) \<le> max 0 (RateLimitMax - n)"
  by (rule redis_server.requests_locked [OF assms(1,5,2-4)])

definition locked_mem :: mem where
  "locked_mem = \<lparr>m_now = 1000 * Hour, m_store = [rlKey ''7'' \<mapsto> (RStr ''5'', None)]\<rparr>"

theorem otp_lost_expiry_locks_phone_witness:
  "filter (\<lambda>r. \<not> isl r)
     (fst (run_all (map (\<lambda>draw. otp_Request mem_redis draw ''7'') [Inr 1, Inr 2]) locked_mem)) = []"
proof -
  let ?run = "run_all (map (\<lambda>draw. otp_Request mem_redis draw ''7'') [Inr 1, Inr 2]) locked_mem"
  have five: "''5'' = FormatInt 5" by code_simp
  have five_now: "\<forall>t \<ge> m_now locked_mem. mem_view locked_mem t (rlKey ''7'') = Some (RStr (FormatInt 5))"
    by (simp add: locked_mem_def mem_view_def five)
  have range: "in_int64 5" by code_simp
  have run: "?run = (fst ?run, snd ?run)" by simp
  have "int (length (filter (\<lambda>r. \<not> isl r) (fst ?run))) \<le> max 0 (RateLimitMax - 5)"
    by (rule otp_lost_expiry_locks_phone [OF mem_contract five_now _ range run]) simp
  then show ?thesis by (simp add: RateLimitMax_def)
qed

end
