(* ===== verification/Devverify.thy ===== *)
theory Devverify
  imports Rate_Window
begin

text \<open>
  The attempt limiter of the unknown-device challenge
  (\<^verbatim>\<open>services/identity/internal/devverify/limiter.go\<close>).
\<close>

datatype dev_err = DevTooManyAttempts | DevRedis rerr

definition dev_msg :: "dev_err \<Rightarrow> string" where
  "dev_msg e = (case e of
      DevTooManyAttempts \<Rightarrow> ''too many device verification attempts'' | DevRedis _ \<Rightarrow> [])"

definition DevMaxAttempts :: int where "DevMaxAttempts = 3"
definition DevWindow :: duration where "DevWindow = 10 * Minute"

definition devKey :: "int \<Rightarrow> string" where
  "devKey userID = ''devverify:attempts:'' @ FormatInt userID"

definition dev_Attempt :: "'s redis \<Rightarrow> int \<Rightarrow> ('s, dev_err, unit) action" where
  "dev_Attempt R userID =
     and_then (map_err DevRedis (incr_window R (devKey userID) DevWindow)) (\<lambda>count.
     if count > DevMaxAttempts then fail DevTooManyAttempts else ok ())"

definition dev_Reset :: "'s redis \<Rightarrow> int \<Rightarrow> ('s, dev_err, unit) action" where
  "dev_Reset R userID =
     and_then (map_err DevRedis (redis_int R (DEL [devKey userID]))) (\<lambda>_. ok ())"

lemma devKey_inject [simp, key_simps]: "devKey a = devKey b \<longleftrightarrow> a = b"
  by (simp add: devKey_def)

context redis_server
begin

lemma dev_Attempt_frame [frame_intros]: "devKey u \<in> K \<Longrightarrow> frame view clock K (dev_Attempt R u)"
  unfolding dev_Attempt_def by (intro frame_intros) simp_all

lemma dev_Reset_frame [frame_intros]: "devKey u \<in> K \<Longrightarrow> frame view clock K (dev_Reset R u)"
  unfolding dev_Reset_def by (intro frame_intros) simp_all

lemma dev_Reset_clears:
  "dev_Reset R u s = (Inr (), s') \<Longrightarrow> \<forall>t \<ge> clock s'. view s' t (devKey u) = None"
  by (auto simp: dev_Reset_def ok_def evolves_def elim!: and_then_InrE map_err_InrE
      dest!: redis_int_InrD(1))

end

sublocale redis_server \<subseteq> dev_cap: window_limited R view clock "devKey u" DevWindow
    DevMaxAttempts "\<lambda>_. dev_Attempt R u" for u
proof
  fix x s r s'
  assume run: "dev_Attempt R u s = (r, s')"
  obtain q s1 where incr: "incr_window R (devKey u) DevWindow s = (q, s1)" by fastforce
  have "only_keys view clock (- {devKey u}) s1 s' \<and> (\<forall>a. r = Inr a \<longrightarrow> (\<exists>n. q = Inr n \<and> n \<le> DevMaxAttempts))"
    using run incr
    by (cases q) (auto simp: dev_Attempt_def and_then_def map_err_def fail_def ok_def split: if_splits)
  with incr show "\<exists>q s1. incr_window R (devKey u) DevWindow s = (q, s1) \<and>
      only_keys view clock (- {devKey u}) s1 s' \<and>
      (\<forall>a. r = Inr a \<longrightarrow> (\<exists>n. q = Inr n \<and> n \<le> DevMaxAttempts))" by simp
qed

context redis_server
begin

lemma dev_attempts_in_window:
  assumes "run_all (map (\<lambda>_. dev_Attempt R u) xs) s = (rs, s')"
    and "\<forall>t \<ge> clock s. view s t (devKey u) = None"
    and "clock s' < clock s + DevWindow"
  shows "int (length (filter (\<lambda>r. \<not> isl r) rs)) \<le> DevMaxAttempts"
  by (rule dev_cap.attempts_in_window [OF assms]) (simp add: DevMaxAttempts_def)

end

end
