(* ===== verification/Go_Json.thy ===== *)
theory Go_Json
  imports Prelude
begin

text \<open>
  The part of Go's \<^verbatim>\<open>encoding/json\<close> that the services use: compact encoding of a value, parsing of a
  document, and decoding into a struct's fields. A number is kept as its literal. Strings are byte
  strings; the encoder escapes what Go escapes (quotes, backslash, control bytes, the HTML characters
  and U+2028/U+2029). Strings are taken to be valid UTF-8, as protobuf guarantees for every request
  field: Go would replace an invalid byte by U+FFFD.
\<close>

datatype json =
    JNull
  | JBool bool
  | JNum string
  | JStr string
  | JArr "json list"
  | JObj "(string \<times> json) list"

section \<open>Printing\<close>

definition hexdigit :: "nat \<Rightarrow> char" where
  "hexdigit n = (if n < 10 then char_of (48 + n) else char_of (87 + n))"

definition u_escape :: "nat \<Rightarrow> string" where
  "u_escape n = [CHR 0x5C, CHR ''u'', hexdigit (n div 4096 mod 16), hexdigit (n div 256 mod 16),
     hexdigit (n div 16 mod 16), hexdigit (n mod 16)]"

definition esc_byte :: "char \<Rightarrow> string" where
  "esc_byte c =
     (let n = (of_char c :: nat) in
      if n = 34 \<or> n = 92 then [CHR 0x5C, c]
      else if n = 8 then [CHR 0x5C, CHR ''b'']
      else if n = 12 then [CHR 0x5C, CHR ''f'']
      else if n = 10 then [CHR 0x5C, CHR ''n'']
      else if n = 13 then [CHR 0x5C, CHR ''r'']
      else if n = 9 then [CHR 0x5C, CHR ''t'']
      else if n < 32 \<or> n = 60 \<or> n = 62 \<or> n = 38 then u_escape n
      else [c])"

fun esc :: "string \<Rightarrow> string" where
  "esc [] = []"
| "esc (c # cs) =
     (if take 2 cs = [CHR 0x80, CHR 0xA8] \<and> c = CHR 0xE2 then u_escape 8232 @ esc (drop 2 cs)
      else if take 2 cs = [CHR 0x80, CHR 0xA9] \<and> c = CHR 0xE2 then u_escape 8233 @ esc (drop 2 cs)
      else esc_byte c @ esc cs)"

definition print_str :: "string \<Rightarrow> string" where
  "print_str s = CHR 0x22 # esc s @ [CHR 0x22]"

fun join :: "string \<Rightarrow> string list \<Rightarrow> string" where
  "join sep [] = []"
| "join sep [x] = x"
| "join sep (x # y # xs) = x @ sep @ join sep (y # xs)"

fun print_json :: "json \<Rightarrow> string" where
  "print_json JNull = ''null''"
| "print_json (JBool b) = (if b then ''true'' else ''false'')"
| "print_json (JNum n) = n"
| "print_json (JStr s) = print_str s"
| "print_json (JArr vs) = ''['' @ join '','' (map print_json vs) @ '']''"
| "print_json (JObj ms) =
     ''{'' @ join '','' (map (\<lambda>(k, v). print_str k @ '':'' @ print_json v) ms) @ ''}''"

section \<open>Parsing\<close>

definition hexval :: "char \<Rightarrow> nat option" where
  "hexval c =
     (let n = (of_char c :: nat) in
      if 48 \<le> n \<and> n \<le> 57 then Some (n - 48)
      else if 97 \<le> n \<and> n \<le> 102 then Some (n - 87)
      else if 65 \<le> n \<and> n \<le> 70 then Some (n - 55)
      else None)"

definition hex4 :: "string \<Rightarrow> nat option" where
  "hex4 ds = (case map hexval ds of
      [Some a, Some b, Some c, Some d] \<Rightarrow> Some (4096 * a + 256 * b + 16 * c + d)
    | _ \<Rightarrow> None)"

definition utf8 :: "nat \<Rightarrow> string" where
  "utf8 n =
     (if n < 128 then [char_of n]
      else if n < 2048 then [char_of (192 + n div 64), char_of (128 + n mod 64)]
      else if n < 65536 then
        [char_of (224 + n div 4096), char_of (128 + n div 64 mod 64), char_of (128 + n mod 64)]
      else
        [char_of (240 + n div 262144), char_of (128 + n div 4096 mod 64),
         char_of (128 + n div 64 mod 64), char_of (128 + n mod 64)])"

definition simple_unescape :: "char \<Rightarrow> char option" where
  "simple_unescape c = map_of
     [(CHR 0x22, CHR 0x22), (CHR 0x5C, CHR 0x5C), (CHR ''/'', CHR ''/''), (CHR ''b'', CHR 0x08),
      (CHR ''f'', CHR 0x0C), (CHR ''n'', CHR 0x0A), (CHR ''r'', CHR 0x0D), (CHR ''t'', CHR 0x09)] c"

definition is_high :: "nat \<Rightarrow> bool" where "is_high n \<longleftrightarrow> 55296 \<le> n \<and> n < 56320"
definition is_low :: "nat \<Rightarrow> bool" where "is_low n \<longleftrightarrow> 56320 \<le> n \<and> n < 57344"

text \<open>A string's body, after its opening quote: the decoded bytes and what follows the closing quote.\<close>

fun parse_str :: "string \<Rightarrow> (string \<times> string) option" where
  "parse_str [] = None"
| "parse_str (c # cs) =
     (if c = CHR 0x22 then Some ([], cs)
      else if c = CHR 0x5C then
        (if cs = [] then None
         else if hd cs = CHR ''u'' then
           (case hex4 (take 4 (tl cs)) of
              None \<Rightarrow> None
            | Some n \<Rightarrow>
                (case (if is_high n \<and> take 2 (drop 5 cs) = [CHR 0x5C, CHR ''u'']
                       then hex4 (take 4 (drop 7 cs)) else None) of
                   Some m \<Rightarrow>
                     if is_low m
                     then map_option (apfst (append (utf8 (65536 + (n - 55296) * 1024 + (m - 56320)))))
                            (parse_str (drop 11 cs))
                     else map_option (apfst (append (utf8 65533))) (parse_str (drop 5 cs))
                 | None \<Rightarrow>
                     map_option (apfst (append (utf8 (if is_high n \<or> is_low n then 65533 else n))))
                       (parse_str (drop 5 cs))))
         else (case simple_unescape (hd cs) of
                 None \<Rightarrow> None
               | Some b \<Rightarrow> map_option (apfst (Cons b)) (parse_str (tl cs))))
      else if (of_char c :: nat) < 32 then None
      else map_option (apfst (Cons c)) (parse_str cs))"

definition is_digit :: "char \<Rightarrow> bool" where "is_digit c \<longleftrightarrow> digit_val c \<noteq> None"

text \<open>A number literal: its longest prefix in the grammar, and the rest.\<close>

definition parse_frac :: "string \<Rightarrow> (string \<times> string) option" where
  "parse_frac s =
     (case s of
        [] \<Rightarrow> Some ([], [])
      | c # cs \<Rightarrow>
          if c = CHR ''.'' then
            (let ds = takeWhile is_digit cs in
             if ds = [] then None else Some (c # ds, dropWhile is_digit cs))
          else Some ([], s))"

definition parse_exp :: "string \<Rightarrow> (string \<times> string) option" where
  "parse_exp s =
     (case s of
        [] \<Rightarrow> Some ([], [])
      | c # cs \<Rightarrow>
          if c = CHR ''e'' \<or> c = CHR ''E'' then
            (let sgn = (if cs \<noteq> [] \<and> (hd cs = CHR ''+'' \<or> hd cs = CHR ''-'') then [hd cs] else []);
                 body = drop (length sgn) cs;
                 ds = takeWhile is_digit body in
             if ds = [] then None else Some (c # sgn @ ds, dropWhile is_digit body))
          else Some ([], s))"

definition parse_num :: "string \<Rightarrow> (string \<times> string) option" where
  "parse_num s =
     (let sgn = (if s \<noteq> [] \<and> hd s = CHR ''-'' then [hd s] else []);
          body = drop (length sgn) s;
          ds = takeWhile is_digit body;
          int_part = (if ds \<noteq> [] \<and> hd ds = CHR ''0'' then [hd ds] else ds);
          rest = drop (length int_part) body
      in if int_part = [] then None
         else case parse_frac rest of
           None \<Rightarrow> None
         | Some (f, r1) \<Rightarrow>
             (case parse_exp r1 of
                None \<Rightarrow> None
              | Some (e, r2) \<Rightarrow> Some (sgn @ int_part @ f @ e, r2)))"

definition is_ws :: "char \<Rightarrow> bool" where
  "is_ws c \<longleftrightarrow> (of_char c :: nat) \<in> {9, 10, 13, 32}"

abbreviation skip_ws :: "string \<Rightarrow> string" where
  "skip_ws \<equiv> dropWhile is_ws"

text \<open>
  Values, array elements and object members. The first argument bounds the nesting and the number of
  elements; a document's length is always enough (\<open>parse_bound_enough\<close> below). Go's own limit of 10000 levels
  of nesting is left out.
\<close>

definition value_step ::
  "(string \<Rightarrow> (json list \<times> string) option) \<Rightarrow> (string \<Rightarrow> ((string \<times> json) list \<times> string) option) \<Rightarrow>
   string \<Rightarrow> (json \<times> string) option" where
  "value_step elems members s =
     (let s' = skip_ws s in
      if take 4 s' = ''null'' then Some (JNull, drop 4 s')
      else if take 4 s' = ''true'' then Some (JBool True, drop 4 s')
      else if take 5 s' = ''false'' then Some (JBool False, drop 5 s')
      else if s' = [] then None
      else if hd s' = CHR 0x22 then map_option (apfst JStr) (parse_str (tl s'))
      else if hd s' = CHR ''['' then
        (let r = skip_ws (tl s') in
         if r \<noteq> [] \<and> hd r = CHR '']'' then Some (JArr [], tl r)
         else map_option (apfst JArr) (elems r))
      else if hd s' = CHR ''{'' then
        (let r = skip_ws (tl s') in
         if r \<noteq> [] \<and> hd r = CHR ''}'' then Some (JObj [], tl r)
         else map_option (apfst JObj) (members r))
      else map_option (apfst JNum) (parse_num s'))"

definition elems_step ::
  "(string \<Rightarrow> (json \<times> string) option) \<Rightarrow> (string \<Rightarrow> (json list \<times> string) option) \<Rightarrow>
   string \<Rightarrow> (json list \<times> string) option" where
  "elems_step val elems s =
     (case val s of
        None \<Rightarrow> None
      | Some (v, s1) \<Rightarrow>
          (let r = skip_ws s1 in
           if r = [] then None
           else if hd r = CHR '']'' then Some ([v], tl r)
           else if hd r = CHR '','' then map_option (apfst (Cons v)) (elems (tl r))
           else None))"

definition members_step ::
  "(string \<Rightarrow> (json \<times> string) option) \<Rightarrow> (string \<Rightarrow> ((string \<times> json) list \<times> string) option) \<Rightarrow>
   string \<Rightarrow> ((string \<times> json) list \<times> string) option" where
  "members_step val members s =
     (let s' = skip_ws s in
      if s' = [] \<or> hd s' \<noteq> CHR 0x22 then None
      else case parse_str (tl s') of
        None \<Rightarrow> None
      | Some (k, s1) \<Rightarrow>
          (let r1 = skip_ws s1 in
           if r1 = [] \<or> hd r1 \<noteq> CHR '':'' then None
           else case val (tl r1) of
             None \<Rightarrow> None
           | Some (v, s2) \<Rightarrow>
               (let r = skip_ws s2 in
                if r = [] then None
                else if hd r = CHR ''}'' then Some ([(k, v)], tl r)
                else if hd r = CHR '','' then map_option (apfst (Cons (k, v))) (members (tl r))
                else None)))"

fun parse_value :: "nat \<Rightarrow> string \<Rightarrow> (json \<times> string) option"
  and parse_elems :: "nat \<Rightarrow> string \<Rightarrow> (json list \<times> string) option"
  and parse_members :: "nat \<Rightarrow> string \<Rightarrow> ((string \<times> json) list \<times> string) option" where
  "parse_value 0 s = None"
| "parse_value (Suc n) s = value_step (\<lambda>r. parse_elems n r) (\<lambda>r. parse_members n r) s"
| "parse_elems 0 s = None"
| "parse_elems (Suc n) s = elems_step (\<lambda>r. parse_value n r) (\<lambda>r. parse_elems n r) s"
| "parse_members 0 s = None"
| "parse_members (Suc n) s = members_step (\<lambda>r. parse_value n r) (\<lambda>r. parse_members n r) s"

text \<open>\<^verbatim>\<open>json.Unmarshal\<close> takes one value and nothing but blanks after it.\<close>

definition parse_doc :: "string \<Rightarrow> json option" where
  "parse_doc s = (case parse_value (Suc (length s)) s of
      Some (v, rest) \<Rightarrow> if skip_ws rest = [] then Some v else None
    | None \<Rightarrow> None)"

text \<open>\<^verbatim>\<open>Decoder.Decode\<close> takes the first value and leaves the rest.\<close>

definition decode_first :: "string \<Rightarrow> json option" where
  "decode_first s = map_option fst (parse_value (Suc (length s)) s)"

section \<open>The bound of the parser\<close>

lemma skip_ws_le: "length (skip_ws s) \<le> length s"
  by (rule length_dropWhile_le)

lemma tl_shorter: "t \<noteq> [] \<Longrightarrow> length (tl t) < length t"
  by (cases t) simp_all

lemma parse_str_shorter: "parse_str s = Some (t, r) \<Longrightarrow> length r < length s"
proof (induction s arbitrary: t r rule: length_induct)
  case (1 s)
  show ?case
  proof (cases s)
    case (Cons c cs)
    have later: "length r < Suc (length cs)" if "parse_str (drop k cs) = Some (t', r)" for k t'
    proof -
      have "length r < length (drop k cs)" using spec [OF "1.IH", of "drop k cs"] that by (simp add: Cons less_Suc_eq_le)
      then show ?thesis by simp
    qed
    have "length r < Suc (length cs)" if "parse_str (tl cs) = Some (t', r)" for t'
      using later [of 1] that by (simp add: drop_Suc)
    moreover have "length r < Suc (length cs)" if "parse_str cs = Some (t', r)" for t'
      using later [of 0] that by simp
    ultimately show ?thesis
      using "1.prems" later unfolding Cons parse_str.simps
      by (auto split: if_splits option.splits simp del: parse_str.simps)
  qed (use "1.prems" in simp)
qed

lemma parse_frac_le: "parse_frac s = Some (t, r) \<Longrightarrow> length r \<le> length s"
  by (auto simp: parse_frac_def Let_def length_dropWhile_le le_SucI split: list.splits if_splits)

lemma parse_exp_le: "parse_exp s = Some (t, r) \<Longrightarrow> length r \<le> length s"
  using length_dropWhile_le [of is_digit "tl (tl s)"] length_dropWhile_le [of is_digit "tl s"]
  by (auto simp: parse_exp_def Let_def drop_Suc split: list.splits if_splits)

lemma parse_num_shorter:
  assumes "parse_num s = Some (t, r)"
  shows "length r < length s"
  using assms
  by (cases s) (auto simp: parse_num_def Let_def split: option.splits if_splits dest!: parse_frac_le parse_exp_le)

text \<open>A result that a bound of as many steps as characters were taken already gives.\<close>

definition stable :: "(nat \<Rightarrow> string \<Rightarrow> ('a \<times> string) option) \<Rightarrow> string \<Rightarrow> 'a \<times> string \<Rightarrow> bool" where
  "stable p s x \<longleftrightarrow> length (snd x) < length s \<and> (\<forall>n \<ge> length s - length (snd x). p n s = Some x)"

lemma stableI:
  assumes "length r < length s" and "\<And>n. length s \<le> Suc n + length r \<Longrightarrow> p (Suc n) s = Some (v, r)"
  shows "stable p s (v, r)"
  unfolding stable_def snd_conv
proof (intro conjI allI impI assms(1))
  fix n assume n: "length s - length r \<le> n"
  with assms(1) obtain k where "n = Suc k" by (cases n) auto
  with n show "p n s = Some (v, r)" using assms(2) [of k] by simp
qed

lemma stableD:
  assumes "stable p s (v, r)"
  shows "length r < length s" and "length s \<le> n + length r \<Longrightarrow> p n s = Some (v, r)"
  using assms by (simp_all add: stable_def)

text \<open>A value is an array or an object, or it is found without a look at elements or members.\<close>

lemma value_stepE:
  assumes "value_step E M s = Some (v, r)"
  obtains (arr) es where "E (skip_ws (tl (skip_ws s))) = Some (es, r)" "v = JArr es" "skip_ws s \<noteq> []"
       "\<And>E' M'. E' (skip_ws (tl (skip_ws s))) = Some (es, r) \<Longrightarrow> value_step E' M' s = Some (v, r)"
    | (obj) ms where "M (skip_ws (tl (skip_ws s))) = Some (ms, r)" "v = JObj ms" "skip_ws s \<noteq> []"
       "\<And>E' M'. M' (skip_ws (tl (skip_ws s))) = Some (ms, r) \<Longrightarrow> value_step E' M' s = Some (v, r)"
    | (other) "\<And>E' M'. value_step E' M' s = Some (v, r)" "length r < length s"
proof -
  note dropWhile_eq_Nil_conv [simp del] and tokens = value_step_def Let_def
  let ?s = "skip_ws s" let ?t = "skip_ws (tl ?s)"
  have ne: "?s \<noteq> []" using assms by (auto simp: tokens)
  have le: "length ?s \<le> length s" "length ?t \<le> length ?s - 1" using skip_ws_le [of s] skip_ws_le [of "tl ?s"] by simp_all
  have tl: "length (tl ?s) < length s" using tl_shorter [OF ne] le(1) by linarith
  have lit: "length (drop k ?s) < length s" if "take k ?s \<noteq> []" for k
    using le(1) that by (cases ?s; cases k) simp_all
  have fals: "take 4 ?s = take 4 ''false''" if "take 5 ?s = ''false''"
    by (subst that [symmetric]) simp
  show thesis
  proof (cases "take 4 ?s = ''null'' \<or> take 4 ?s = ''true'' \<or> take 5 ?s = ''false''")
    case True
    then consider "take 4 ?s = ''null''" | "take 4 ?s = ''true''" | "take 5 ?s = ''false''" by blast
    then show ?thesis by cases (rule other; use assms lit [of 4] lit [of 5] fals in \<open>auto simp: tokens\<close>)+
  next
    case False
    consider "hd ?s = CHR 0x22" | "hd ?s = CHR ''[''" "?t \<noteq> [] \<and> hd ?t = CHR '']''"
      | "hd ?s = CHR ''[''" "\<not> (?t \<noteq> [] \<and> hd ?t = CHR '']'')" | "hd ?s = CHR ''{''" "?t \<noteq> [] \<and> hd ?t = CHR ''}''"
      | "hd ?s = CHR ''{''" "\<not> (?t \<noteq> [] \<and> hd ?t = CHR ''}'')"
      | "hd ?s \<noteq> CHR 0x22" "hd ?s \<noteq> CHR ''[''" "hd ?s \<noteq> CHR ''{''" by blast
    then show ?thesis
    proof cases
      case 1
      with assms False ne have "length r < length (tl ?s)" by (auto simp: tokens dest: parse_str_shorter)
      with 1 assms False ne tl show ?thesis by (intro other) (simp_all add: tokens)
    next
      case 2
      with assms False ne le tl show ?thesis by (intro other) (simp_all add: tokens, auto)
    next
      case 3
      with assms False ne obtain es where "E ?t = Some (es, r)" "v = JArr es" by (auto simp: tokens)
      with 3 False ne show ?thesis by (intro arr) (auto simp: tokens)
    next
      case 4
      with assms False ne le tl show ?thesis by (intro other) (simp_all add: tokens, auto)
    next
      case 5
      with assms False ne obtain ms where "M ?t = Some (ms, r)" "v = JObj ms" by (auto simp: tokens)
      with 5 False ne show ?thesis by (intro obj) (auto simp: tokens)
    next
      case 6
      with assms False ne have "length r < length ?s" by (auto simp: tokens dest: parse_num_shorter)
      with 6 assms False ne le(1) show ?thesis by (intro other) (simp_all add: tokens)
    qed
  qed
qed

lemma value_step_stable:
  assumes "value_step E M s = Some (v, r)"
    and E: "\<And>t y. E t = Some y \<Longrightarrow> stable parse_elems t y" and M: "\<And>t y. M t = Some y \<Longrightarrow> stable parse_members t y"
  shows "stable parse_value s (v, r)"
proof -
  let ?s = "skip_ws s" let ?t = "skip_ws (tl ?s)"
  have le: "length ?t < length s" if "?s \<noteq> []"
    using skip_ws_le [of s] skip_ws_le [of "tl ?s"] tl_shorter [OF that] by linarith
  from assms(1) show ?thesis
  proof (cases rule: value_stepE)
    case (arr es)
    note se = stableD [OF E [OF arr(1)]]
    show ?thesis by (rule stableI) (use le [OF arr(3)] se(1) in \<open>simp_all add: arr(4) se(2)\<close>)
  next
    case (obj ms)
    note sm = stableD [OF M [OF obj(1)]]
    show ?thesis by (rule stableI) (use le [OF obj(3)] sm(1) in \<open>simp_all add: obj(4) sm(2)\<close>)
  next
    case other
    then show ?thesis by (intro stableI) simp_all
  qed
qed

lemma elems_step_stable:
  assumes "elems_step V E s = Some (vs, r)"
    and V: "\<And>t y. V t = Some y \<Longrightarrow> stable parse_value t y" and E: "\<And>t y. E t = Some y \<Longrightarrow> stable parse_elems t y"
  shows "stable parse_elems s (vs, r)"
proof -
  note dropWhile_eq_Nil_conv [simp del]
  from assms(1) obtain v s1 where v: "V s = Some (v, s1)" by (auto simp: elems_step_def split: option.splits)
  let ?r = "skip_ws s1"
  note sv = stableD [OF V [OF v]]
  have le: "length ?r \<le> length s1" by (rule skip_ws_le)
  from assms(1) v consider (last_one) "?r \<noteq> []" "hd ?r = CHR '']''" "vs = [v]" "r = tl ?r"
    | (more) ws where "?r \<noteq> []" "hd ?r = CHR '',''" "E (tl ?r) = Some (ws, r)" "vs = v # ws"
    by (auto simp: elems_step_def Let_def split: if_splits)
  then show ?thesis
  proof cases
    case last_one
    show ?thesis
    proof (rule stableI)
      show "length r < length s" using sv(1) le tl_shorter [OF last_one(1)] unfolding last_one(4) by linarith
      fix n assume n: "length s \<le> Suc n + length r"
      have "parse_value n s = Some (v, s1)"
        using n le tl_shorter [OF last_one(1)] unfolding last_one(4) by (intro sv(2)) linarith
      then show "parse_elems (Suc n) s = Some (vs, r)" using last_one by (simp add: elems_step_def)
    qed
  next
    case more
    note se = stableD [OF E [OF more(3)]]
    show ?thesis
    proof (rule stableI)
      show "length r < length s" using sv(1) se(1) le tl_shorter [OF more(1)] by linarith
      fix n assume n: "length s \<le> Suc n + length r"
      have "parse_value n s = Some (v, s1)" using n le tl_shorter [OF more(1)] se(1) by (intro sv(2)) linarith
      moreover have "parse_elems n (tl ?r) = Some (ws, r)" using n le tl_shorter [OF more(1)] sv(1) by (intro se(2)) linarith
      ultimately show "parse_elems (Suc n) s = Some (vs, r)" using more by (simp add: elems_step_def)
    qed
  qed
qed

lemma members_step_stable:
  assumes "members_step V M s = Some (ms, r)"
    and V: "\<And>t y. V t = Some y \<Longrightarrow> stable parse_value t y" and M: "\<And>t y. M t = Some y \<Longrightarrow> stable parse_members t y"
  shows "stable parse_members s (ms, r)"
proof -
  note dropWhile_eq_Nil_conv [simp del]
  let ?s = "skip_ws s"
  from assms(1) obtain k s1 where k: "?s \<noteq> []" "hd ?s = CHR 0x22" "parse_str (tl ?s) = Some (k, s1)"
    by (auto simp: members_step_def Let_def split: option.splits if_splits)
  let ?r1 = "skip_ws s1"
  from assms(1) k obtain v s2 where v: "?r1 \<noteq> []" "hd ?r1 = CHR '':''" "V (tl ?r1) = Some (v, s2)"
    by (auto simp: members_step_def Let_def split: option.splits if_splits)
  let ?r = "skip_ws s2"
  note sv = stableD [OF V [OF v(3)]]
  have le: "length ?s \<le> length s" "length s1 < length (tl ?s)" "length ?r1 \<le> length s1" "length ?r \<le> length s2"
    using parse_str_shorter [OF k(3)] by (simp_all add: skip_ws_le)
  note lens = sv(1) le tl_shorter [OF k(1)] tl_shorter [OF v(1)]
  have step: "members_step V' M' s = (if ?r = [] then None else if hd ?r = CHR ''}'' then Some ([(k, v)], tl ?r)
      else if hd ?r = CHR '','' then map_option (apfst (Cons (k, v))) (M' (tl ?r)) else None)"
    if "V' (tl ?r1) = Some (v, s2)" for V' M'
    using k v that by (simp add: members_step_def Let_def)
  from assms(1) step [where V' = V and M' = M, OF v(3)] consider (last_one) "?r \<noteq> []" "hd ?r = CHR ''}''" "ms = [(k, v)]" "r = tl ?r"
    | (more) ns where "?r \<noteq> []" "hd ?r = CHR '',''" "M (tl ?r) = Some (ns, r)" "ms = (k, v) # ns"
    by (auto split: if_splits)
  then show ?thesis
  proof cases
    case last_one
    show ?thesis
    proof (rule stableI)
      show "length r < length s" using lens tl_shorter [OF last_one(1)] unfolding last_one(4) by linarith
      fix n assume n: "length s \<le> Suc n + length r"
      have "parse_value n (tl ?r1) = Some (v, s2)"
        using n lens tl_shorter [OF last_one(1)] unfolding last_one(4) by (intro sv(2)) linarith
      from step [where V' = "parse_value n" and M' = "parse_members n", OF this] show "parse_members (Suc n) s = Some (ms, r)"
        using last_one by simp
    qed
  next
    case more
    note sm = stableD [OF M [OF more(3)]]
    show ?thesis
    proof (rule stableI)
      show "length r < length s" using lens sm(1) tl_shorter [OF more(1)] by linarith
      fix n assume n: "length s \<le> Suc n + length r"
      have "parse_value n (tl ?r1) = Some (v, s2)" using n lens tl_shorter [OF more(1)] sm(1) by (intro sv(2)) linarith
      note run = step [where V' = "parse_value n" and M' = "parse_members n", OF this]
      have "parse_members n (tl ?r) = Some (ns, r)" using n lens tl_shorter [OF more(1)] by (intro sm(2)) linarith
      then show "parse_members (Suc n) s = Some (ms, r)" using more run by simp
    qed
  qed
qed

lemma parse_stable:
  "(parse_value n s = Some x \<longrightarrow> stable parse_value s x) \<and> (parse_elems n s = Some y \<longrightarrow> stable parse_elems s y) \<and>
   (parse_members n s = Some z \<longrightarrow> stable parse_members s z)"
proof (induction n arbitrary: s x y z)
  case (Suc n)
  note IH = Suc.IH [THEN conjunct1, rule_format] Suc.IH [THEN conjunct2, THEN conjunct1, rule_format]
    Suc.IH [THEN conjunct2, THEN conjunct2, rule_format]
  show ?case
  proof (intro conjI impI)
    show "stable parse_value s x" if "parse_value (Suc n) s = Some x"
      using that value_step_stable [where E = "parse_elems n" and M = "parse_members n", OF _ IH(2,3)] by (cases x) simp
    show "stable parse_elems s y" if "parse_elems (Suc n) s = Some y"
      using that elems_step_stable [where V = "parse_value n" and E = "parse_elems n", OF _ IH(1,2)] by (cases y) simp
    show "stable parse_members s z" if "parse_members (Suc n) s = Some z"
      using that members_step_stable [where V = "parse_value n" and M = "parse_members n", OF _ IH(1,3)] by (cases z) simp
  qed
qed simp

text \<open>
  The bound \<open>Suc (length s)\<close> of \<^const>\<open>parse_doc\<close> and \<^const>\<open>decode_first\<close> refuses no document: what any bound finds, it finds.
\<close>

theorem parse_bound_enough: "parse_value n s = Some x \<Longrightarrow> parse_value (Suc (length s)) s = Some x"
  using parse_stable [of n s x undefined undefined] by (simp add: stable_def del: parse_value.simps)

section \<open>Struct fields\<close>

text \<open>
  A member goes to the field with its name, letter case aside; null leaves the field alone; of
  several members the last one counts; a member of another type is an error. \<open>None\<close> is the error,
  and the default stands for a field no member sets.
\<close>

text \<open>
  Names are compared after folding case: beside the ASCII letters the long s (bytes C5 BF) and the Kelvin
  sign (E2 84 AA) fold to ASCII.
\<close>

function fold_special :: "string \<Rightarrow> string" where
  "fold_special [] = []"
| "fold_special (c # s) =
     (if c = CHR 0xC5 \<and> take 1 s = [CHR 0xBF] then CHR ''s'' # fold_special (drop 1 s)
      else if c = CHR 0xE2 \<and> take 2 s = [CHR 0x84, CHR 0xAA]
      then CHR ''k'' # fold_special (drop 2 s)
      else c # fold_special s)"
  by pat_completeness auto
termination by (relation "measure length") auto

declare fold_special.simps [simp del]

definition fold_name :: "string \<Rightarrow> string" where
  "fold_name s = ToLower (fold_special s)"

definition field_match :: "string \<Rightarrow> string \<times> json \<Rightarrow> bool" where
  "field_match name m \<longleftrightarrow> fold_name (fst m) = fold_name name"

definition string_field :: "string \<Rightarrow> (string \<times> json) list \<Rightarrow> string option" where
  "string_field name ms =
     fold (\<lambda>m acc. case (acc, snd m) of
        (None, _) \<Rightarrow> None
      | (Some a, JNull) \<Rightarrow> Some a
      | (Some a, JStr s) \<Rightarrow> Some s
      | _ \<Rightarrow> None) (filter (field_match name) ms) (Some [])"

definition int64_field :: "string \<Rightarrow> (string \<times> json) list \<Rightarrow> int option" where
  "int64_field name ms =
     fold (\<lambda>m acc. case (acc, snd m) of
        (None, _) \<Rightarrow> None
      | (Some a, JNull) \<Rightarrow> Some a
      | (Some a, JNum n) \<Rightarrow> ParseInt n
      | _ \<Rightarrow> None) (filter (field_match name) ms) (Some 0)"

text \<open>A \<^verbatim>\<open>json.Number\<close> field takes a number literal, or a string that is one.\<close>

definition number_field :: "string \<Rightarrow> (string \<times> json) list \<Rightarrow> string option" where
  "number_field name ms =
     fold (\<lambda>m acc. case (acc, snd m) of
        (None, _) \<Rightarrow> None
      | (Some a, JNull) \<Rightarrow> Some a
      | (Some a, JNum n) \<Rightarrow> Some n
      | (Some a, JStr s) \<Rightarrow> (case parse_num s of Some (_, []) \<Rightarrow> Some s | _ \<Rightarrow> None)
      | _ \<Rightarrow> None) (filter (field_match name) ms) (Some [])"

section \<open>What was printed is parsed back\<close>

lemma hexval_hexdigit [simp]: "n < 16 \<Longrightarrow> hexval (hexdigit n) = Some n"
  by (simp add: hexval_def hexdigit_def)

lemma hex_horner:
  "16 * p + d = n \<Longrightarrow> 16 * q + c = p \<Longrightarrow> 16 * t + b = q \<Longrightarrow>
     4096 * t + 256 * b + 16 * c + d = (n :: nat)"
  by simp

lemma hex_sum:
  assumes "n < (65536 :: nat)"
  shows "4096 * (n div 4096 mod 16) + 256 * (n div 256 mod 16) + 16 * (n div 16 mod 16) + n mod 16 = n"
proof -
  have "n div 256 = n div 16 div 16" "n div 4096 = n div 16 div 16 div 16"
    by (simp_all add: div_mult2_eq [symmetric])
  moreover have "n div 4096 mod 16 = n div 4096" using assms by simp
  ultimately show ?thesis
    by (simp only: hex_horner [OF mult_div_mod_eq mult_div_mod_eq mult_div_mod_eq])
qed

lemma hex4_digits: "n < 65536 \<Longrightarrow>
  hex4 [hexdigit (n div 4096 mod 16), hexdigit (n div 256 mod 16),
     hexdigit (n div 16 mod 16), hexdigit (n mod 16)] = Some n"
  using hex_sum [of n] by (simp add: hex4_def)

lemma parse_str_u_escape:
  "n < 55296 \<Longrightarrow> parse_str (u_escape n @ r) = map_option (apfst (append (utf8 n))) (parse_str r)"
  using hex4_digits [of n] by (simp add: u_escape_def is_high_def is_low_def)

lemma char_of_eqI: "(of_char c :: nat) = n \<Longrightarrow> c = char_of n"
  by (metis char_of_char)

lemma escaped_chars:
  "char_of (34 :: nat) = CHR 0x22" "char_of (92 :: nat) = CHR 0x5C" "char_of (8 :: nat) = CHR 0x08"
  "char_of (12 :: nat) = CHR 0x0C" "char_of (10 :: nat) = CHR 0x0A" "char_of (13 :: nat) = CHR 0x0D"
  "char_of (9 :: nat) = CHR 0x09"
  by code_simp+

lemma parse_short_escape:
  assumes "c \<in> {CHR 0x22, CHR 0x5C, CHR 0x08, CHR 0x0C, CHR 0x0A, CHR 0x0D, CHR 0x09}"
  shows "\<exists>b. esc_byte c = [CHR 0x5C, b] \<and> b \<noteq> CHR ''u'' \<and> simple_unescape b = Some c"
  using assms by (elim insertE emptyE) (simp_all add: esc_byte_def simple_unescape_def)

lemma append_single: "append [c] = Cons c"
  by (rule ext) simp

lemma utf8_byte: "n < 128 \<Longrightarrow> utf8 n = [char_of n]"
  by (simp add: utf8_def)

lemma parse_str_esc_byte:
  "parse_str (esc_byte c @ r) = map_option (apfst (Cons c)) (parse_str r)"
proof -
  let ?n = "of_char c :: nat"
  consider "?n \<in> {34, 92, 8, 12, 10, 13, 9}" | "?n < 32 \<or> ?n \<in> {60, 62, 38}" "?n \<notin> {34, 92, 8, 12, 10, 13, 9}"
    | "32 \<le> ?n" "?n \<notin> {34, 92, 60, 62, 38}" by fastforce
  then show ?thesis
  proof cases
    case 1
    then have "c \<in> {CHR 0x22, CHR 0x5C, CHR 0x08, CHR 0x0C, CHR 0x0A, CHR 0x0D, CHR 0x09}"
      by (elim insertE emptyE) (drule char_of_eqI, simp add: escaped_chars)+
    then obtain b where "esc_byte c = [CHR 0x5C, b]" "b \<noteq> CHR ''u''" "simple_unescape b = Some c"
      using parse_short_escape by blast
    then show ?thesis by simp
  next
    case 2
    then have "esc_byte c = u_escape ?n" by (auto simp: esc_byte_def Let_def)
    moreover have small: "?n < 128" using 2 by auto
    then have "utf8 ?n = [c]" using utf8_byte [of ?n] by simp
    moreover have "?n < 55296" using small by simp
    ultimately show ?thesis by (simp only: parse_str_u_escape append_single)
  next
    case 3
    then have "esc_byte c = [c]" by (auto simp: esc_byte_def Let_def)
    moreover have "c \<noteq> CHR 0x22" "c \<noteq> CHR 0x5C" using 3 by auto
    ultimately show ?thesis using 3 by simp
  qed
qed

lemma esc_line_sep:
  "esc (CHR 0xE2 # CHR 0x80 # CHR 0xA8 # ds) = u_escape 8232 @ esc ds"
  "esc (CHR 0xE2 # CHR 0x80 # CHR 0xA9 # ds) = u_escape 8233 @ esc ds"
  by simp_all

lemma line_sep_bytes:
  "char_of (226 :: nat) = CHR 0xE2" "char_of (128 :: nat) = CHR 0x80"
  "char_of (168 :: nat) = CHR 0xA8" "char_of (169 :: nat) = CHR 0xA9"
  by code_simp+

lemma utf8_line_sep:
  "utf8 8232 = [CHR 0xE2, CHR 0x80, CHR 0xA8]" "utf8 8233 = [CHR 0xE2, CHR 0x80, CHR 0xA9]"
  by (simp_all add: utf8_def line_sep_bytes)

lemma parse_str_line_sep:
  "parse_str (u_escape 8232 @ r) = map_option (apfst (append [CHR 0xE2, CHR 0x80, CHR 0xA8])) (parse_str r)"
  "parse_str (u_escape 8233 @ r) = map_option (apfst (append [CHR 0xE2, CHR 0x80, CHR 0xA9])) (parse_str r)"
  using parse_str_u_escape [of 8232 r] parse_str_u_escape [of 8233 r] 
  by (simp_all add: utf8_line_sep)

lemma esc_cases:
  assumes "\<And>ds. c # cs = CHR 0xE2 # CHR 0x80 # CHR 0xA8 # ds \<Longrightarrow> P"
    and "\<And>ds. c # cs = CHR 0xE2 # CHR 0x80 # CHR 0xA9 # ds \<Longrightarrow> P"
    and "esc (c # cs) = esc_byte c @ esc cs \<Longrightarrow> P"
  shows P
proof (cases "c = CHR 0xE2 \<and> (take 2 cs = [CHR 0x80, CHR 0xA8] \<or> take 2 cs = [CHR 0x80, CHR 0xA9])")
  case True
  then have "\<exists>ds. c # cs = CHR 0xE2 # CHR 0x80 # CHR 0xA8 # ds \<or> c # cs = CHR 0xE2 # CHR 0x80 # CHR 0xA9 # ds"
    by (cases cs; cases "tl cs") auto
  then show ?thesis using assms(1,2) by blast
next
  case False
  then have "esc (c # cs) = esc_byte c @ esc cs" by auto
  then show ?thesis by (rule assms(3))
qed

lemma parse_str_esc: "parse_str (esc s @ CHR 0x22 # rest) = Some (s, rest)"
proof (induction s rule: length_induct)
  case (1 s)
  show ?case
  proof (cases s)
    case (Cons c cs)
    have IH: "\<And>t. length t < length s \<Longrightarrow> parse_str (esc t @ CHR 0x22 # rest) = Some (t, rest)"
      using 1 by blast
    show ?thesis unfolding Cons
    proof (rule esc_cases [of c cs])
      fix ds assume ds: "c # cs = CHR 0xE2 # CHR 0x80 # CHR 0xA8 # ds"
      with IH [of ds] Cons show "parse_str (esc (c # cs) @ CHR 0x22 # rest) = Some (c # cs, rest)"
        unfolding ds esc_line_sep append_assoc parse_str_line_sep by simp
    next
      fix ds assume ds: "c # cs = CHR 0xE2 # CHR 0x80 # CHR 0xA9 # ds"
      with IH [of ds] Cons show "parse_str (esc (c # cs) @ CHR 0x22 # rest) = Some (c # cs, rest)"
        unfolding ds esc_line_sep append_assoc parse_str_line_sep by simp
    next
      assume eq: "esc (c # cs) = esc_byte c @ esc cs"
      from IH [of cs] Cons show "parse_str (esc (c # cs) @ CHR 0x22 # rest) = Some (c # cs, rest)"
        unfolding eq append_assoc parse_str_esc_byte by simp
    qed
  qed simp
qed

text \<open>Integer literals.\<close>

lemma is_digit_digit [simp]: "d < 10 \<Longrightarrow> is_digit (digit d)"
  by (simp add: is_digit_def)

lemma fmt_nat_is_digit: "c \<in> set (fmt_nat n) \<Longrightarrow> is_digit c"
  using fmt_nat_digits by fastforce

lemma fmt_nat_hd_zero: "hd (fmt_nat n) = CHR ''0'' \<Longrightarrow> n = 0"
proof (induction n rule: fmt_nat.induct)
  case (1 n)
  have zero: "CHR ''0'' = digit 0" by code_simp
  show ?case
  proof (cases "n < 10")
    case True
    with "1.prems" show ?thesis by (simp add: fmt_nat.simps [of n] zero digit_eq_iff)
  next
    case False
    with "1.prems" have "hd (fmt_nat (n div 10)) = CHR ''0''" by (simp add: fmt_nat.simps [of n])
    with "1.IH" False have "n div 10 = 0" by simp
    with False show ?thesis by simp
  qed
qed

definition num_delim :: "string \<Rightarrow> bool" where
  "num_delim r \<longleftrightarrow> r = [] \<or> hd r \<in> {CHR '','', CHR '']'', CHR ''}''}"

lemma num_delimE:
  assumes "num_delim r"
  shows "takeWhile is_digit r = []" and "parse_frac r = Some ([], r)" and "parse_exp r = Some ([], r)"
  using assms
  by (cases r; auto simp: num_delim_def parse_frac_def parse_exp_def is_digit_def digit_val_def)+

lemma parse_num_fmt_nat:
  assumes "num_delim r" and "sg = [] \<or> sg = [CHR ''-'']"
  shows "parse_num (sg @ fmt_nat n @ r) = Some (sg @ fmt_nat n, r)"
proof -
  have digits: "takeWhile is_digit (fmt_nat n @ r) = fmt_nat n"
    using num_delimE(1) [OF assms(1)] fmt_nat_is_digit by (simp add: takeWhile_append2)
  have nosign: "hd (fmt_nat n @ r) \<noteq> CHR ''-''" using hd_fmt_nat [of n] by simp
  have sign: "(if sg @ fmt_nat n @ r \<noteq> [] \<and> hd (sg @ fmt_nat n @ r) = CHR ''-''
      then [hd (sg @ fmt_nat n @ r)] else []) = sg"
    using assms(2) nosign by auto
  have int_part: "(if fmt_nat n \<noteq> [] \<and> hd (fmt_nat n) = CHR ''0'' then [hd (fmt_nat n)] else fmt_nat n)
      = fmt_nat n"
    using fmt_nat_hd_zero [of n] by (auto simp: fmt_nat.simps [of 0])
  have body: "drop (length sg) (sg @ fmt_nat n @ r) = fmt_nat n @ r" by simp
  show ?thesis
    unfolding parse_num_def Let_def sign body digits int_part
    using num_delimE(2,3) [OF assms(1)] by simp
qed

lemma parse_num_FormatInt: "num_delim r \<Longrightarrow> parse_num (FormatInt i @ r) = Some (FormatInt i, r)"
  using parse_num_fmt_nat [of r "[]" "nat i"] parse_num_fmt_nat [of r "[CHR ''-'']" "nat (- i)"]
  by (simp add: FormatInt_def)

text \<open>Values whose numbers are integer literals.\<close>

inductive int_json :: "json \<Rightarrow> bool" where
  "int_json JNull"
| "int_json (JBool b)"
| "int_json (JNum (FormatInt i))"
| "int_json (JStr s)"
| "(\<And>v. v \<in> set vs \<Longrightarrow> int_json v) \<Longrightarrow> int_json (JArr vs)"
| "(\<And>k v. (k, v) \<in> set ms \<Longrightarrow> int_json v) \<Longrightarrow> int_json (JObj ms)"

definition starts_token :: "string \<Rightarrow> bool" where
  "starts_token s \<longleftrightarrow> s \<noteq> [] \<and> \<not> is_ws (hd s) \<and> hd s \<noteq> CHR '']'' \<and> hd s \<noteq> CHR ''}''"

lemma starts_token_append: "starts_token s \<Longrightarrow> starts_token (s @ r) \<and> skip_ws (s @ r) = s @ r"
  by (cases s) (auto simp: starts_token_def)

lemma int_literal_hd: "hd (FormatInt i) = CHR ''-'' \<or> is_digit (hd (FormatInt i))"
  using fmt_nat_is_digit [OF hd_in_set] by (simp add: FormatInt_def)

lemma digit_other:
  "is_digit c \<Longrightarrow> \<not> is_ws c \<and> c \<notin> {CHR '']'', CHR ''}'', CHR ''['', CHR ''{'', CHR 0x22, CHR ''n'', CHR ''t'', CHR ''f''}"
  by (auto simp: is_digit_def digit_val_def is_ws_def split: if_splits)

lemma starts_token_print: "int_json v \<Longrightarrow> starts_token (print_json v)"
proof (cases v)
  case (JNum n)
  moreover assume "int_json v"
  ultimately obtain i where "n = FormatInt i" by (auto elim: int_json.cases)
  with JNum show ?thesis
    using int_literal_hd [of i] digit_other [of "hd (FormatInt i)"]
    by (auto simp: starts_token_def is_ws_def)
qed (auto simp: starts_token_def print_str_def is_ws_def)

lemma parse_elems_join:
  assumes "\<And>v f r. v \<in> set vs \<Longrightarrow> length (print_json v) \<le> f \<Longrightarrow> num_delim r \<Longrightarrow>
      parse_value f (print_json v @ r) = Some (v, r)"
    and "vs \<noteq> []" and "length (join '','' (map print_json vs)) < n"
  shows "parse_elems n (join '','' (map print_json vs) @ CHR '']'' # rest) = Some (vs, rest)"
  using assms
proof (induction vs arbitrary: n)
  case (Cons v vs)
  then obtain m where n: "n = Suc m" by (cases n) auto
  show ?case
  proof (cases vs)
    case Nil
    with Cons.prems n have "parse_value m (print_json v @ CHR '']'' # rest) = Some (v, CHR '']'' # rest)"
      by (intro Cons.prems(1)) (auto simp: num_delim_def)
    with Nil n show ?thesis by (simp add: elems_step_def is_ws_def)
  next
    case (Cons w ws)
    let ?tail = "join '','' (map print_json vs) @ CHR '']'' # rest"
    have "parse_value m (print_json v @ CHR '','' # ?tail) = Some (v, CHR '','' # ?tail)"
      using Cons.prems n Cons by (intro Cons.prems(1)) (auto simp: num_delim_def)
    moreover have "parse_elems m ?tail = Some (vs, rest)"
      using Cons.prems n Cons by (intro Cons.IH) auto
    ultimately show ?thesis using n Cons by (simp add: elems_step_def is_ws_def)
  qed
qed simp

lemma parse_members_join:
  assumes "\<And>k v f r. (k, v) \<in> set ms \<Longrightarrow> length (print_json v) \<le> f \<Longrightarrow> num_delim r \<Longrightarrow>
      parse_value f (print_json v @ r) = Some (v, r)"
    and "ms \<noteq> []" and "length (join '','' (map (\<lambda>(k, v). print_str k @ '':'' @ print_json v) ms)) < n"
  shows "parse_members n (join '','' (map (\<lambda>(k, v). print_str k @ '':'' @ print_json v) ms) @ CHR ''}'' # rest)
    = Some (ms, rest)"
  using assms
proof (induction ms arbitrary: n)
  case (Cons kv ms)
  obtain k v where kv: "kv = (k, v)" by fastforce
  from Cons.prems obtain m where n: "n = Suc m" by (cases n) auto
  show ?case
  proof (cases ms)
    case Nil
    with Cons.prems n kv have "parse_value m (print_json v @ CHR ''}'' # rest) = Some (v, CHR ''}'' # rest)"
      by (intro Cons.prems(1)) (auto simp: num_delim_def)
    with Nil n kv show ?thesis
      by (simp add: members_step_def print_str_def parse_str_esc is_ws_def)
  next
    case (Cons w ws)
    let ?tail = "join '','' (map (\<lambda>(k, v). print_str k @ '':'' @ print_json v) ms) @ CHR ''}'' # rest"
    have "parse_value m (print_json v @ CHR '','' # ?tail) = Some (v, CHR '','' # ?tail)"
      using Cons.prems n kv Cons by (intro Cons.prems(1)) (auto simp: num_delim_def)
    moreover have "parse_members m ?tail = Some (ms, rest)"
      using Cons.prems n kv Cons by (intro Cons.IH) auto
    ultimately show ?thesis using n kv Cons
      by (simp add: members_step_def print_str_def parse_str_esc is_ws_def)
  qed
qed simp

lemma join_starts_token: "xs \<noteq> [] \<Longrightarrow> starts_token (hd xs) \<Longrightarrow> starts_token (join sep xs)"
  by (cases "(sep, xs)" rule: join.cases) (auto simp: starts_token_def)

lemma parse_value_print:
  "int_json v \<Longrightarrow> length (print_json v) \<le> f \<Longrightarrow> num_delim r \<Longrightarrow>
     parse_value f (print_json v @ r) = Some (v, r)"
proof (induction v arbitrary: f r rule: int_json.induct)
  case (3 i)
  then obtain m where f: "f = Suc m" by (cases f) auto
  have hd: "hd (FormatInt i @ r) = CHR ''-'' \<or> is_digit (hd (FormatInt i @ r))"
    using int_literal_hd [of i] by simp
  have "starts_token (FormatInt i)" using starts_token_print [OF int_json.intros(3), of i] by simp
  then have ws: "skip_ws (FormatInt i @ r) = FormatInt i @ r" by (simp add: starts_token_append)
  obtain c cs where c: "FormatInt i @ r = c # cs" by (cases "FormatInt i @ r") auto
  with hd digit_other [of c] show ?case
    using f ws parse_num_FormatInt [OF 3(2), of i] by (auto simp: value_step_def)
next
  case (4 s)
  then show ?case by (cases f) (auto simp: value_step_def print_str_def parse_str_esc is_ws_def)
next
  case (5 vs)
  then obtain m where f: "f = Suc m" by (cases f) auto
  show ?case
  proof (cases "vs = []")
    case True
    with f show ?thesis by (simp add: value_step_def is_ws_def)
  next
    case False
    have "starts_token (join '','' (map print_json vs))"
      using False 5(1) by (intro join_starts_token) (auto simp: hd_map intro!: starts_token_print)
    note tok = starts_token_append [OF this, of "CHR '']'' # r"]
    have "parse_elems m (join '','' (map print_json vs) @ CHR '']'' # r) = Some (vs, r)"
      using 5 False f by (intro parse_elems_join) auto
    with f False tok show ?thesis by (simp add: value_step_def is_ws_def starts_token_def)
  qed
next
  case (6 ms)
  then obtain m where f: "f = Suc m" by (cases f) auto
  let ?mem = "\<lambda>(k, v). print_str k @ '':'' @ print_json v"
  show ?case
  proof (cases "ms = []")
    case True
    with f show ?thesis by (simp add: value_step_def is_ws_def)
  next
    case False
    have "starts_token (join '','' (map ?mem ms))"
      using False by (intro join_starts_token)
        (auto simp: hd_map starts_token_def print_str_def is_ws_def split: prod.splits)
    note tok = starts_token_append [OF this, of "CHR ''}'' # r"]
    have "parse_members m (join '','' (map ?mem ms) @ CHR ''}'' # r) = Some (ms, r)"
      using 6 False f by (intro parse_members_join) auto
    with f False tok show ?thesis by (simp add: value_step_def is_ws_def starts_token_def)
  qed
next
  case 1
  then show ?case by (cases f) (simp_all add: value_step_def is_ws_def)
next
  case (2 b)
  then show ?case by (cases f; cases b) (simp_all add: value_step_def is_ws_def)
qed

theorem parse_print: "int_json v \<Longrightarrow> parse_doc (print_json v) = Some v"
  using parse_value_print [of v "Suc (length (print_json v))" "[]"]
  by (simp add: parse_doc_def num_delim_def)

theorem decode_print: "int_json v \<Longrightarrow> decode_first (print_json v) = Some v"
  using parse_value_print [of v "Suc (length (print_json v))" "[]"]
  by (simp add: decode_first_def num_delim_def)

end
