(* ===== verification/Go_Base64.thy ===== *)
theory Go_Base64
  imports Prelude
begin

text \<open>
  \<^verbatim>\<open>base64.RawURLEncoding\<close> (URL alphabet, no padding), \<^verbatim>\<open>hex.EncodeToString\<close> and the big-endian bytes of
  a \<^verbatim>\<open>big.Int\<close>, as the token packages use them. Decoding skips line breaks and ignores the unused bits
  of a last short group, as Go's non-strict decoder does.
\<close>

type_synonym byte = "8 word"

section \<open>The alphabet\<close>

definition b64_char :: "nat \<Rightarrow> char" where
  "b64_char n =
     (if n < 26 then char_of (65 + n)
      else if n < 52 then char_of (71 + n)
      else if n < 62 then char_of (n - 4)
      else if n = 62 then CHR ''-''
      else CHR ''_'')"

definition b64_val :: "char \<Rightarrow> nat option" where
  "b64_val c =
     (let n = (of_char c :: nat) in
      if 65 \<le> n \<and> n \<le> 90 then Some (n - 65)
      else if 97 \<le> n \<and> n \<le> 122 then Some (n - 71)
      else if 48 \<le> n \<and> n \<le> 57 then Some (n + 4)
      else if n = 45 then Some 62
      else if n = 95 then Some 63
      else None)"

lemma b64_val_char [simp]: "n < 64 \<Longrightarrow> b64_val (b64_char n) = Some n"
  by (auto simp: b64_val_def b64_char_def Let_def)

section \<open>Encoding and decoding\<close>

fun EncodeToString :: "byte list \<Rightarrow> string" where
  "EncodeToString [] = []"
| "EncodeToString [a] = map b64_char [unat a div 4, unat a mod 4 * 16]"
| "EncodeToString [a, b] = map b64_char
     [unat a div 4, unat a mod 4 * 16 + unat b div 16, unat b mod 16 * 4]"
| "EncodeToString (a # b # c # bs) = map b64_char
     [unat a div 4, unat a mod 4 * 16 + unat b div 16, unat b mod 16 * 4 + unat c div 64, unat c mod 64]
     @ EncodeToString bs"

fun decode_groups :: "nat list \<Rightarrow> byte list option" where
  "decode_groups [] = Some []"
| "decode_groups [p] = None"
| "decode_groups [p, q] = Some [of_nat (p * 4 + q div 16)]"
| "decode_groups [p, q, r] = Some [of_nat (p * 4 + q div 16), of_nat (q mod 16 * 16 + r div 4)]"
| "decode_groups (p # q # r # t # vs) =
     map_option (append [of_nat (p * 4 + q div 16), of_nat (q mod 16 * 16 + r div 4), of_nat (r mod 4 * 64 + t)])
       (decode_groups vs)"

fun all_some :: "'a option list \<Rightarrow> 'a list option" where
  "all_some [] = Some []"
| "all_some (None # xs) = None"
| "all_some (Some x # xs) = map_option (Cons x) (all_some xs)"

definition DecodeString :: "string \<Rightarrow> byte list option" where
  "DecodeString s = (case all_some (map b64_val (filter (\<lambda>c. c \<noteq> CHR 0x0A \<and> c \<noteq> CHR 0x0D) s)) of
      None \<Rightarrow> None | Some vs \<Rightarrow> decode_groups vs)"

lemma all_some_Some: "all_some (map Some vs) = Some vs"
  by (induction vs) simp_all

text \<open>The 6-bit groups of an encoded text.\<close>

fun groups :: "byte list \<Rightarrow> nat list" where
  "groups [] = []"
| "groups [a] = [unat a div 4, unat a mod 4 * 16]"
| "groups [a, b] = [unat a div 4, unat a mod 4 * 16 + unat b div 16, unat b mod 16 * 4]"
| "groups (a # b # c # bs) =
     [unat a div 4, unat a mod 4 * 16 + unat b div 16, unat b mod 16 * 4 + unat c div 64, unat c mod 64]
     @ groups bs"

lemma EncodeToString_groups: "EncodeToString bs = map b64_char (groups bs)"
  by (induction bs rule: groups.induct) simp_all

lemma unat_byte: "unat (a :: byte) < 256"
  using unsigned_less [of a] by simp

lemma group_bounds:
  "x < 256 \<Longrightarrow> x div 4 < (64 :: nat)" "x mod 4 * 16 < (64 :: nat)" "x mod 16 * 4 < (64 :: nat)"
  "y < 256 \<Longrightarrow> x mod 4 * 16 + y div 16 < (64 :: nat)" "y < 256 \<Longrightarrow> x mod 16 * 4 + y div 64 < (64 :: nat)"
  by linarith+

lemma groups_range: "v \<in> set (groups bs) \<Longrightarrow> v < 64"
proof (induction bs rule: groups.induct)
  case (4 a b c bs)
  then show ?case by (auto simp: unat_byte group_bounds)
qed (auto simp: unat_byte group_bounds)

lemma joined_group: "r < m \<Longrightarrow> (k * m + r) div m = k" "r < m \<Longrightarrow> (k * m + r) mod m = (r :: nat)"
  by simp_all

lemma group_digits: "y < 256 \<Longrightarrow> y div 16 < (16 :: nat)" "z < 256 \<Longrightarrow> z div 64 < (4 :: nat)"
  by linarith+

lemma regroup:
  "(x :: nat) div 4 * 4 + x mod 4 * 16 div 16 = x"
  "y < 256 \<Longrightarrow> x div 4 * 4 + (x mod 4 * 16 + y div 16) div 16 = x"
  "y < 256 \<Longrightarrow> (x mod 4 * 16 + y div 16) mod 16 * 16 + y mod 16 * 4 div 4 = y"
  "y < 256 \<Longrightarrow> z < 256 \<Longrightarrow> (x mod 4 * 16 + y div 16) mod 16 * 16 + (y mod 16 * 4 + z div 64) div 4 = y"
  "z < 256 \<Longrightarrow> (y mod 16 * 4 + z div 64) mod 4 * 64 + z mod 64 = z"
  by (simp_all only: joined_group group_digits div_mult_self_is_m zero_less_numeral div_mult_mod_eq)

lemma of_nat_byte: "of_nat (unat b) = (b :: byte)"
  by simp

lemma decode_groups_groups: "decode_groups (groups bs) = Some bs"
  by (induction bs rule: groups.induct)
    (simp_all only: groups.simps decode_groups.simps append.simps regroup unat_byte of_nat_byte option.map)

lemma b64_char_no_break: "v < 64 \<Longrightarrow> b64_char v \<noteq> CHR 0x0A \<and> b64_char v \<noteq> CHR 0x0D"
proof -
  assume "v < 64"
  then have "b64_val (b64_char v) \<noteq> None" by simp
  moreover have "b64_val (CHR 0x0A) = None" "b64_val (CHR 0x0D) = None" by code_simp+
  ultimately show ?thesis by metis
qed

theorem DecodeString_EncodeToString: "DecodeString (EncodeToString bs) = Some bs"
proof -
  have "filter (\<lambda>c. c \<noteq> CHR 0x0A \<and> c \<noteq> CHR 0x0D) (EncodeToString bs) = EncodeToString bs"
    by (auto simp: EncodeToString_groups filter_id_conv b64_char_no_break dest!: groups_range)
  moreover have "map b64_val (EncodeToString bs) = map Some (groups bs)"
    by (simp add: EncodeToString_groups groups_range)
  ultimately show ?thesis
    by (simp add: DecodeString_def all_some_Some decode_groups_groups)
qed

lemma EncodeToString_inject [simp]: "EncodeToString a = EncodeToString b \<longleftrightarrow> a = b"
  by (metis DecodeString_EncodeToString option.inject)

lemma EncodeToString_Nil [simp]: "EncodeToString bs = [] \<longleftrightarrow> bs = []"
  using EncodeToString_inject [of bs "[]"] by simp

section \<open>Big-endian numbers\<close>

text \<open>\<^verbatim>\<open>SetBytes\<close> and \<^verbatim>\<open>Bytes\<close> of a non-negative \<^verbatim>\<open>big.Int\<close>: no leading zero, no byte for 0.\<close>

definition SetBytes :: "byte list \<Rightarrow> nat" where
  "SetBytes bs = foldl (\<lambda>n b. 256 * n + unat b) 0 bs"

fun big_Bytes :: "nat \<Rightarrow> byte list" where
  "big_Bytes n = (if n = 0 then [] else big_Bytes (n div 256) @ [of_nat (n mod 256)])"

declare big_Bytes.simps [simp del]

lemma SetBytes_big_Bytes [simp]: "SetBytes (big_Bytes n) = n"
proof (induction n rule: big_Bytes.induct)
  case (1 n)
  show ?case
  proof (cases "n = 0")
    case False
    have "unat (of_nat (n mod 256) :: byte) = n mod 256" by (simp add: unat_of_nat take_bit_eq_mod)
    with 1 False show ?thesis by (simp add: big_Bytes.simps [of n] SetBytes_def)
  qed (simp add: big_Bytes.simps [of 0] SetBytes_def)
qed

section \<open>Hexadecimal\<close>

definition hex_char :: "nat \<Rightarrow> char" where
  "hex_char n = (if n < 10 then char_of (48 + n) else char_of (87 + n))"

definition hex_EncodeToString :: "byte list \<Rightarrow> string" where
  "hex_EncodeToString bs = concat (map (\<lambda>b. [hex_char (unat b div 16), hex_char (unat b mod 16)]) bs)"

lemma hex_EncodeToString_length: "length (hex_EncodeToString bs) = 2 * length bs"
  by (induction bs) (simp_all add: hex_EncodeToString_def)

end
