(* ===== verification/Rtr.thy ===== *)
theory Rtr
  imports Redis_Server Go_Json Go_Base64
begin

text \<open>
  Refresh token rotation (\<^verbatim>\<open>services/identity/internal/rtr/store.go\<close>): opaque tokens in families, the
  record of a token and the current token of a family in Redis, and the Lua script that swaps the
  current token or, on reuse, deletes the family. Random bytes are arguments. \<^verbatim>\<open>Rotate\<close> is two Redis
  round trips (a GET and the script) that other calls can come between; \<open>rtr_step\<close> interleaves them.
\<close>

datatype rtr_err = RtrInvalidToken | ErrReuseDetected | RtrRedis rerr | RtrJson | RtrUnexpected int

definition rtr_msg :: "rtr_err \<Rightarrow> string" where
  "rtr_msg e = (case e of
      RtrInvalidToken \<Rightarrow> ''invalid refresh token''
    | ErrReuseDetected \<Rightarrow> ''refresh token reuse detected; family revoked''
    | RtrUnexpected n \<Rightarrow> ''unexpected RTR script result: '' @ FormatInt n
    | _ \<Rightarrow> [])"

definition RefreshTokenTTL :: duration where "RefreshTokenTTL = 14 * 24 * Hour"

text \<open>The script's \<^verbatim>\<open>KEYS\<close> and \<^verbatim>\<open>ARGV\<close>; the fourth argument counts milliseconds.\<close>

definition rotateScript ::
  "string \<times> string \<times> string \<Rightarrow> string \<times> string \<times> string \<times> int \<times> string \<Rightarrow> script" where
  "rotateScript = (\<lambda>(key1, key2, key3) (arg1, arg2, arg3, arg4, arg5).
     Call (GET key3) (\<lambda>r. case r of
       RepStr current \<Rightarrow>
         if current \<noteq> arg1
         then Call (DEL [key3]) (\<lambda>_. Call (DEL [arg5 @ current]) (\<lambda>_. Return 0))
         else Call (SET key2 arg2 (arg4 * 10 ^ 6)) (\<lambda>_. Call (SET key3 arg3 (arg4 * 10 ^ 6)) (\<lambda>_. Return 1))
     | _ \<Rightarrow> Return (- 1)))"

record rtr_record =
  rec_user :: int
  rec_family :: string

definition rec_Marshal :: "rtr_record \<Rightarrow> string" where
  "rec_Marshal rec = print_json (JObj
     [(''user_id'', JNum (FormatInt (rec_user rec))), (''family'', JStr (rec_family rec))])"

definition rec_Unmarshal :: "string \<Rightarrow> rtr_record option" where
  "rec_Unmarshal raw = (case parse_doc raw of
      Some (JObj ms) \<Rightarrow> (case (int64_field ''user_id'' ms, string_field ''family'' ms) of
          (Some u, Some f) \<Rightarrow> Some \<lparr>rec_user = u, rec_family = f\<rparr> | _ \<Rightarrow> None)
    | Some JNull \<Rightarrow> Some \<lparr>rec_user = 0, rec_family = []\<rparr>
    | _ \<Rightarrow> None)"

text \<open>The opaque token of 32 random bytes.\<close>

definition newOpaqueToken :: "byte list \<Rightarrow> string" where
  "newOpaqueToken b = EncodeToString b"

definition tokenKey :: "string \<Rightarrow> string" where "tokenKey t = ''rt:token:'' @ t"
definition familyKey :: "string \<Rightarrow> string" where "familyKey f = ''rt:family:'' @ f"

definition rtr_save :: "'s redis \<Rightarrow> string \<Rightarrow> string \<Rightarrow> int \<Rightarrow> ('s, rtr_err, unit) action" where
  "rtr_save R tok fam userID =
     map_err RtrRedis (exec_tx R
       [SET (tokenKey tok) (rec_Marshal \<lparr>rec_user = userID, rec_family = fam\<rparr>) RefreshTokenTTL,
        SET (familyKey fam) tok RefreshTokenTTL])"

definition rtr_Issue :: "'s redis \<Rightarrow> byte list \<Rightarrow> byte list \<Rightarrow> int \<Rightarrow> ('s, rtr_err, string) action" where
  "rtr_Issue R tb fb userID =
     (let tok = newOpaqueToken tb; fam = newOpaqueToken fb in
      and_then (rtr_save R tok fam userID) (\<lambda>_. ok tok))"

text \<open>\<^verbatim>\<open>Rotate\<close> up to the unmarshalled record, from there on, and whole.\<close>

definition rtr_lookup :: "'s redis \<Rightarrow> string \<Rightarrow> ('s, rtr_err, rtr_record) action" where
  "rtr_lookup R oldToken =
     and_then (map_err RtrRedis (redis_get R (tokenKey oldToken))) (\<lambda>raw. case raw of
       None \<Rightarrow> fail RtrInvalidToken
     | Some raw' \<Rightarrow> (case rec_Unmarshal raw' of None \<Rightarrow> fail RtrJson | Some rec \<Rightarrow> ok rec))"

definition rtr_commit ::
  "'s redis \<Rightarrow> byte list \<Rightarrow> string \<Rightarrow> rtr_record \<Rightarrow> ('s, rtr_err, string \<times> int) action" where
  "rtr_commit R nb oldToken rec =
     (let newTok = newOpaqueToken nb; newRaw = rec_Marshal rec in
      and_then (map_err RtrRedis (run_lua R (rotateScript
        (tokenKey oldToken, tokenKey newTok, familyKey (rec_family rec))
        (oldToken, newRaw, newTok, Milliseconds RefreshTokenTTL, ''rt:token:'')))) (\<lambda>result.
      if result = 1 then ok (newTok, rec_user rec)
      else if result = 0 then fail ErrReuseDetected
      else if result = - 1 then fail RtrInvalidToken
      else fail (RtrUnexpected result)))"

definition rtr_Rotate :: "'s redis \<Rightarrow> byte list \<Rightarrow> string \<Rightarrow> ('s, rtr_err, string \<times> int) action" where
  "rtr_Rotate R nb oldToken = and_then (rtr_lookup R oldToken) (rtr_commit R nb oldToken)"

definition rtr_RevokeFamily :: "'s redis \<Rightarrow> string \<Rightarrow> string list \<Rightarrow> ('s, rtr_err, unit) action" where
  "rtr_RevokeFamily R family tokens =
     and_then (map_err RtrRedis (redis_int R
       (DEL (familyKey family # map tokenKey (filter (\<lambda>t. t \<noteq> []) tokens))))) (\<lambda>_. ok ())"

section \<open>Keys and records\<close>

lemma rtr_keys [simp, key_simps]:
  "tokenKey a = tokenKey b \<longleftrightarrow> a = b" "familyKey f = familyKey g \<longleftrightarrow> f = g"
  "tokenKey a \<noteq> familyKey f" "familyKey f \<noteq> tokenKey a"
  by (simp_all add: tokenKey_def familyKey_def)

lemma rec_Unmarshal_Marshal:
  assumes "in_int64 (rec_user rec)"
  shows "rec_Unmarshal (rec_Marshal rec) = Some rec"
proof -
  have "int_json (JObj [(''user_id'', JNum (FormatInt (rec_user rec))), (''family'', JStr (rec_family rec))])"
    by (rule int_json.intros) (auto intro: int_json.intros)
  note doc = parse_print [OF this]
  have names: "fold_name ''user_id'' \<noteq> fold_name ''family''" by code_simp
  show ?thesis using assms names unfolding rec_Unmarshal_def rec_Marshal_def doc
    by (simp add: int64_field_def string_field_def field_match_def
        ParseInt_FormatInt in_int64_def)
qed

section \<open>The script\<close>

lemma run_rotate:
  "run_script (rotateScript (k1, k2, k3) (old, raw, new, ms, ''rt:token:'')) t V = (case V t k3 of
      None \<Rightarrow> (Inr (- 1), V)
    | Some (RHash _) \<Rightarrow> (Inl WrongType, V)
    | Some (RStr cur) \<Rightarrow>
        if cur \<noteq> old then (Inr 0, effect (DEL [tokenKey cur]) t (effect (DEL [k3]) t V))
        else (Inr 1, vset k3 (until (t + ms * 10 ^ 6) (RStr new)) (vset k2 (until (t + ms * 10 ^ 6) (RStr raw)) V)))"
  unfolding tokenKey_def by (simp add: rotateScript_def split: option.splits rval.splits)

lemma rotate_family_after:
  "snd (run_script (rotateScript (k1, tokenKey new, familyKey f) (old, raw, new, ms, ''rt:token:'')) t V) t' (familyKey g) =
    (if g \<noteq> f then V t' (familyKey g)
     else case V t (familyKey f) of
       Some (RStr cur) \<Rightarrow> if cur \<noteq> old then None else until (t + ms * 10 ^ 6) (RStr new) t'
     | _ \<Rightarrow> V t' (familyKey f))"
  by (auto simp: run_rotate split: option.splits rval.splits)

lemma rotate_other:
  "k \<notin> insert k2 (insert k3 (range tokenKey)) \<Longrightarrow>
     snd (run_script (rotateScript (k1, k2, k3) (old, raw, new, ms, ''rt:token:'')) t V) t' k = V t' k"
  by (auto simp: run_rotate split: option.splits rval.splits)

abbreviation rotate_prog :: "byte list \<Rightarrow> string \<Rightarrow> rtr_record \<Rightarrow> script" where
  "rotate_prog nb old rec \<equiv> rotateScript
     (tokenKey old, tokenKey (newOpaqueToken nb), familyKey (rec_family rec))
     (old, rec_Marshal rec, newOpaqueToken nb, Milliseconds RefreshTokenTTL, ''rt:token:'')"

lemma rtr_commit_eq:
  "rtr_commit R nb old rec s = (case run_lua R (rotate_prog nb old rec) s of
      (Inl e, s') \<Rightarrow> (Inl (RtrRedis e), s')
    | (Inr n, s') \<Rightarrow> (if n = 1 then Inr (newOpaqueToken nb, rec_user rec)
        else if n = 0 then Inl ErrReuseDetected
        else if n = - 1 then Inl RtrInvalidToken else Inl (RtrUnexpected n), s'))"
  by (auto simp: rtr_commit_def Let_def and_then_def map_err_def ok_def fail_def split: prod.splits sum.splits)

lemma rotate_ttl: "Milliseconds RefreshTokenTTL * 10 ^ 6 = RefreshTokenTTL"
  by (simp add: RefreshTokenTTL_def duration_defs)

context redis_server
begin

lemma rtr_save_frame [frame_intros]:
  "{tokenKey tok, familyKey fam} \<subseteq> K \<Longrightarrow> frame view clock K (rtr_save R tok fam u)"
  unfolding rtr_save_def by (intro frame_intros) simp_all

lemma rtr_Issue_frame [frame_intros]:
  "{tokenKey (newOpaqueToken tb), familyKey (newOpaqueToken fb)} \<subseteq> K \<Longrightarrow> frame view clock K (rtr_Issue R tb fb u)"
  unfolding rtr_Issue_def Let_def by (intro frame_intros)

lemma rtr_lookup_frame [frame_intros]: "frame view clock K (rtr_lookup R tok)"
  unfolding rtr_lookup_def by (intro frame_intros)

lemma rotate_lua_frame:
  "insert (familyKey f) (range tokenKey) \<subseteq> K \<Longrightarrow>
     frame view clock K (run_lua R (rotateScript (k1, tokenKey n, familyKey f) (old, raw, new, ms, ''rt:token:'')))"
  unfolding frame_def
proof (intro allI impI)
  fix s r s'
  let ?p = "rotateScript (k1, tokenKey n, familyKey f) (old, raw, new, ms, ''rt:token:'')"
  assume sub: "insert (familyKey f) (range tokenKey) \<subseteq> K" and run: "run_lua R ?p s = (r, s')"
  have "evolves view clock (\<lambda>_ V. V) s s' \<or> evolves view clock (\<lambda>t V. snd (run_script ?p t V)) s s'"
    using run by (cases r) (auto dest: lua_ok lua_err)
  moreover have "snd (run_script ?p t V) t' k = V t' k" if "k \<notin> K" for t V t' k
    using that sub by (intro rotate_other) auto
  ultimately show "only_keys view clock K s s'" by (auto simp: evolves_def only_keys_def)
qed

lemma rtr_commit_frame [frame_intros]:
  "insert (familyKey (rec_family rec)) (range tokenKey) \<subseteq> K \<Longrightarrow> frame view clock K (rtr_commit R nb old rec)"
  unfolding rtr_commit_def Let_def by (intro frame_intros rotate_lua_frame)

lemma rtr_Rotate_frame [frame_intros]:
  "range familyKey \<union> range tokenKey \<subseteq> K \<Longrightarrow> frame view clock K (rtr_Rotate R nb old)"
  unfolding rtr_Rotate_def by (intro frame_intros) auto

lemma rtr_RevokeFamily_frame [frame_intros]:
  "range familyKey \<union> range tokenKey \<subseteq> K \<Longrightarrow> frame view clock K (rtr_RevokeFamily R fam toks)"
  unfolding rtr_RevokeFamily_def by (intro frame_intros) auto

end

section \<open>One session\<close>

text \<open>A family whose current token is \<open>tok\<close>, of user \<open>u\<close>, at least until time \<open>d\<close>.\<close>

definition live_session ::
  "('s \<Rightarrow> rview) \<Rightarrow> ('s \<Rightarrow> int) \<Rightarrow> string \<Rightarrow> int \<Rightarrow> string \<Rightarrow> int \<Rightarrow> 's \<Rightarrow> bool" where
  "live_session view clock fam u tok d s \<longleftrightarrow> (\<forall>t \<ge> clock s. t < d \<longrightarrow>
     view s t (tokenKey tok) = Some (RStr (rec_Marshal \<lparr>rec_user = u, rec_family = fam\<rparr>)) \<and>
     view s t (familyKey fam) = Some (RStr tok))"

definition revoked :: "('s \<Rightarrow> rview) \<Rightarrow> ('s \<Rightarrow> int) \<Rightarrow> string \<Rightarrow> 's \<Rightarrow> bool" where
  "revoked view clock fam s \<longleftrightarrow> (\<forall>t \<ge> clock s. view s t (familyKey fam) = None)"

abbreviation rt_keys :: "string set" where
  "rt_keys \<equiv> range tokenKey \<union> range familyKey"

lemma live_session_only_keys:
  "live_session view clock fam u tok d s \<Longrightarrow> only_keys view clock K s s' \<Longrightarrow>
     tokenKey tok \<notin> K \<Longrightarrow> familyKey fam \<notin> K \<Longrightarrow> live_session view clock fam u tok d s'"
  by (simp add: live_session_def only_keys_def)

lemma revoked_only_keys:
  "revoked view clock fam s \<Longrightarrow> only_keys view clock K s s' \<Longrightarrow> familyKey fam \<notin> K \<Longrightarrow> revoked view clock fam s'"
  by (simp add: revoked_def only_keys_def)

context redis_server
begin

lemma issue_live:
  assumes "rtr_Issue R tb fb u s = (Inr tok, s')"
  shows "tok = newOpaqueToken tb"
    and "live_session view clock (newOpaqueToken fb) u tok (clock s' + RefreshTokenTTL) s'"
proof -
  from assms obtain x where tok: "tok = newOpaqueToken tb"
    and tx: "exec_tx R
       [SET (tokenKey tok) (rec_Marshal \<lparr>rec_user = u, rec_family = newOpaqueToken fb\<rparr>) RefreshTokenTTL,
        SET (familyKey (newOpaqueToken fb)) tok RefreshTokenTTL] s = (Inr x, s')"
    by (auto simp: rtr_Issue_def rtr_save_def Let_def ok_def elim!: and_then_InrE map_err_InrE)
  show "tok = newOpaqueToken tb" by (fact tok)
  from tx_ok [OF tx] show "live_session view clock (newOpaqueToken fb) u tok (clock s' + RefreshTokenTTL) s'"
    by (simp add: live_session_def evolves_def until_eq)
qed

lemma lookup_InrE:
  assumes "rtr_lookup R old s = (Inr rec, s1)"
  obtains raw where "view s (clock s1) (tokenKey old) = Some (RStr raw)" and "rec_Unmarshal raw = Some rec"
    and "evolves view clock (\<lambda>_ V. V) s s1"
proof -
  from assms obtain raw where get: "redis_get R (tokenKey old) s = (Inr (Some raw), s1)"
    and rec: "rec_Unmarshal raw = Some rec"
    by (auto simp: rtr_lookup_def ok_def fail_def elim!: and_then_InrE map_err_InrE split: option.splits)
  from redis_get_InrD [OF get] rec that show ?thesis by simp
qed

lemma commit_effect:
  assumes "rtr_commit R nb old rec s = (r, s')"
  shows "evolves view clock (\<lambda>_ V. V) s s' \<and> isl r \<or>
    evolves view clock (\<lambda>t V. snd (run_script (rotate_prog nb old rec) t V)) s s' \<and>
    (\<forall>x. r = Inr x \<longrightarrow> x = (newOpaqueToken nb, rec_user rec) \<and>
       view s (clock s') (familyKey (rec_family rec)) = Some (RStr old))"
proof -
  let ?p = "rotate_prog nb old rec"
  obtain q s1 where run: "run_lua R ?p s = (q, s1)" by fastforce
  show ?thesis
  proof (cases q)
    case (Inl e)
    with run assms lua_err [of ?p s e s1] show ?thesis by (auto simp: rtr_commit_eq)
  next
    case (Inr n)
    with run assms have "s1 = s'" and success: "\<forall>x. r = Inr x \<longrightarrow> n = 1 \<and> x = (newOpaqueToken nb, rec_user rec)"
      by (auto simp: rtr_commit_eq split: if_splits)
    moreover have "fst (run_script ?p (clock s1) (view s)) = Inr n"
      and "evolves view clock (\<lambda>t V. snd (run_script ?p t V)) s s1"
      using lua_ok [of ?p s n s1] run Inr by auto
    ultimately show ?thesis
      by (auto simp: run_rotate split: option.splits rval.splits if_splits)
  qed
qed

lemma commit_InrD:
  assumes "rtr_commit R nb old rec s = (Inr x, s')"
  shows "x = (newOpaqueToken nb, rec_user rec)"
    and "view s (clock s') (familyKey (rec_family rec)) = Some (RStr old)"
    and "live_session view clock (rec_family rec) (rec_user rec) (newOpaqueToken nb)
      (clock s' + RefreshTokenTTL) s'"
proof -
  note eff = commit_effect [OF assms]
  from eff show x: "x = (newOpaqueToken nb, rec_user rec)"
    and cur: "view s (clock s') (familyKey (rec_family rec)) = Some (RStr old)" by auto
  from eff cur show "live_session view clock (rec_family rec) (rec_user rec) (newOpaqueToken nb)
      (clock s' + RefreshTokenTTL) s'"
    using rotate_ttl by (cases rec) (auto simp: live_session_def evolves_def run_rotate until_eq)
qed

text \<open>A revoked family stays revoked.\<close>

lemma commit_revoked:
  assumes "revoked view clock fam s" and "rtr_commit R nb old rec s = (r, s')"
  shows "revoked view clock fam s'" and "rec_family rec = fam \<Longrightarrow> isl r"
proof -
  note eff = commit_effect [OF assms(2)]
  then have mono: "clock s \<le> clock s'" by (auto simp: evolves_def)
  with assms(1) have none: "view s t (familyKey fam) = None" if "clock s' \<le> t" for t
    using that by (simp add: revoked_def)
  with eff show "revoked view clock fam s'"
    by (auto simp: revoked_def evolves_def rotate_family_after)
  show "isl r" if "rec_family rec = fam"
    using eff none [of "clock s'"] that by (cases r) auto
qed

end

context redis_reliable
begin

lemma lookup_live:
  assumes "rtr_lookup R old s = (q, s1)" and "in_int64 (rec_user rec)"
    and "view s (clock s1) (tokenKey old) = Some (RStr (rec_Marshal rec))"
  shows "q = Inr rec" and "evolves view clock (\<lambda>_ V. V) s s1"
proof -
  obtain g s2 where get: "redis_get R (tokenKey old) s = (g, s2)" by fastforce
  with assms(1) have s2: "s2 = s1"
    by (auto simp: rtr_lookup_def and_then_def map_err_def ok_def fail_def split: sum.splits option.splits)
  with redis_get_result [OF get] assms(3) have g: "g = Inr (Some (rec_Marshal rec))" by simp
  with get assms(1,2) s2 show "q = Inr rec"
    by (simp add: rtr_lookup_def and_then_def map_err_def ok_def rec_Unmarshal_Marshal)
  from redis_get_result(1) [OF get] s2 show "evolves view clock (\<lambda>_ V. V) s s1" by simp
qed

lemma lookup_only_keys: "rtr_lookup R old s = (q, s1) \<Longrightarrow> only_keys view clock {} s s1"
  by (rule frameD [OF rtr_lookup_frame])

lemma commit_result:
  assumes "rtr_commit R nb old rec s = (r, s')"
  shows "view s (clock s') (familyKey (rec_family rec)) = Some (RStr old) \<Longrightarrow>
      r = Inr (newOpaqueToken nb, rec_user rec)"
    and "view s (clock s') (familyKey (rec_family rec)) = Some (RStr cur) \<Longrightarrow> cur \<noteq> old \<Longrightarrow>
      r = Inl ErrReuseDetected \<and> revoked view clock (rec_family rec) s' \<and>
      (\<forall>t \<ge> clock s'. view s' t (tokenKey cur) = None)"
    and "view s (clock s') (familyKey (rec_family rec)) = None \<Longrightarrow> r = Inl RtrInvalidToken"
proof -
  let ?p = "rotate_prog nb old rec"
  obtain q s1 where run: "run_lua R ?p s = (q, s1)" by fastforce
  with assms have s1: "s1 = s'"
    by (auto simp: rtr_commit_eq split: sum.splits)
  with run lua_answers [of ?p s] have q: "q = fst (run_script ?p (clock s') (view s))" by auto
  note res = assms [unfolded rtr_commit_eq]
  show "r = Inr (newOpaqueToken nb, rec_user rec)"
    if "view s (clock s') (familyKey (rec_family rec)) = Some (RStr old)"
    using res run q that by (simp add: run_rotate)
  show "r = Inl RtrInvalidToken" if "view s (clock s') (familyKey (rec_family rec)) = None"
    using res run q that by (simp add: run_rotate)
  assume cur: "view s (clock s') (familyKey (rec_family rec)) = Some (RStr cur)" "cur \<noteq> old"
  then have zero: "q = Inr 0" using q by (simp add: run_rotate)
  then have "evolves view clock (\<lambda>t V. snd (run_script ?p t V)) s s'"
    using lua_ok [of ?p s 0 s'] run s1 by simp
  then have "revoked view clock (rec_family rec) s' \<and> (\<forall>t \<ge> clock s'. view s' t (tokenKey cur) = None)"
    using cur by (simp add: revoked_def evolves_def run_rotate)
  moreover have "r = Inl ErrReuseDetected" using res run zero by simp
  ultimately show "r = Inl ErrReuseDetected \<and> revoked view clock (rec_family rec) s' \<and>
      (\<forall>t \<ge> clock s'. view s' t (tokenKey cur) = None)" by simp
qed

lemma rotate_unknown:
  assumes "rtr_Rotate R nb tok s = (r, s')" and "\<forall>t \<ge> clock s. view s t (tokenKey tok) = None"
  shows "r = Inl RtrInvalidToken"
proof -
  obtain g s1 where get: "redis_get R (tokenKey tok) s = (g, s1)" by fastforce
  have "clock s \<le> clock s1" using redis_get_result(1) [OF get] by (simp add: evolves_def)
  with redis_get_result(2) [OF get, of None] assms(2) have "g = Inr None" by simp
  with get assms(1) show ?thesis
    by (simp add: rtr_Rotate_def rtr_lookup_def and_then_def map_err_def fail_def)
qed

lemma rotate_split:
  assumes "rtr_Rotate R nb old s = (r, s')"
  obtains e where "rtr_lookup R old s = (Inl e, s')" and "r = Inl e"
  | rec s1 where "rtr_lookup R old s = (Inr rec, s1)" and "rtr_commit R nb old rec s1 = (r, s')"
  using assms by (cases "rtr_lookup R old s"; cases "fst (rtr_lookup R old s)")
    (auto simp: rtr_Rotate_def and_then_def)

lemma rotate_live:
  assumes "live_session view clock fam u tok d s" and "in_int64 u"
    and "rtr_Rotate R nb tok s = (r, s')" and "clock s' < d"
  shows "r = Inr (newOpaqueToken nb, u)"
    and "live_session view clock fam u (newOpaqueToken nb) (clock s' + RefreshTokenTTL) s'"
proof -
  let ?rec = "\<lparr>rec_user = u, rec_family = fam\<rparr>"
  obtain q s1 where look: "rtr_lookup R tok s = (q, s1)" by fastforce
  have mono: "clock s \<le> clock s1" "clock s1 \<le> clock s'"
  proof -
    show "clock s \<le> clock s1" by (rule frame_clock [OF rtr_lookup_frame look])
    show "clock s1 \<le> clock s'" using assms(3)
      by (cases rule: rotate_split) (use look in \<open>auto dest: commit_effect simp: evolves_def\<close>)
  qed
  with assms(1,4) have "view s (clock s1) (tokenKey tok) = Some (RStr (rec_Marshal ?rec))"
    by (simp add: live_session_def)
  with lookup_live [OF look, of ?rec] assms(2) have q: "q = Inr ?rec" and same: "evolves view clock (\<lambda>_ V. V) s s1"
    by simp_all
  from assms(3) look q have commit: "rtr_commit R nb tok ?rec s1 = (r, s')"
    by (simp add: rtr_Rotate_def and_then_def)
  have "view s1 (clock s') (familyKey fam) = Some (RStr tok)"
    using assms(1,4) same mono by (simp add: live_session_def evolves_def)
  with commit_result(1) [OF commit] show r: "r = Inr (newOpaqueToken nb, u)" by simp
  from commit_InrD(3) [OF commit [unfolded r]]
  show "live_session view clock fam u (newOpaqueToken nb) (clock s' + RefreshTokenTTL) s'" by simp
qed

end

section \<open>Concurrent calls\<close>

text \<open>
  Clients call \<^verbatim>\<open>Issue\<close>, \<^verbatim>\<open>Rotate\<close> and \<^verbatim>\<open>RevokeFamily\<close> at the same time. A \<^verbatim>\<open>Rotate\<close> between its GET and its
  script is a pending call; the log holds the finished ones with the token they presented. A token
  drawn now was never drawn before (32 random bytes). Other clients of the server and time itself
  may change every key but the family keys.
\<close>

datatype rtr_event =
    EvIssue "byte list" "byte list" int
  | EvLookup nat string
  | EvCommit nat "byte list"
  | EvRevoke string "string list"

record 's rtr_conf =
  rc_store :: 's
  rc_pending :: "nat \<Rightarrow> (string \<times> rtr_record) option"
  rc_drawn :: "string list"
  rc_log :: "(string \<times> (rtr_err + string \<times> int)) list"

fun rtr_do :: "'s redis \<Rightarrow> rtr_event \<Rightarrow> 's rtr_conf \<Rightarrow> 's rtr_conf" where
  "rtr_do R (EvIssue tb fb u) c =
     c\<lparr>rc_store := snd (rtr_Issue R tb fb u (rc_store c)), rc_drawn := newOpaqueToken tb # rc_drawn c\<rparr>"
| "rtr_do R (EvLookup i old) c = (case rc_pending c i of
      Some _ \<Rightarrow> c
    | None \<Rightarrow> (case rtr_lookup R old (rc_store c) of
        (Inl e, s) \<Rightarrow> c\<lparr>rc_store := s, rc_log := (old, Inl e) # rc_log c\<rparr>
      | (Inr rec, s) \<Rightarrow> c\<lparr>rc_store := s, rc_pending := (rc_pending c)(i := Some (old, rec))\<rparr>))"
| "rtr_do R (EvCommit i nb) c = (case rc_pending c i of
      None \<Rightarrow> c
    | Some (old, rec) \<Rightarrow> (case rtr_commit R nb old rec (rc_store c) of
        (r, s) \<Rightarrow> c\<lparr>rc_store := s, rc_pending := (rc_pending c)(i := None),
          rc_drawn := newOpaqueToken nb # rc_drawn c, rc_log := (old, r) # rc_log c\<rparr>))"
| "rtr_do R (EvRevoke fam toks) c = c\<lparr>rc_store := snd (rtr_RevokeFamily R fam toks (rc_store c))\<rparr>"

fun fresh_event :: "rtr_event \<Rightarrow> string list \<Rightarrow> bool" where
  "fresh_event (EvIssue tb fb u) drawn = (newOpaqueToken tb \<notin> set drawn)"
| "fresh_event (EvCommit i nb) drawn = (newOpaqueToken nb \<notin> set drawn)"
| "fresh_event _ drawn = True"

inductive rtr_step :: "'s redis \<Rightarrow> ('s \<Rightarrow> rview) \<Rightarrow> ('s \<Rightarrow> int) \<Rightarrow> 's rtr_conf \<Rightarrow> 's rtr_conf \<Rightarrow> bool"
  for R view clock where
  call: "fresh_event ev (rc_drawn c) \<Longrightarrow> rtr_step R view clock c (rtr_do R ev c)"
| other: "only_keys view clock (- range familyKey) (rc_store c) s' \<Longrightarrow>
    rtr_step R view clock c (c\<lparr>rc_store := s'\<rparr>)"

text \<open>The tokens exchanged so far, and the invariant: what family keys can show was drawn, is not spent, and stands in one family only.\<close>

definition spent :: "(string \<times> (rtr_err + string \<times> int)) list \<Rightarrow> string list" where
  "spent log = map fst (filter (\<lambda>x. \<not> isl (snd x)) log)"

definition family_inv :: "('s \<Rightarrow> rview) \<Rightarrow> ('s \<Rightarrow> int) \<Rightarrow> 's \<Rightarrow> string set \<Rightarrow> string set \<Rightarrow> bool" where
  "family_inv view clock s drawn used \<longleftrightarrow> used \<subseteq> drawn \<and>
     (\<forall>f g t t' x. clock s \<le> t \<longrightarrow> clock s \<le> t' \<longrightarrow> view s t (familyKey f) = Some (RStr x) \<longrightarrow>
        x \<in> drawn \<and> x \<notin> used \<and> (view s t' (familyKey g) = Some (RStr x) \<longrightarrow> f = g))"

lemma family_inv_only_keys:
  assumes "family_inv view clock s drawn used" and "only_keys view clock K s s'"
    and "K \<inter> range familyKey = {}"
  shows "family_inv view clock s' drawn used"
proof -
  from assms(3) have "familyKey f \<notin> K" for f by blast
  with assms(2) have "clock s \<le> clock s'" "\<And>t f. clock s' \<le> t \<Longrightarrow> view s' t (familyKey f) = view s t (familyKey f)"
    by (auto simp: only_keys_def)
  with assms(1) show ?thesis unfolding family_inv_def by (metis order_trans)
qed

text \<open>A change of the store that only removes family values, or sets one family to a fresh token.\<close>

definition family_change :: "('s \<Rightarrow> rview) \<Rightarrow> ('s \<Rightarrow> int) \<Rightarrow> string \<Rightarrow> string \<Rightarrow> 's \<Rightarrow> 's \<Rightarrow> bool" where
  "family_change view clock f new s s' \<longleftrightarrow> clock s \<le> clock s' \<and>
     (\<forall>t \<ge> clock s'. \<forall>g x. view s' t (familyKey g) = Some x \<longrightarrow>
        view s t (familyKey g) = Some x \<or> g = f \<and> x = RStr new)"

lemma family_inv_change:
  assumes inv: "family_inv view clock s drawn used" and ch: "family_change view clock f new s s'"
    and "new \<notin> drawn"
  shows "family_inv view clock s' (insert new drawn) used"
  unfolding family_inv_def
proof (intro conjI allI impI)
  show "used \<subseteq> insert new drawn" using inv by (auto simp: family_inv_def)
  have old: "view s t (familyKey g) = Some (RStr x) \<or> g = f \<and> x = new"
    if "clock s' \<le> t" "view s' t (familyKey g) = Some (RStr x)" for t g x
    using ch that by (auto simp: family_change_def)
  have drawn: "x \<in> drawn \<and> x \<notin> used" if "clock s' \<le> t" "view s t (familyKey g) = Some (RStr x)" for t g x
    using inv ch that unfolding family_inv_def family_change_def by (meson order_trans)
  fix h g t t' x
  assume le: "clock s' \<le> t" "clock s' \<le> t'" and sh: "view s' t (familyKey h) = Some (RStr x)"
  from old [OF le(1) sh] drawn [OF le(1)] show "x \<in> insert new drawn" by blast
  from old [OF le(1) sh] drawn [OF le(1)] assms(3) inv show "x \<notin> used"
    by (auto simp: family_inv_def)
  assume sh': "view s' t' (familyKey g) = Some (RStr x)"
  have "clock s \<le> t" "clock s \<le> t'" using le ch by (auto simp: family_change_def)
  moreover note old [OF le(1) sh] old [OF le(2) sh'] drawn [OF le(1)] drawn [OF le(2)]
  ultimately show "h = g" using inv assms(3) unfolding family_inv_def by metis
qed

context redis_server
begin

lemma issue_change:
  assumes "rtr_Issue R tb fb u s = (r, s')"
  shows "family_change view clock (newOpaqueToken fb) (newOpaqueToken tb) s s'"
proof -
  let ?cs = "[SET (tokenKey (newOpaqueToken tb))
      (rec_Marshal \<lparr>rec_user = u, rec_family = newOpaqueToken fb\<rparr>) RefreshTokenTTL,
      SET (familyKey (newOpaqueToken fb)) (newOpaqueToken tb) RefreshTokenTTL]"
  obtain q where "exec_tx R ?cs s = (q, s')"
    using assms by (cases "exec_tx R ?cs s")
      (auto simp: rtr_Issue_def rtr_save_def Let_def and_then_def map_err_def ok_def split: sum.splits)
  then have "evolves view clock (\<lambda>_ V. V) s s' \<or> evolves view clock (effects ?cs) s s'"
    by (cases q) (auto dest: tx_ok tx_err)
  then show ?thesis
    by (auto simp: family_change_def evolves_def vset_def until_eq split: if_splits)
qed

lemma commit_change:
  assumes "rtr_commit R nb old rec s = (r, s')"
  shows "family_change view clock (rec_family rec) (newOpaqueToken nb) s s'"
  using commit_effect [OF assms]
proof (elim disjE conjE)
  assume "evolves view clock (\<lambda>t V. snd (run_script (rotate_prog nb old rec) t V)) s s'"
  then show ?thesis
    by (auto simp: family_change_def evolves_def rotate_family_after until_eq
        split: if_splits option.splits rval.splits)
qed (simp add: family_change_def evolves_def)

lemma revoke_removes:
  assumes "rtr_RevokeFamily R fam toks s = (r, s')"
  shows "clock s \<le> clock s'"
    and "clock s' \<le> t \<Longrightarrow> view s' t k = Some x \<Longrightarrow> view s t k = Some x"
proof -
  let ?c = "DEL (familyKey fam # map tokenKey (filter (\<lambda>t. t \<noteq> []) toks))"
  obtain q where "do_cmd R ?c s = (q, s')"
    using assms by (cases "do_cmd R ?c s")
      (auto simp: rtr_RevokeFamily_def redis_int_def and_then_def map_err_def ok_def fail_def
        split: sum.splits rreply.splits)
  then have ev: "evolves view clock (\<lambda>_ V. V) s s' \<or> evolves view clock (effect ?c) s s'"
    by (cases q) (auto dest: do_ok do_err)
  then show "clock s \<le> clock s'" by (auto simp: evolves_def)
  show "view s t k = Some x" if "clock s' \<le> t" "view s' t k = Some x"
    using ev that by (auto simp: evolves_def split: if_splits)
qed

lemma family_inv_revoke:
  "family_inv view clock s drawn used \<Longrightarrow> rtr_RevokeFamily R fam toks s = (r, s') \<Longrightarrow>
     family_inv view clock s' drawn used"
  using revoke_removes [of fam toks s r s'] unfolding family_inv_def by (meson order_trans)

text \<open>A successful exchange takes the presented token out of the only family that showed it.\<close>

lemma commit_spends:
  assumes inv: "family_inv view clock s drawn used" and run: "rtr_commit R nb old rec s = (Inr x, s')"
    and "newOpaqueToken nb \<notin> drawn"
  shows "old \<notin> used" and "family_inv view clock s' (insert (newOpaqueToken nb) drawn) (insert old used)"
proof -
  note inv' = family_inv_change [OF inv commit_change [OF run] assms(3)]
  note cur = commit_InrD(2) [OF run]
  have mono: "clock s \<le> clock s'" using commit_change [OF run] by (simp add: family_change_def)
  from inv cur mono show unused: "old \<notin> used" by (auto simp: family_inv_def)
  from inv cur mono have drawn: "old \<in> drawn" by (auto simp: family_inv_def)
  have gone: "view s' t (familyKey f) \<noteq> Some (RStr old)" if "clock s' \<le> t" for t f
  proof
    assume sh: "view s' t (familyKey f) = Some (RStr old)"
    have "old \<noteq> newOpaqueToken nb" using drawn assms(3) by blast
    with commit_change [OF run] sh that have "view s t (familyKey f) = Some (RStr old)"
      by (auto simp: family_change_def)
    with inv cur mono that have "f = rec_family rec" unfolding family_inv_def by (meson order_trans)
    moreover have "view s' t (familyKey (rec_family rec)) \<noteq> Some (RStr old)"
    proof -
      have "evolves view clock (\<lambda>t V. snd (run_script (rotate_prog nb old rec) t V)) s s'"
        using commit_effect [OF run] by simp
      with cur that \<open>old \<noteq> newOpaqueToken nb\<close> show ?thesis
        by (simp add: evolves_def rotate_family_after until_eq)
    qed
    ultimately show False using sh by simp
  qed
  from inv' drawn gone show "family_inv view clock s' (insert (newOpaqueToken nb) drawn) (insert old used)"
    unfolding family_inv_def by (metis insert_iff insert_subset)
qed

end

definition rtr_inv :: "('s \<Rightarrow> rview) \<Rightarrow> ('s \<Rightarrow> int) \<Rightarrow> 's rtr_conf \<Rightarrow> bool" where
  "rtr_inv view clock c \<longleftrightarrow> distinct (spent (rc_log c)) \<and>
     family_inv view clock (rc_store c) (set (rc_drawn c)) (set (spent (rc_log c)))"

lemma spent_simps [simp]:
  "spent [] = []" "spent ((old, Inl e) # log) = spent log" "spent ((old, Inr x) # log) = old # spent log"
  by (simp_all add: spent_def)

context redis_server
begin

lemma rtr_inv_do:
  assumes inv: "rtr_inv view clock c" and fresh: "fresh_event ev (rc_drawn c)"
  shows "rtr_inv view clock (rtr_do R ev c)"
proof (cases ev)
  case (EvIssue tb fb u)
  obtain r s' where run: "rtr_Issue R tb fb u (rc_store c) = (r, s')" by fastforce
  with family_inv_change [OF _ issue_change [OF run]] EvIssue inv fresh show ?thesis
    by (simp add: rtr_inv_def)
next
  case (EvLookup i old)
  obtain q s' where run: "rtr_lookup R old (rc_store c) = (q, s')" by fastforce
  have "family_inv view clock s' (set (rc_drawn c)) (set (spent (rc_log c)))"
    using inv family_inv_only_keys [OF _ frameD [OF rtr_lookup_frame [of "{}"] run]]
    by (simp add: rtr_inv_def)
  with EvLookup run inv show ?thesis
    by (auto simp: rtr_inv_def split: option.splits sum.splits)
next
  case (EvCommit i nb)
  show ?thesis
  proof (cases "rc_pending c i")
    case (Some p)
    obtain old rec where p: "p = (old, rec)" by fastforce
    obtain r s' where run: "rtr_commit R nb old rec (rc_store c) = (r, s')" by fastforce
    from EvCommit fresh have new: "newOpaqueToken nb \<notin> set (rc_drawn c)" by simp
    note fam = inv [unfolded rtr_inv_def, THEN conjunct2]
    show ?thesis
    proof (cases r)
      case (Inl e)
      with family_inv_change [OF fam commit_change [OF run] new] EvCommit Some p run inv show ?thesis
        by (simp add: rtr_inv_def)
    next
      case (Inr x)
      with commit_spends [OF fam run [unfolded Inr] new] EvCommit Some p run inv show ?thesis
        by (simp add: rtr_inv_def)
    qed
  qed (use EvCommit inv in simp)
next
  case (EvRevoke fam toks)
  obtain r s' where run: "rtr_RevokeFamily R fam toks (rc_store c) = (r, s')" by fastforce
  with family_inv_revoke [OF _ run] EvRevoke inv show ?thesis by (simp add: rtr_inv_def)
qed

lemma rtr_inv_step: "rtr_step R view clock c c' \<Longrightarrow> rtr_inv view clock c \<Longrightarrow> rtr_inv view clock c'"
proof (induction rule: rtr_step.induct)
  case (other c s')
  then show ?case
    by (auto simp: rtr_inv_def intro: family_inv_only_keys [where K = "- range familyKey"])
qed (rule rtr_inv_do)

lemma rtr_inv_reachable:
  "(rtr_step R view clock)\<^sup>*\<^sup>* c c' \<Longrightarrow> rtr_inv view clock c \<Longrightarrow> rtr_inv view clock c'"
  by (induction rule: rtranclp_induct) (auto intro: rtr_inv_step)

text \<open>Nothing but an \<^verbatim>\<open>Issue\<close> that draws the same family name brings a revoked family back.\<close>

lemma revoked_do:
  assumes "revoked view clock fam (rc_store c)" and "\<forall>tb fb u. ev = EvIssue tb fb u \<longrightarrow> newOpaqueToken fb \<noteq> fam"
  shows "revoked view clock fam (rc_store (rtr_do R ev c))"
proof (cases ev)
  case (EvIssue tb fb u)
  obtain r s' where run: "rtr_Issue R tb fb u (rc_store c) = (r, s')" by fastforce
  have "only_keys view clock {tokenKey (newOpaqueToken tb), familyKey (newOpaqueToken fb)} (rc_store c) s'"
    by (rule frameD [OF rtr_Issue_frame run]) simp
  from revoked_only_keys [OF assms(1) this] EvIssue assms(2) run show ?thesis by simp
next
  case (EvLookup i old)
  obtain q s' where run: "rtr_lookup R old (rc_store c) = (q, s')" by fastforce
  from revoked_only_keys [OF assms(1) frameD [OF rtr_lookup_frame [of "{}"] run]]
  have "revoked view clock fam s'" by simp
  with EvLookup run assms(1) show ?thesis by (auto split: option.splits sum.splits)
next
  case (EvCommit i nb)
  with assms(1) commit_revoked(1) [OF assms(1), of nb] show ?thesis
    by (auto split: option.splits prod.splits)
next
  case (EvRevoke f toks)
  obtain r s' where run: "rtr_RevokeFamily R f toks (rc_store c) = (r, s')" by fastforce
  have "view s' t (familyKey fam) = None" if "clock s' \<le> t" for t
  proof (cases "view s' t (familyKey fam)")
    case (Some x)
    from revoke_removes(2) [OF run that Some] assms(1) revoke_removes(1) [OF run] that show ?thesis
      by (simp add: revoked_def)
  qed
  with EvRevoke run show ?thesis by (simp add: revoked_def)
qed

lemma revoked_run:
  "revoked view clock fam (rc_store c) \<Longrightarrow>
     \<forall>tb fb u. EvIssue tb fb u \<in> set evs \<longrightarrow> newOpaqueToken fb \<noteq> fam \<Longrightarrow>
     revoked view clock fam (rc_store (fold (rtr_do R) evs c))"
proof (induction evs arbitrary: c)
  case (Cons ev evs)
  have "revoked view clock fam (rc_store (rtr_do R ev c))"
    using Cons.prems by (intro revoked_do) auto
  from Cons.IH [OF this] Cons.prems(2) show ?case by auto
qed simp

lemma reuse_detected_revokes:
  assumes "rtr_commit R nb old rec s = (Inl ErrReuseDetected, s')"
  shows "revoked view clock (rec_family rec) s'"
proof -
  obtain q s1 where run: "run_lua R (rotate_prog nb old rec) s = (q, s1)" by fastforce
  with assms have q: "q = Inr 0" and "s1 = s'" by (auto simp: rtr_commit_eq split: sum.splits if_splits)
  with run lua_ok [of "rotate_prog nb old rec" s 0 s']
  have "evolves view clock (\<lambda>t V. snd (run_script (rotate_prog nb old rec) t V)) s s'"
    and "fst (run_script (rotate_prog nb old rec) (clock s') (view s)) = Inr 0" by auto
  then show ?thesis
    by (auto simp: revoked_def evolves_def rotate_family_after run_rotate
        split: option.splits rval.splits if_splits)
qed

lemma rotate_revoked:
  assumes "revoked view clock fam s" and "rtr_lookup R tok s = (Inr rec, sl)" and "rec_family rec = fam"
    and "rtr_Rotate R nb tok s = (r, s')"
  shows "isl r"
proof -
  have "revoked view clock fam sl"
    using revoked_only_keys [OF assms(1) frameD [OF rtr_lookup_frame [of "{}"] assms(2)]] by simp
  moreover have "rtr_commit R nb tok rec sl = (r, s')"
    using assms(2,4) by (simp add: rtr_Rotate_def and_then_def)
  ultimately show ?thesis using commit_revoked(2) assms(3) by blast
qed

end

text \<open>Consecutive exchanges, each of the token that the one before returned.\<close>

fun rtr_chain :: "'s redis \<Rightarrow> byte list list \<Rightarrow> string \<Rightarrow> ('s, rtr_err, (string \<times> int) list) action" where
  "rtr_chain R [] tok = ok []"
| "rtr_chain R (nb # nbs) tok =
     and_then (rtr_Rotate R nb tok) (\<lambda>(new, u).
     and_then (rtr_chain R nbs new) (\<lambda>rest. ok ((new, u) # rest)))"

context redis_reliable
begin

lemma chain_frame: "frame view clock rt_keys (rtr_chain R nbs tok)"
  by (induction nbs arbitrary: tok) (auto intro!: frame_intros split: prod.splits)

lemma chain_live:
  assumes "live_session view clock fam u tok d s" and "in_int64 u"
    and "rtr_chain R nbs tok s = (r, s')" and "clock s' < d" and "clock s' < clock s + RefreshTokenTTL"
  shows "r = Inr (map (\<lambda>nb. (newOpaqueToken nb, u)) nbs)"
  using assms
proof (induction nbs arbitrary: tok d s r)
  case (Cons nb nbs)
  obtain q s1 where run: "rtr_Rotate R nb tok s = (q, s1)" by fastforce
  have c1: "clock s \<le> clock s1" by (rule frame_clock [OF rtr_Rotate_frame run]) (rule subset_refl)
  obtain x s2 where rest: "rtr_chain R nbs (newOpaqueToken nb) s1 = (x, s2)" by fastforce
  have c2: "clock s1 \<le> clock s2" by (rule frame_clock [OF chain_frame rest])
  have s1: "clock s1 < d"
  proof (cases q)
    case (Inl e)
    with Cons.prems(3,4) run show ?thesis by (simp add: and_then_def)
  next
    case (Inr y)
    then have "q = Inr (fst y, snd y)" by simp
    with Cons.prems(3,4) run frame_clock [OF chain_frame, of nbs "fst y" s1] show ?thesis
      by (fastforce simp: and_then_def ok_def split: prod.splits sum.splits)
  qed
  note one = rotate_live [OF Cons.prems(1,2) run s1]
  have s2: "s2 = s'" using Cons.prems(3) run one(1) rest
    by (auto simp: and_then_def ok_def split: sum.splits)
  have "x = Inr (map (\<lambda>nb. (newOpaqueToken nb, u)) nbs)"
  proof (rule Cons.IH [OF one(2) Cons.prems(2)])
    show "rtr_chain R nbs (newOpaqueToken nb) s1 = (x, s')" using rest s2 by simp
    show "clock s' < clock s1 + RefreshTokenTTL" using Cons.prems(5) c1 by simp
    then show "clock s' < clock s1 + RefreshTokenTTL" .
  qed
  with Cons.prems(3) run one(1) rest s2 show ?case by (simp add: and_then_def ok_def)
qed (simp add: ok_def)

end

subsection \<open>The tokens of one session\<close>

text \<open>
  A session as its client sees it: a login, then exchanges of the token received last. The list holds the tokens with the
  end of their lifetime, the current one first. In between, everybody else may do anything that leaves the keys of this session
  alone: log in, exchange and revoke tokens of other sessions, let time pass.
\<close>

definition session_keys :: "string \<Rightarrow> (string \<times> int) list \<Rightarrow> string set" where
  "session_keys fam toks = insert (familyKey fam) (tokenKey ` fst ` set toks)"

inductive session :: "'s redis \<Rightarrow> ('s \<Rightarrow> rview) \<Rightarrow> ('s \<Rightarrow> int) \<Rightarrow> string \<Rightarrow> int \<Rightarrow> (string \<times> int) list \<Rightarrow> 's \<Rightarrow> bool"
  for R view clock fam u where
  login: "rtr_Issue R tb fb u s = (Inr tok, s') \<Longrightarrow> fam = newOpaqueToken fb \<Longrightarrow>
    session R view clock fam u [(tok, clock s' + RefreshTokenTTL)] s'"
| exchange: "session R view clock fam u ((tok, d) # toks) s \<Longrightarrow> rtr_Rotate R nb tok s = (Inr (new, v), s') \<Longrightarrow>
    new \<notin> fst ` set ((tok, d) # toks) \<Longrightarrow>
    session R view clock fam u ((new, clock s' + RefreshTokenTTL) # (tok, d) # toks) s'"
| others: "session R view clock fam u toks s \<Longrightarrow> only_keys view clock (- session_keys fam toks) s s' \<Longrightarrow>
    session R view clock fam u toks s'"

definition session_inv ::
  "('s \<Rightarrow> rview) \<Rightarrow> ('s \<Rightarrow> int) \<Rightarrow> string \<Rightarrow> int \<Rightarrow> (string \<times> int) list \<Rightarrow> 's \<Rightarrow> bool" where
  "session_inv view clock fam u toks s \<longleftrightarrow> toks \<noteq> [] \<and> distinct (map fst toks) \<and> (\<forall>t \<ge> clock s.
     (\<forall>(tok, e) \<in> set toks. view s t (tokenKey tok) = until e (RStr (rec_Marshal \<lparr>rec_user = u, rec_family = fam\<rparr>)) t) \<and>
     view s t (familyKey fam) = until (snd (hd toks)) (RStr (fst (hd toks))) t)"

lemma session_inv_record:
  "session_inv view clock fam u toks s \<Longrightarrow> (tok, e) \<in> set toks \<Longrightarrow> clock s \<le> t \<Longrightarrow>
     view s t (tokenKey tok) = until e (RStr (rec_Marshal \<lparr>rec_user = u, rec_family = fam\<rparr>)) t"
  by (auto simp: session_inv_def)

lemma session_inv_only_keys:
  assumes "session_inv view clock fam u toks s" and "only_keys view clock (- session_keys fam toks) s s'"
  shows "session_inv view clock fam u toks s'"
proof -
  from assms(2) have le: "clock s \<le> clock s'" and same: "view s' t k = view s t k" if "clock s' \<le> t" "k \<in> session_keys fam toks" for t k
    using that by (simp_all add: only_keys_def)
  have "view s' t (tokenKey tok) = until e (RStr (rec_Marshal \<lparr>rec_user = u, rec_family = fam\<rparr>)) t"
    if "(tok, e) \<in> set toks" "clock s' \<le> t" for tok e t
  proof -
    have "tokenKey tok \<in> session_keys fam toks" using that(1) by (force simp: session_keys_def)
    from same [OF that(2) this] le [OF that(2) this] session_inv_record [OF assms(1) that(1)] that(2) show ?thesis by simp
  qed
  moreover have "view s' t (familyKey fam) = view s t (familyKey fam) \<and> clock s \<le> t" if "clock s' \<le> t" for t
    using same [OF that, of "familyKey fam"] le [OF that, of "familyKey fam"] that by (simp add: session_keys_def)
  ultimately show ?thesis using assms(1) by (auto simp: session_inv_def)
qed

context redis_server
begin

text \<open>What the lookup of a token of the session finds.\<close>

lemma session_lookup:
  assumes "session_inv view clock fam u toks s" and "(tok, e) \<in> set toks" and "in_int64 u"
    and "rtr_lookup R tok s = (Inr rec, s1)"
  shows "rec = \<lparr>rec_user = u, rec_family = fam\<rparr>" and "evolves view clock (\<lambda>_ V. V) s s1"
proof -
  from assms(4) obtain raw where raw: "view s (clock s1) (tokenKey tok) = Some (RStr raw)" "rec_Unmarshal raw = Some rec"
    and same: "evolves view clock (\<lambda>_ V. V) s s1" by (rule lookup_InrE)
  have "clock s \<le> clock s1" using same by (simp add: evolves_def)
  then have "raw = rec_Marshal \<lparr>rec_user = u, rec_family = fam\<rparr>"
    using session_inv_record [OF assms(1,2)] raw(1) by (fastforce simp: until_eq split: if_splits)
  with raw(2) rec_Unmarshal_Marshal [of "\<lparr>rec_user = u, rec_family = fam\<rparr>"] assms(3)
  show "rec = \<lparr>rec_user = u, rec_family = fam\<rparr>" by simp
  from same show "evolves view clock (\<lambda>_ V. V) s s1" .
qed

lemma session_inv_exchange:
  assumes inv: "session_inv view clock fam u ((tok, d) # toks) s" and "in_int64 u"
    and run: "rtr_Rotate R nb tok s = (Inr (new, v), s')" and new: "new \<notin> fst ` set ((tok, d) # toks)"
  shows "session_inv view clock fam u ((new, clock s' + RefreshTokenTTL) # (tok, d) # toks) s'"
proof -
  from run obtain rec s1 where look: "rtr_lookup R tok s = (Inr rec, s1)" and commit: "rtr_commit R nb tok rec s1 = (Inr (new, v), s')"
    by (auto simp: rtr_Rotate_def elim!: and_then_InrE)
  have rec: "rec = \<lparr>rec_user = u, rec_family = fam\<rparr>" and same: "evolves view clock (\<lambda>_ V. V) s s1"
    using session_lookup [OF inv _ assms(2) look, of d] by simp_all
  note eff = commit_effect [OF commit] commit_InrD(1,2) [OF commit]
  then have ev: "evolves view clock (\<lambda>t V. snd (run_script (rotate_prog nb tok rec) t V)) s1 s'"
    and nb: "new = newOpaqueToken nb" and cur: "view s1 (clock s') (familyKey fam) = Some (RStr tok)" by (auto simp: rec)
  have after: "view s' t k = vset (familyKey fam) (until (clock s' + RefreshTokenTTL) (RStr new))
      (vset (tokenKey new) (until (clock s' + RefreshTokenTTL) (RStr (rec_Marshal rec))) (view s)) t k" if "clock s' \<le> t" for t k
    using ev cur same that rotate_ttl by (simp add: evolves_def run_rotate nb rec vset_def)
  have le: "clock s \<le> clock s'" using ev same by (simp add: evolves_def)
  have "view s' t (tokenKey x) = until e (RStr (rec_Marshal rec)) t" if "(x, e) \<in> set ((tok, d) # toks)" "clock s' \<le> t" for x e t
  proof -
    have "x \<noteq> new" using that(1) new by force
    with after [OF that(2)] session_inv_record [OF inv that(1)] le that(2) show ?thesis by (simp add: rec vset_def)
  qed
  with after inv new show ?thesis by (fastforce simp: session_inv_def rec vset_def)
qed

lemma session_invariant:
  "session R view clock fam u toks s \<Longrightarrow> in_int64 u \<Longrightarrow> session_inv view clock fam u toks s"
proof (induction rule: session.induct)
  case (login tb fb s tok s')
  then obtain x where tok: "tok = newOpaqueToken tb"
    and tx: "exec_tx R [SET (tokenKey tok) (rec_Marshal \<lparr>rec_user = u, rec_family = fam\<rparr>) RefreshTokenTTL,
        SET (familyKey fam) tok RefreshTokenTTL] s = (Inr x, s')"
    by (auto simp: rtr_Issue_def rtr_save_def Let_def ok_def elim!: and_then_InrE map_err_InrE)
  from tx_ok [OF tx] show ?case by (simp add: session_inv_def evolves_def)
next
  case (exchange tok d toks s nb new v s')
  then show ?case by (intro session_inv_exchange)
next
  case (others toks s s')
  then show ?case by (blast intro: session_inv_only_keys)
qed

end

context redis_reliable
begin

lemma session_lookup_result:
  assumes "session_inv view clock fam u toks s" and "(tok, e) \<in> set toks" and "in_int64 u"
    and "rtr_lookup R tok s = (q, s1)"
  shows "q = (if clock s1 < e then Inr \<lparr>rec_user = u, rec_family = fam\<rparr> else Inl RtrInvalidToken)"
    and "evolves view clock (\<lambda>_ V. V) s s1"
proof -
  obtain g s2 where get: "redis_get R (tokenKey tok) s = (g, s2)" by fastforce
  with assms(4) have s2: "s2 = s1"
    by (auto simp: rtr_lookup_def and_then_def map_err_def ok_def fail_def split: sum.splits option.splits)
  note same = redis_get_result(1) [OF get, unfolded s2]
  then have "view s (clock s1) (tokenKey tok) = map_option RStr
      (if clock s1 < e then Some (rec_Marshal \<lparr>rec_user = u, rec_family = fam\<rparr>) else None)"
    using session_inv_record [OF assms(1,2)] by (simp add: evolves_def until_eq)
  from redis_get_result(2) [OF get, unfolded s2, OF this] get s2 assms(3,4)
  show "q = (if clock s1 < e then Inr \<lparr>rec_user = u, rec_family = fam\<rparr> else Inl RtrInvalidToken)"
    by (auto simp: rtr_lookup_def and_then_def map_err_def ok_def fail_def rec_Unmarshal_Marshal)
  from same show "evolves view clock (\<lambda>_ V. V) s s1" .
qed

lemma session_replay:
  assumes inv: "session_inv view clock fam u ((cur, d) # toks) s" and "in_int64 u" and old: "(tok, e) \<in> set toks"
    and run: "rtr_Rotate R nb tok s = (r, s')" and "clock s' < e" "clock s' < d"
  shows "r = Inl ErrReuseDetected" and "revoked view clock fam s'"
    and "clock s' \<le> t \<Longrightarrow> view s' t (tokenKey cur) = None"
    and "clock s' \<le> t \<Longrightarrow> x \<noteq> cur \<Longrightarrow> view s' t (tokenKey x) = view s t (tokenKey x)"
proof -
  obtain q s1 where look: "rtr_lookup R tok s = (q, s1)" by fastforce
  have "clock s1 \<le> clock s'" using run
    by (cases rule: rotate_split) (use look in \<open>auto dest: commit_effect simp: evolves_def\<close>)
  with session_lookup_result [OF inv _ assms(2) look, of e] old assms(5)
  have q: "q = Inr \<lparr>rec_user = u, rec_family = fam\<rparr>" and same: "evolves view clock (\<lambda>_ V. V) s s1" by auto
  with run look have commit: "rtr_commit R nb tok \<lparr>rec_user = u, rec_family = fam\<rparr> s1 = (r, s')"
    by (simp add: rtr_Rotate_def and_then_def)
  have "cur \<noteq> tok" using inv old by (force simp: session_inv_def)
  moreover have "view s1 (clock s') (familyKey fam) = Some (RStr cur)"
    using inv same assms(6) \<open>clock s1 \<le> clock s'\<close> by (simp add: session_inv_def evolves_def until_eq)
  ultimately have res: "r = Inl ErrReuseDetected \<and> revoked view clock fam s' \<and> (\<forall>t \<ge> clock s'. view s' t (tokenKey cur) = None)"
    and fam: "view s1 (clock s') (familyKey fam) = Some (RStr cur)" "cur \<noteq> tok"
    using commit_result(2) [OF commit, of cur] by auto
  from res show "r = Inl ErrReuseDetected" "revoked view clock fam s'"
    and "clock s' \<le> t \<Longrightarrow> view s' t (tokenKey cur) = None" by auto
  have "evolves view clock (\<lambda>t V. snd (run_script (rotate_prog nb tok \<lparr>rec_user = u, rec_family = fam\<rparr>) t V)) s1 s' \<or>
      evolves view clock (\<lambda>_ V. V) s1 s'" using commit_effect [OF commit] by auto
  then show "view s' t (tokenKey x) = view s t (tokenKey x)" if "clock s' \<le> t" "x \<noteq> cur"
    using fam same that \<open>clock s1 \<le> clock s'\<close> by (auto simp: evolves_def run_rotate)
qed

text \<open>A session whose family is gone: whatever is left of its records, no token of it is good any more.\<close>

lemma session_over:
  assumes "revoked view clock fam s" and "in_int64 u"
    and rec: "\<And>t. clock s \<le> t \<Longrightarrow> view s t (tokenKey tok) \<in> {None, Some (RStr (rec_Marshal \<lparr>rec_user = u, rec_family = fam\<rparr>))}"
    and run: "rtr_Rotate R nb tok s = (r, s')"
  shows "r = Inl RtrInvalidToken"
proof -
  obtain g s1 where get: "redis_get R (tokenKey tok) s = (g, s1)" by fastforce
  have le: "clock s \<le> clock s1" using redis_get_result(1) [OF get] by (simp add: evolves_def)
  from rec [OF this] consider "view s (clock s1) (tokenKey tok) = map_option RStr None"
    | "view s (clock s1) (tokenKey tok) = map_option RStr (Some (rec_Marshal \<lparr>rec_user = u, rec_family = fam\<rparr>))" by auto
  then show ?thesis
  proof cases
    case 1
    from redis_get_result(2) [OF get this] get run show ?thesis
      by (simp add: rtr_Rotate_def rtr_lookup_def and_then_def map_err_def fail_def)
  next
    case 2
    from redis_get_result(2) [OF get this] get run assms(2)
    have commit: "rtr_commit R nb tok \<lparr>rec_user = u, rec_family = fam\<rparr> s1 = (r, s')"
      by (simp add: rtr_Rotate_def rtr_lookup_def and_then_def map_err_def ok_def rec_Unmarshal_Marshal)
    have "clock s1 \<le> clock s'" using commit_effect [OF commit] by (auto simp: evolves_def)
    with redis_get_result(1) [OF get] assms(1) le have "view s1 (clock s') (familyKey fam) = None"
      by (simp add: revoked_def evolves_def)
    with commit_result(3) [OF commit] show ?thesis by simp
  qed
qed

end

section \<open>Properties\<close>

text \<open>
  C24. A session lasts: after a login, any number of consecutive exchanges within the two weeks all
  succeed, each returning the token it drew and the user who logged in, on a server that answers.
\<close>

theorem rtr_session:
  assumes "redis_reliable R view clock" and "in_int64 u"
    and "rtr_Issue R tb fb u s = (Inr tok, s1)"
    and "only_keys view clock (- rt_keys) s1 s2"
    and "rtr_chain R nbs tok s2 = (r, s3)" and "clock s3 < clock s1 + RefreshTokenTTL"
  shows "r = Inr (map (\<lambda>nb. (newOpaqueToken nb, u)) nbs)"
proof -
  have server: "redis_server R view clock" using assms(1) by (rule redis_reliable.axioms(1))
  note live = redis_server.issue_live(2) [OF server assms(3)]
  have "live_session view clock (newOpaqueToken fb) u tok (clock s1 + RefreshTokenTTL) s2"
    by (rule live_session_only_keys [OF live assms(4)]) simp_all
  moreover have "clock s3 < clock s2 + RefreshTokenTTL" using assms(4,6) by (simp add: only_keys_def)
  ultimately show ?thesis
    using redis_reliable.chain_live [OF assms(1) _ assms(2,5)] assms(6) by blast
qed

text \<open>Concrete calls on the store with deadlines: a login and an exchange.\<close>

definition login_mem :: mem where
  "login_mem = snd (rtr_Issue mem_redis [1] [2] 7 \<lparr>m_now = 0, m_store = (\<lambda>_. None)\<rparr>)"

definition rotated_mem :: mem where
  "rotated_mem = snd (rtr_Rotate mem_redis [3] (newOpaqueToken [1]) login_mem)"

lemma rtr_login:
  "rtr_Issue mem_redis [1] [2] 7 \<lparr>m_now = 0, m_store = (\<lambda>_. None)\<rparr> = (Inr (newOpaqueToken [1]), login_mem)"
proof -
  have "fst (rtr_Issue mem_redis [1] [2] 7 \<lparr>m_now = 0, m_store = (\<lambda>_. None)\<rparr>) = Inr (newOpaqueToken [1])"
    by code_simp
  then show ?thesis by (simp add: login_mem_def prod_eq_iff)
qed

lemma rtr_rotated:
  "rtr_Rotate mem_redis [3] (newOpaqueToken [1]) login_mem = (Inr (newOpaqueToken [3], 7), rotated_mem)"
proof -
  have "fst (rtr_Rotate mem_redis [3] (newOpaqueToken [1]) login_mem) = Inr (newOpaqueToken [3], 7)"
    by code_simp
  then show ?thesis by (simp add: rotated_mem_def prod_eq_iff)
qed

theorem rtr_session_witness:
  "fst (rtr_chain mem_redis [[3], [5]] (newOpaqueToken [1]) login_mem) =
     Inr [(newOpaqueToken [3], 7), (newOpaqueToken [5], 7)]"
proof -
  let ?run = "rtr_chain mem_redis [[3], [5]] (newOpaqueToken [1]) login_mem"
  have "in_int64 7" by code_simp
  moreover have "?run = (fst ?run, snd ?run)" by simp
  moreover have "m_now (snd ?run) < m_now login_mem + RefreshTokenTTL" by code_simp
  ultimately show ?thesis
    using rtr_session [OF mem_reliable_contract _ rtr_login only_keys_refl, of "[[3], [5]]"] by fastforce
qed

text \<open>
  C17. A replayed token is detected and kills the session. Take a session that has gone through any number of exchanges, with
  whatever other clients did in between that left the keys of this session alone, and present any of its earlier tokens again,
  the first one or a later one, while its record and the session's current token are within their lifetimes, on a server that
  answers. Then the answer is \<^verbatim>\<open>ErrReuseDetected\<close>, the family is gone, and every token of the session presented next, the current one
  included, is refused as invalid.
\<close>

theorem rtr_reuse_detected:
  assumes "redis_reliable R view clock" and "in_int64 u"
    and "session R view clock fam u ((cur, d) # toks) s" and "(tok, e) \<in> set toks"
    and "rtr_Rotate R nb tok s = (r, s')" and "clock s' < e" "clock s' < d"
    and "tok' \<in> fst ` set ((cur, d) # toks)" and "rtr_Rotate R nb' tok' s' = (r', s'')"
  shows "r = Inl ErrReuseDetected \<and> revoked view clock fam s' \<and> r' = Inl RtrInvalidToken"
proof -
  have server: "redis_server R view clock" using assms(1) by (rule redis_reliable.axioms(1))
  note inv = redis_server.session_invariant [OF server assms(3,2)]
  note replay = redis_reliable.session_replay [OF assms(1) inv assms(2,4,5,6,7)]
  have "clock s \<le> clock s'" by (rule frame_clock [OF redis_server.rtr_Rotate_frame [OF server subset_refl] assms(5)])
  then have "view s' t (tokenKey tok') \<in> {None, Some (RStr (rec_Marshal \<lparr>rec_user = u, rec_family = fam\<rparr>))}" if "clock s' \<le> t" for t
  proof (cases "tok' = cur")
    case False
    with assms(8) obtain e' where "(tok', e') \<in> set ((cur, d) # toks)" by auto
    from session_inv_record [OF inv this] replay(4) [OF that False] \<open>clock s \<le> clock s'\<close> that show ?thesis by (simp add: until_eq)
  qed (use replay(3) [OF that] in simp)
  from redis_reliable.session_over [OF assms(1) replay(2) assms(2) this assms(9)] replay(1,2) show ?thesis by simp
qed

definition twice_mem :: mem where
  "twice_mem = snd (rtr_Rotate mem_redis [6] (newOpaqueToken [3]) rotated_mem)"

theorem rtr_reuse_detected_witness:
  "fst (rtr_Rotate mem_redis [4] (newOpaqueToken [1]) twice_mem) = Inl ErrReuseDetected \<and>
   fst (rtr_Rotate mem_redis [5] (newOpaqueToken [6]) (snd (rtr_Rotate mem_redis [4] (newOpaqueToken [1]) twice_mem))) =
     Inl RtrInvalidToken"
proof -
  let ?d = "\<lambda>m. m_now m + RefreshTokenTTL" and ?S = "session mem_redis mem_view m_now (newOpaqueToken [2]) 7"
  let ?r = "rtr_Rotate mem_redis [4] (newOpaqueToken [1]) twice_mem"
  have "fst (rtr_Rotate mem_redis [6] (newOpaqueToken [3]) rotated_mem) = Inr (newOpaqueToken [6], 7)" by code_simp
  then have twice: "rtr_Rotate mem_redis [6] (newOpaqueToken [3]) rotated_mem = (Inr (newOpaqueToken [6], 7), twice_mem)"
    by (simp add: twice_mem_def prod_eq_iff)
  have differ: "newOpaqueToken [3] \<noteq> newOpaqueToken [1]" "newOpaqueToken [6] \<noteq> newOpaqueToken [1]"
    "newOpaqueToken [6] \<noteq> newOpaqueToken [3]" by code_simp+
  have "?S [(newOpaqueToken [1], ?d login_mem)] login_mem" by (rule session.login [OF rtr_login refl])
  from session.exchange [OF this rtr_rotated] differ
  have "?S [(newOpaqueToken [3], ?d rotated_mem), (newOpaqueToken [1], ?d login_mem)] rotated_mem" by simp
  from session.exchange [OF this twice] differ
  have s: "?S [(newOpaqueToken [6], ?d twice_mem), (newOpaqueToken [3], ?d rotated_mem), (newOpaqueToken [1], ?d login_mem)] twice_mem"
    by simp
  have r: "?r = (fst ?r, snd ?r)" by simp
  have "in_int64 7" "m_now (snd ?r) < ?d login_mem" "m_now (snd ?r) < ?d twice_mem" by code_simp+
  from rtr_reuse_detected [OF mem_reliable_contract this(1) s _ r this(2,3), of "newOpaqueToken [6]", OF _ _ prod.collapse [symmetric]]
  show ?thesis by simp
qed

text \<open>
  C18. A revoked family never comes back: after a detected reuse, whatever logins, exchanges,
  revocations and half-finished exchanges follow (none drawing the same family name), every exchange
  of a token whose record names that family fails.
\<close>

theorem rtr_revoked_for_good:
  assumes "redis_server R view clock"
    and "rtr_lookup R old s = (Inr rec, s1)"
    and "rtr_commit R nb old rec s1 = (Inl ErrReuseDetected, rc_store c)"
    and "\<forall>tb fb u. EvIssue tb fb u \<in> set evs \<longrightarrow> newOpaqueToken fb \<noteq> rec_family rec"
    and "rtr_lookup R tok (rc_store (fold (rtr_do R) evs c)) = (Inr rec', s2)"
    and "rec_family rec' = rec_family rec"
    and "rtr_Rotate R nb' tok (rc_store (fold (rtr_do R) evs c)) = (r, s3)"
  shows "isl r"
  by (rule redis_server.rotate_revoked [OF assms(1) _ assms(5-7)])
    (rule redis_server.revoked_run [OF assms(1) redis_server.reuse_detected_revokes [OF assms(1,3)] assms(4)])

text \<open>A login as user 7, two exchanges, and then a replay of the first token that is detected.\<close>

definition before_replay :: mem where
  "before_replay = snd (rtr_lookup mem_redis (newOpaqueToken [1])
     (snd (rtr_Rotate mem_redis [6] (newOpaqueToken [3]) rotated_mem)))"

definition revoked_conf :: "mem rtr_conf" where
  "revoked_conf = \<lparr>
     rc_store = snd (rtr_commit mem_redis [4] (newOpaqueToken [1])
       \<lparr>rec_user = 7, rec_family = newOpaqueToken [2]\<rparr> before_replay),
     rc_pending = (\<lambda>_. None), rc_drawn = [], rc_log = []\<rparr>"

definition after_replay :: mem where
  "after_replay = rc_store (fold (rtr_do mem_redis)
     [EvIssue [8] [9] 3, EvLookup 0 (newOpaqueToken [1])] revoked_conf)"

theorem rtr_revoked_for_good_witness:
  "isl (fst (rtr_Rotate mem_redis [5] (newOpaqueToken [3]) after_replay))"
proof -
  let ?rec = "\<lparr>rec_user = 7, rec_family = newOpaqueToken [2]\<rparr>"
  let ?s = "snd (rtr_Rotate mem_redis [6] (newOpaqueToken [3]) rotated_mem)"
  let ?evs = "[EvIssue [8] [9] 3, EvLookup 0 (newOpaqueToken [1])]"
  have "fst (rtr_lookup mem_redis (newOpaqueToken [1]) ?s) = Inr ?rec" by code_simp
  then have look: "rtr_lookup mem_redis (newOpaqueToken [1]) ?s = (Inr ?rec, before_replay)"
    by (simp add: before_replay_def prod_eq_iff)
  have "fst (rtr_commit mem_redis [4] (newOpaqueToken [1]) ?rec before_replay) = Inl ErrReuseDetected"
    by code_simp
  then have commit: "rtr_commit mem_redis [4] (newOpaqueToken [1]) ?rec before_replay =
      (Inl ErrReuseDetected, rc_store revoked_conf)"
    by (simp add: revoked_conf_def prod_eq_iff)
  have families: "\<forall>tb fb u. EvIssue tb fb u \<in> set ?evs \<longrightarrow> newOpaqueToken fb \<noteq> rec_family ?rec"
    by (simp add: newOpaqueToken_def del: EncodeToString.simps)
  have "fst (rtr_lookup mem_redis (newOpaqueToken [3]) after_replay) = Inr ?rec" by code_simp
  then have found: "rtr_lookup mem_redis (newOpaqueToken [3]) after_replay =
      (Inr ?rec, snd (rtr_lookup mem_redis (newOpaqueToken [3]) after_replay))"
    by (simp add: prod_eq_iff)
  show ?thesis
    using rtr_revoked_for_good [OF mem_contract look commit families
        found [unfolded after_replay_def] refl prod.collapse [symmetric]]
    unfolding after_replay_def .
qed

text \<open>
  C1. Each refresh token is exchanged at most once: in every interleaving of logins, exchanges
  (their two round trips apart) and revocations, started on a store without families and drawing
  fresh tokens, no token is presented by two exchanges that both succeed.
\<close>

theorem rtr_exchanged_once:
  assumes "redis_server R view clock" and "rc_log c = []"
    and "\<forall>f. revoked view clock f (rc_store c)"
    and "(rtr_step R view clock)\<^sup>*\<^sup>* c c'"
  shows "distinct (spent (rc_log c'))"
proof -
  have "rtr_inv view clock c"
    using assms(2,3) by (simp add: rtr_inv_def family_inv_def revoked_def)
  with redis_server.rtr_inv_reachable [OF assms(1,4)] show ?thesis by (simp add: rtr_inv_def)
qed

text \<open>Two clients present the same token: both have read its record when the first one commits.\<close>

definition race_start :: "mem rtr_conf" where
  "race_start = \<lparr>rc_store = \<lparr>m_now = 0, m_store = (\<lambda>_. None)\<rparr>,
     rc_pending = (\<lambda>_. None), rc_drawn = [], rc_log = []\<rparr>"

definition race_events :: "rtr_event list" where
  "race_events = [EvIssue [1] [2] 7, EvLookup 0 (newOpaqueToken [1]), EvLookup 1 (newOpaqueToken [1]),
     EvCommit 0 [3], EvCommit 1 [4]]"

fun fresh_events :: "'s redis \<Rightarrow> rtr_event list \<Rightarrow> 's rtr_conf \<Rightarrow> bool" where
  "fresh_events R [] c = True"
| "fresh_events R (ev # evs) c = (fresh_event ev (rc_drawn c) \<and> fresh_events R evs (rtr_do R ev c))"

lemma fresh_events_reach:
  "fresh_events R evs c \<Longrightarrow> (rtr_step R view clock)\<^sup>*\<^sup>* c (fold (rtr_do R) evs c)"
proof (induction evs arbitrary: c)
  case (Cons ev evs)
  then have "rtr_step R view clock c (rtr_do R ev c)" by (simp add: rtr_step.call)
  moreover have "(rtr_step R view clock)\<^sup>*\<^sup>* (rtr_do R ev c) (fold (rtr_do R) (ev # evs) c)"
    using Cons by simp
  ultimately show ?case by (rule converse_rtranclp_into_rtranclp)
qed simp

theorem rtr_exchanged_once_witness:
  "distinct (spent (rc_log (fold (rtr_do mem_redis) race_events race_start))) \<and>
   map snd (rc_log (fold (rtr_do mem_redis) race_events race_start)) =
     [Inl ErrReuseDetected, Inr (newOpaqueToken [3], 7)]"
proof
  have "fresh_events mem_redis race_events race_start" by code_simp
  note reach = fresh_events_reach [OF this]
  show "distinct (spent (rc_log (fold (rtr_do mem_redis) race_events race_start)))"
    by (rule rtr_exchanged_once [OF mem_contract _ _ reach])
      (simp_all add: race_start_def revoked_def mem_view_def)
  show "map snd (rc_log (fold (rtr_do mem_redis) race_events race_start)) =
     [Inl ErrReuseDetected, Inr (newOpaqueToken [3], 7)]" by code_simp
qed

end
