(* ===== verification/Token.thy ===== *)
theory Token
  imports Go_Json Go_Base64
begin

text \<open>
  The signing stack of the identity service (\<^verbatim>\<open>services/identity/internal/token\<close>): JWT issuing and flow
  tokens (\<^verbatim>\<open>issuer.go\<close>), the key file and the key id (\<^verbatim>\<open>keys.go\<close>), the JWKS and discovery documents
  (\<^verbatim>\<open>jwks.go\<close>). The JWT library is a parameter: signing, the header of a token as the key function sees
  it (after the library decoded the token and checked its algorithm), and the check of signature and
  claims under a key. The locale \<open>jwt_laws\<close> holds its documented behaviour. The DER encodings, PEM and
  SHA-256 are parameters too. Time is in Unix seconds.
\<close>

section \<open>Keys and the JWT library\<close>

record rsa_pub =
  rsa_N :: nat
  rsa_E :: int

type_synonym claims = "(string \<times> json) list"

text \<open>The options given to \<^verbatim>\<open>jwt.Parse\<close>; an expiry is always required.\<close>

record jwt_opts =
  want_iss :: string
  want_aud :: string

record 'sk jwt_lib =
  jwt_SignedString :: "claims \<Rightarrow> claims \<Rightarrow> 'sk \<Rightarrow> string + string"
  jwt_header :: "string list \<Rightarrow> string \<Rightarrow> string + claims"
  jwt_check :: "jwt_opts \<Rightarrow> int \<Rightarrow> string \<Rightarrow> rsa_pub \<Rightarrow> string + claims"
  jwt_public :: "'sk \<Rightarrow> rsa_pub"

text \<open>A numeric date that a double represents exactly.\<close>

definition claim_time :: "claims \<Rightarrow> string \<Rightarrow> int option" where
  "claim_time c k = (case map_of c k of
      Some (JNum l) \<Rightarrow> (case ParseInt l of
          Some n \<Rightarrow> if \<bar>n\<bar> < 2 ^ 53 then Some n else None | None \<Rightarrow> None)
    | _ \<Rightarrow> None)"

definition names_aud :: "claims \<Rightarrow> string \<Rightarrow> bool" where
  "names_aud c a \<longleftrightarrow> (case map_of c ''aud'' of
      Some (JStr x) \<Rightarrow> x = a | Some (JArr vs) \<Rightarrow> JStr a \<in> set vs | _ \<Rightarrow> False)"

definition names_iss :: "claims \<Rightarrow> string \<Rightarrow> bool" where
  "names_iss c i \<longleftrightarrow> map_of c ''iss'' = Some (JStr i)"

text \<open>
  The laws are used with a non-empty issuer and audience only: the services replace an empty setting by its default
  (\<^verbatim>\<open>envOr\<close>), and the audiences of flow tokens are constants. For an empty expectation the library would skip the comparison.
  Claims are byte strings that JSON carries unchanged, as those of the services are.
\<close>

locale jwt_laws =
  fixes J :: "'sk jwt_lib"
  assumes signed_header:
      "jwt_SignedString J h c sk = Inr tok \<Longrightarrow> map_of h ''alg'' = Some (JStr ''RS256'') \<Longrightarrow>
         jwt_header J [''RS256''] tok = Inr h"
    and signed_claims:
      "jwt_SignedString J h c sk = Inr tok \<Longrightarrow> jwt_check J opts now tok pk = Inr c' \<Longrightarrow>
         map_of c' = map_of c \<and> pk = jwt_public J sk"
    and signed_accepted:
      "jwt_SignedString J h c sk = Inr tok \<Longrightarrow> names_iss c (want_iss opts) \<Longrightarrow> names_aud c (want_aud opts) \<Longrightarrow>
         claim_time c ''exp'' = Some e \<Longrightarrow> now < e \<Longrightarrow> map_of c ''nbf'' = None \<Longrightarrow>
         \<exists>c'. jwt_check J opts now tok (jwt_public J sk) = Inr c'"
    and check_claims:
      "jwt_check J opts now tok pk = Inr c \<Longrightarrow> names_iss c (want_iss opts) \<and> names_aud c (want_aud opts) \<and>
         map_of c ''exp'' \<noteq> None \<and> (\<forall>e. claim_time c ''exp'' = Some e \<longrightarrow> now < e)"

section \<open>The issuer\<close>

datatype token_err = ErrInvalidFlowToken | SignErr string

definition token_msg :: "token_err \<Rightarrow> string" where
  "token_msg e = (case e of ErrInvalidFlowToken \<Rightarrow> ''invalid flow token'' | SignErr m \<Rightarrow> m)"

definition FlowSignup :: string where "FlowSignup = ''signup''"
definition FlowReactivation :: string where "FlowReactivation = ''reactivation''"
definition FlowDeviceVerify :: string where "FlowDeviceVerify = ''device_verify''"

definition AccessTokenTTL :: duration where "AccessTokenTTL = 15 * Minute"
definition FlowTokenTTL :: duration where "FlowTokenTTL = 10 * Minute"

record 'sk issuer =
  iss_key :: 'sk
  iss_kid :: string
  iss_issuer :: string

text \<open>The key id: the first eight bytes, in hex, of the SHA-256 of the public key's DER encoding.\<close>

definition KeyID :: "(rsa_pub \<Rightarrow> byte list) \<Rightarrow> (byte list \<Rightarrow> byte list) \<Rightarrow> rsa_pub \<Rightarrow> string" where
  "KeyID der sha256 pk = hex_EncodeToString (take 8 (sha256 (der pk)))"

definition NewIssuer ::
  "(rsa_pub \<Rightarrow> byte list) \<Rightarrow> (byte list \<Rightarrow> byte list) \<Rightarrow> 'sk jwt_lib \<Rightarrow> 'sk \<Rightarrow> string \<Rightarrow> 'sk issuer" where
  "NewIssuer der sha256 J key iss =
     \<lparr>iss_key = key, iss_kid = KeyID der sha256 (jwt_public J key), iss_issuer = iss\<rparr>"

definition iss_sign :: "'sk jwt_lib \<Rightarrow> 'sk issuer \<Rightarrow> claims \<Rightarrow> token_err + string" where
  "iss_sign J i c =
     (case jwt_SignedString J
        [(''typ'', JStr ''JWT''), (''alg'', JStr ''RS256''), (''kid'', JStr (iss_kid i))] c (iss_key i) of
        Inl e \<Rightarrow> Inl (SignErr e) | Inr tok \<Rightarrow> Inr tok)"

definition access_claims :: "'sk issuer \<Rightarrow> int \<Rightarrow> string \<Rightarrow> int \<Rightarrow> string \<Rightarrow> claims" where
  "access_claims i now jti userID stat =
     [(''iss'', JStr (iss_issuer i)), (''sub'', JStr (FormatInt userID)), (''aud'', JStr ''board''),
      (''exp'', JNum (FormatInt (now + Seconds AccessTokenTTL))), (''iat'', JNum (FormatInt now)),
      (''jti'', JStr jti), (''status'', JStr stat)]"

definition id_claims :: "'sk issuer \<Rightarrow> int \<Rightarrow> int \<Rightarrow> string \<Rightarrow> claims" where
  "id_claims i now userID nickname =
     [(''iss'', JStr (iss_issuer i)), (''sub'', JStr (FormatInt userID)), (''aud'', JStr ''poc-frontend''),
      (''exp'', JNum (FormatInt (now + Seconds AccessTokenTTL))), (''iat'', JNum (FormatInt now)),
      (''auth_time'', JNum (FormatInt now)), (''nickname'', JStr nickname)]"

definition flow_claims :: "'sk issuer \<Rightarrow> int \<Rightarrow> string \<Rightarrow> string \<Rightarrow> claims" where
  "flow_claims i now purpose subject =
     [(''iss'', JStr (iss_issuer i)), (''sub'', JStr subject), (''aud'', JStr ''flow''),
      (''exp'', JNum (FormatInt (now + Seconds FlowTokenTTL))), (''iat'', JNum (FormatInt now)),
      (''purpose'', JStr purpose)]"

definition AccessToken ::
  "'sk jwt_lib \<Rightarrow> 'sk issuer \<Rightarrow> int \<Rightarrow> string \<Rightarrow> int \<Rightarrow> string \<Rightarrow> token_err + string" where
  "AccessToken J i now jti userID stat = iss_sign J i (access_claims i now jti userID stat)"

definition IDToken :: "'sk jwt_lib \<Rightarrow> 'sk issuer \<Rightarrow> int \<Rightarrow> int \<Rightarrow> string \<Rightarrow> token_err + string" where
  "IDToken J i now userID nickname = iss_sign J i (id_claims i now userID nickname)"

definition FlowToken :: "'sk jwt_lib \<Rightarrow> 'sk issuer \<Rightarrow> int \<Rightarrow> string \<Rightarrow> string \<Rightarrow> token_err + string" where
  "FlowToken J i now purpose subject = iss_sign J i (flow_claims i now purpose subject)"

text \<open>\<^verbatim>\<open>MapClaims.GetSubject\<close>: a missing claim is the empty string, a claim of another type an error.\<close>

definition GetSubject :: "claims \<Rightarrow> string option" where
  "GetSubject c = (case map_of c ''sub'' of None \<Rightarrow> Some [] | Some (JStr s) \<Rightarrow> Some s | _ \<Rightarrow> None)"

definition VerifyFlowToken ::
  "'sk jwt_lib \<Rightarrow> 'sk issuer \<Rightarrow> int \<Rightarrow> string \<Rightarrow> string \<Rightarrow> token_err + string" where
  "VerifyFlowToken J i now tokenStr wantPurpose =
     (case jwt_header J [''RS256''] tokenStr of
        Inl _ \<Rightarrow> Inl ErrInvalidFlowToken
      | Inr _ \<Rightarrow>
          (case jwt_check J \<lparr>want_iss = iss_issuer i, want_aud = ''flow''\<rparr> now tokenStr
             (jwt_public J (iss_key i)) of
             Inl _ \<Rightarrow> Inl ErrInvalidFlowToken
           | Inr c \<Rightarrow>
               if map_of c ''purpose'' \<noteq> Some (JStr wantPurpose) then Inl ErrInvalidFlowToken
               else case GetSubject c of
                 None \<Rightarrow> Inl ErrInvalidFlowToken
               | Some sub \<Rightarrow> if sub = [] then Inl ErrInvalidFlowToken else Inr sub))"

section \<open>The key file\<close>

text \<open>
  The file system is the contents of the files; creating the directory and writing may fail
  (\<open>Some\<close> error). \<open>pem\<close> and \<open>pkcs1\<close> are the two encodings with their decoders, and \<open>gen\<close> the result of
  \<^verbatim>\<open>rsa.GenerateKey\<close>.
\<close>

datatype key_err = NoPEMBlock string | ParseKeyErr string | GenErr string | IOErr string

record 'sk key_codec =
  pem_Decode :: "string \<Rightarrow> byte list option"
  pem_Encode :: "byte list \<Rightarrow> string"
  ParsePKCS1 :: "byte list \<Rightarrow> string + 'sk"
  MarshalPKCS1 :: "'sk \<Rightarrow> byte list"

definition LoadOrGenerateKey ::
  "'sk key_codec \<Rightarrow> string + 'sk \<Rightarrow> string option \<Rightarrow> string option \<Rightarrow> string \<Rightarrow>
   (string \<rightharpoonup> string, key_err, 'sk) action" where
  "LoadOrGenerateKey C gen mkdir write path fs =
     (case fs path of
        Some data \<Rightarrow>
          (case pem_Decode C data of
             None \<Rightarrow> (Inl (NoPEMBlock path), fs)
           | Some block \<Rightarrow> (case ParsePKCS1 C block of
               Inl e \<Rightarrow> (Inl (ParseKeyErr e), fs) | Inr key \<Rightarrow> (Inr key, fs)))
      | None \<Rightarrow>
          (case gen of
             Inl e \<Rightarrow> (Inl (GenErr e), fs)
           | Inr key \<Rightarrow>
               (case mkdir of
                  Some e \<Rightarrow> (Inl (IOErr e), fs)
                | None \<Rightarrow>
                    (case write of
                       Some e \<Rightarrow> (Inl (IOErr e), fs)
                     | None \<Rightarrow> (Inr key, fs(path \<mapsto> pem_Encode C (MarshalPKCS1 C key)))))))"

section \<open>The JWKS and discovery documents\<close>

record http_response =
  resp_status :: int
  resp_headers :: "(string \<times> string) list"
  resp_body :: string

definition jwk_json :: "(rsa_pub \<Rightarrow> string) \<Rightarrow> rsa_pub \<Rightarrow> json" where
  "jwk_json kid pk = JObj
     [(''kty'', JStr ''RSA''), (''use'', JStr ''sig''), (''alg'', JStr ''RS256''), (''kid'', JStr (kid pk)),
      (''n'', JStr (EncodeToString (big_Bytes (rsa_N pk)))),
      (''e'', JStr (EncodeToString (big_Bytes (nat \<bar>rsa_E pk\<bar>))))]"

text \<open>A nil slice marshals to null.\<close>

definition jwks_json :: "(rsa_pub \<Rightarrow> string) \<Rightarrow> rsa_pub list \<Rightarrow> json" where
  "jwks_json kid pks = JObj [(''keys'', if pks = [] then JNull else JArr (map (jwk_json kid) pks))]"

definition JWKSHandler :: "(rsa_pub \<Rightarrow> string) \<Rightarrow> rsa_pub list \<Rightarrow> http_response" where
  "JWKSHandler kid pks = \<lparr>resp_status = 200,
     resp_headers = [(''Content-Type'', ''application/json''), (''Cache-Control'', ''public, max-age=300'')],
     resp_body = print_json (jwks_json kid pks)\<rparr>"

text \<open>A Go map marshals in the order of its keys.\<close>

definition DiscoveryHandler :: "string \<Rightarrow> http_response" where
  "DiscoveryHandler iss = \<lparr>resp_status = 200,
     resp_headers = [(''Content-Type'', ''application/json'')],
     resp_body = print_json (JObj
       [(''grant_types_supported'', JArr [JStr ''refresh_token'']),
        (''id_token_signing_alg_values_supported'', JArr [JStr ''RS256'']),
        (''issuer'', JStr iss),
        (''jwks_uri'', JStr (iss @ ''/oauth2/v1/jwks'')),
        (''subject_types_supported'', JArr [JStr ''public'']),
        (''token_endpoint'', JStr (iss @ ''/oauth2/v1/token''))])\<rparr>"

section \<open>What a signed token proves\<close>

lemma claim_time_FormatInt:
  "map_of c k = Some (JNum (FormatInt n)) \<Longrightarrow> \<bar>n\<bar> < 2 ^ 53 \<Longrightarrow> claim_time c k = Some n"
  by (simp add: claim_time_def ParseInt_FormatInt min_int64_def max_int64_def)

lemma iss_sign_InrE:
  assumes "iss_sign J i c = Inr tok"
  obtains "jwt_SignedString J
     [(''typ'', JStr ''JWT''), (''alg'', JStr ''RS256''), (''kid'', JStr (iss_kid i))] c (iss_key i) = Inr tok"
  using assms by (auto simp: iss_sign_def split: sum.splits)

lemma VerifyFlowToken_InrE:
  assumes "VerifyFlowToken J i now tok p = Inr sub"
  obtains c where "jwt_check J \<lparr>want_iss = iss_issuer i, want_aud = ''flow''\<rparr> now tok
      (jwt_public J (iss_key i)) = Inr c"
    and "map_of c ''purpose'' = Some (JStr p)" and "map_of c ''sub'' = Some (JStr sub)" and "sub \<noteq> []"
  using assms
  by (auto simp: VerifyFlowToken_def GetSubject_def split: sum.splits option.splits if_splits json.splits)

lemma VerifyFlowToken_Inl: "VerifyFlowToken J i now tok p = Inl e \<Longrightarrow> e = ErrInvalidFlowToken"
  by (auto simp: VerifyFlowToken_def split: sum.splits option.splits if_splits)

lemma flow_claims_lookup [simp]:
  "map_of (flow_claims i now p sub) ''iss'' = Some (JStr (iss_issuer i))"
  "map_of (flow_claims i now p sub) ''sub'' = Some (JStr sub)"
  "map_of (flow_claims i now p sub) ''aud'' = Some (JStr ''flow'')"
  "map_of (flow_claims i now p sub) ''exp'' = Some (JNum (FormatInt (now + Seconds FlowTokenTTL)))"
  "map_of (flow_claims i now p sub) ''purpose'' = Some (JStr p)"
  "map_of (flow_claims i now p sub) ''nbf'' = None"
  by (simp_all add: flow_claims_def)

lemma access_claims_lookup [simp]:
  "map_of (access_claims i now jti u st) ''iss'' = Some (JStr (iss_issuer i))"
  "map_of (access_claims i now jti u st) ''sub'' = Some (JStr (FormatInt u))"
  "map_of (access_claims i now jti u st) ''aud'' = Some (JStr ''board'')"
  "map_of (access_claims i now jti u st) ''exp'' = Some (JNum (FormatInt (now + Seconds AccessTokenTTL)))"
  "map_of (access_claims i now jti u st) ''status'' = Some (JStr st)"
  "map_of (access_claims i now jti u st) ''nbf'' = None"
  by (simp_all add: access_claims_def)

lemma id_claims_lookup [simp]:
  "map_of (id_claims i now u nick) ''aud'' = Some (JStr ''poc-frontend'')"
  by (simp add: id_claims_def)

context jwt_laws
begin

lemma flow_token_accepted:
  assumes "FlowToken J i t0 p sub = Inr tok" and "sub \<noteq> []"
    and "now < t0 + Seconds FlowTokenTTL" and "\<bar>t0 + Seconds FlowTokenTTL\<bar> < 2 ^ 53"
  shows "VerifyFlowToken J i now tok p = Inr sub"
proof -
  from assms(1) have sgn: "jwt_SignedString J
     [(''typ'', JStr ''JWT''), (''alg'', JStr ''RS256''), (''kid'', JStr (iss_kid i))]
     (flow_claims i t0 p sub) (iss_key i) = Inr tok"
    unfolding FlowToken_def by (rule iss_sign_InrE)
  have "claim_time (flow_claims i t0 p sub) ''exp'' = Some (t0 + Seconds FlowTokenTTL)"
    using assms(4) by (intro claim_time_FormatInt) simp_all
  from signed_accepted [OF sgn _ _ this assms(3), of "\<lparr>want_iss = iss_issuer i, want_aud = ''flow''\<rparr>"]
  obtain c where c: "jwt_check J \<lparr>want_iss = iss_issuer i, want_aud = ''flow''\<rparr> now tok
      (jwt_public J (iss_key i)) = Inr c" by (auto simp: names_iss_def names_aud_def)
  from signed_claims [OF sgn c] have "map_of c = map_of (flow_claims i t0 p sub)" by simp
  with c signed_header [OF sgn] assms(2) show ?thesis by (simp add: VerifyFlowToken_def GetSubject_def)
qed

text \<open>Of the tokens this issuer signs, only a live flow token of the asked purpose passes.\<close>

lemma flow_token_only:
  assumes "iss_sign J i c = Inr tok" and "VerifyFlowToken J i' now tok p = Inr sub"
  shows "map_of c ''aud'' = Some (JStr ''flow'') \<or> (\<exists>vs. map_of c ''aud'' = Some (JArr vs))"
    and "map_of c ''purpose'' = Some (JStr p)" and "map_of c ''sub'' = Some (JStr sub)"
    and "map_of c ''iss'' = Some (JStr (iss_issuer i'))"
    and "\<And>e. claim_time c ''exp'' = Some e \<Longrightarrow> now < e"
    and "jwt_public J (iss_key i') = jwt_public J (iss_key i)"
proof -
  from assms(2) obtain c' where chk: "jwt_check J \<lparr>want_iss = iss_issuer i', want_aud = ''flow''\<rparr> now tok
      (jwt_public J (iss_key i')) = Inr c'"
    and c': "map_of c' ''purpose'' = Some (JStr p)" "map_of c' ''sub'' = Some (JStr sub)"
    by (rule VerifyFlowToken_InrE)
  from assms(1) have "map_of c' = map_of c \<and> jwt_public J (iss_key i') = jwt_public J (iss_key i)"
    by (rule iss_sign_InrE) (rule signed_claims [OF _ chk])
  then have eq: "map_of c' = map_of c" and pk: "jwt_public J (iss_key i') = jwt_public J (iss_key i)" by auto
  note ok = check_claims [OF chk]
  from ok eq show "map_of c ''aud'' = Some (JStr ''flow'') \<or> (\<exists>vs. map_of c ''aud'' = Some (JArr vs))"
    by (auto simp: names_aud_def split: option.splits json.splits)
  from c' eq show "map_of c ''purpose'' = Some (JStr p)" "map_of c ''sub'' = Some (JStr sub)" by auto
  from ok eq show "map_of c ''iss'' = Some (JStr (iss_issuer i'))" by (simp add: names_iss_def)
  from ok eq show "\<And>e. claim_time c ''exp'' = Some e \<Longrightarrow> now < e" by (simp add: claim_time_def)
  from pk show "jwt_public J (iss_key i') = jwt_public J (iss_key i)" .
qed

end

section \<open>A library that seals instead of signing\<close>

text \<open>
  The laws are satisfiable: a token that carries its header, claims and key in the clear, checked as
  documented. Here a private key is its own public half.
\<close>

definition sealed_doc :: "claims \<Rightarrow> claims \<Rightarrow> rsa_pub \<Rightarrow> json" where
  "sealed_doc h c k = JArr [JObj h, JObj c, JNum (FormatInt (int (rsa_N k))), JNum (FormatInt (rsa_E k))]"

definition sealed_check :: "jwt_opts \<Rightarrow> int \<Rightarrow> string \<Rightarrow> rsa_pub \<Rightarrow> string + claims" where
  "sealed_check opts now tok pk = (case parse_doc tok of
      Some (JArr [JObj h, JObj c, n, e]) \<Rightarrow>
        if JArr [JObj h, JObj c, n, e] = sealed_doc h c pk \<and> names_iss c (want_iss opts) \<and>
           names_aud c (want_aud opts) \<and> map_of c ''nbf'' = None
        then (case claim_time c ''exp'' of
                Some t \<Rightarrow> if now < t then Inr c else Inl ''token is expired''
              | None \<Rightarrow> Inl ''token is missing required claim'')
        else Inl ''token signature is invalid''
    | _ \<Rightarrow> Inl ''token is malformed'')"

definition sealed_jwt :: "rsa_pub jwt_lib" where
  "sealed_jwt = \<lparr>
     jwt_SignedString = (\<lambda>h c k. let d = sealed_doc h c k in
       if parse_doc (print_json d) = Some d then Inr (print_json d) else Inl ''cannot marshal''),
     jwt_header = (\<lambda>methods tok. case parse_doc tok of
         Some (JArr [JObj h, JObj c, n, e]) \<Rightarrow>
           (case map_of h ''alg'' of
              Some (JStr a) \<Rightarrow> if a \<in> set methods then Inr h else Inl ''signing method is invalid''
            | _ \<Rightarrow> Inl ''signing method is invalid'')
       | _ \<Rightarrow> Inl ''token is malformed''),
     jwt_check = sealed_check, jwt_public = (\<lambda>k. k)\<rparr>"

lemma sealed_signed:
  "jwt_SignedString sealed_jwt h c k = Inr tok \<Longrightarrow> parse_doc tok = Some (sealed_doc h c k)"
  by (auto simp: sealed_jwt_def Let_def split: if_splits)

lemma sealed_doc_inject: "sealed_doc h c k = sealed_doc h' c' k' \<longleftrightarrow> h = h' \<and> c = c' \<and> k = k'"
  by (auto simp: sealed_doc_def)

lemma sealed_check_InrE:
  assumes "sealed_check opts now tok pk = Inr c"
  obtains h e where "parse_doc tok = Some (sealed_doc h c pk)" and "names_iss c (want_iss opts)"
    and "names_aud c (want_aud opts)" and "claim_time c ''exp'' = Some e" and "now < e"
  using assms by (auto simp: sealed_check_def split: option.splits json.splits list.splits if_splits)

interpretation sealed: jwt_laws sealed_jwt
proof
  show "jwt_header sealed_jwt [''RS256''] tok = Inr h"
    if "jwt_SignedString sealed_jwt h c sk = Inr tok" "map_of h ''alg'' = Some (JStr ''RS256'')" for h c sk tok
    using sealed_signed [OF that(1)] that(2) by (simp add: sealed_jwt_def sealed_doc_def)
  show "map_of c' = map_of c \<and> pk = jwt_public sealed_jwt sk"
    if "jwt_SignedString sealed_jwt h c sk = Inr tok" "jwt_check sealed_jwt opts now tok pk = Inr c'"
    for h c sk tok opts now pk c'
  proof -
    from that(2) have "sealed_check opts now tok pk = Inr c'" by (simp add: sealed_jwt_def)
    then obtain h' e where "parse_doc tok = Some (sealed_doc h' c' pk)" by (rule sealed_check_InrE)
    with sealed_signed [OF that(1)] show ?thesis by (simp add: sealed_doc_inject sealed_jwt_def)
  qed
  show "\<exists>c'. jwt_check sealed_jwt opts now tok (jwt_public sealed_jwt sk) = Inr c'"
    if "jwt_SignedString sealed_jwt h c sk = Inr tok" "names_iss c (want_iss opts)"
      "names_aud c (want_aud opts)" "claim_time c ''exp'' = Some e" "now < e" "map_of c ''nbf'' = None"
    for h c sk tok opts e now
    using sealed_signed [OF that(1)] that(2-6) by (simp add: sealed_jwt_def sealed_check_def sealed_doc_def)
  show "names_iss c (want_iss opts) \<and> names_aud c (want_aud opts) \<and> map_of c ''exp'' \<noteq> None \<and>
      (\<forall>e. claim_time c ''exp'' = Some e \<longrightarrow> now < e)"
    if "jwt_check sealed_jwt opts now tok pk = Inr c" for opts now tok pk c
  proof -
    from that have "sealed_check opts now tok pk = Inr c" by (simp add: sealed_jwt_def)
    then obtain h e where e: "names_iss c (want_iss opts)" "names_aud c (want_aud opts)"
      "claim_time c ''exp'' = Some e" "now < e" by (rule sealed_check_InrE)
    then have "map_of c ''exp'' \<noteq> None" by (cases "map_of c ''exp''") (simp_all add: claim_time_def)
    with e show ?thesis by simp
  qed
qed

lemmas sealed_laws = sealed.jwt_laws_axioms

definition demo_key :: rsa_pub where "demo_key = \<lparr>rsa_N = 3233, rsa_E = 17\<rparr>"
definition demo_issuer :: "rsa_pub issuer" where
  "demo_issuer = \<lparr>iss_key = demo_key, iss_kid = ''k1'', iss_issuer = ''http://idp''\<rparr>"

definition demo_flow :: string where
  "demo_flow = (case FlowToken sealed_jwt demo_issuer 1000 FlowSignup ''+82'' of Inr t \<Rightarrow> t | Inl _ \<Rightarrow> [])"

lemma sealed_signs:
  assumes "\<And>k v. (k, v) \<in> set c \<Longrightarrow> int_json v"
  shows "\<not> isl (iss_sign sealed_jwt i c)"
proof -
  let ?h = "[(''typ'', JStr ''JWT''), (''alg'', JStr ''RS256''), (''kid'', JStr (iss_kid i))]"
  have "int_json (sealed_doc ?h c (iss_key i))"
    unfolding sealed_doc_def using assms by (auto intro!: int_json.intros)
  from parse_print [OF this] show ?thesis by (simp add: iss_sign_def sealed_jwt_def Let_def)
qed

lemma sealed_issues:
  "\<not> isl (AccessToken sealed_jwt i t jti u st)" "\<not> isl (IDToken sealed_jwt i t u nick)"
  "\<not> isl (FlowToken sealed_jwt i t p sub)"
  unfolding AccessToken_def IDToken_def FlowToken_def
  by (rule sealed_signs; auto simp: access_claims_def id_claims_def flow_claims_def intro: int_json.intros)+

lemma demo_flow_issued: "FlowToken sealed_jwt demo_issuer 1000 FlowSignup ''+82'' = Inr demo_flow"
  using sealed_issues(3) [of demo_issuer 1000 FlowSignup "''+82''"]
  by (auto simp: demo_flow_def split: sum.splits)

lemma demo_flow_accepted: "VerifyFlowToken sealed_jwt demo_issuer 1599 demo_flow FlowSignup = Inr ''+82''"
  by (rule sealed.flow_token_accepted [OF demo_flow_issued])
    (simp_all add: FlowTokenTTL_def duration_defs)

section \<open>Properties\<close>

text \<open>
  A flow token is accepted for its purpose until it expires ten minutes after it was issued,
  and gives back its subject.
\<close>

theorem flow_token_roundtrip:
  assumes "jwt_laws J" and "FlowToken J i t0 p sub = Inr tok" and "sub \<noteq> []"
    and "now < t0 + Seconds FlowTokenTTL" and "\<bar>t0 + Seconds FlowTokenTTL\<bar> < 2 ^ 53"
  shows "VerifyFlowToken J i now tok p = Inr sub"
  by (rule jwt_laws.flow_token_accepted [OF assms])

theorem flow_token_roundtrip_witness:
  "VerifyFlowToken sealed_jwt demo_issuer 1599 demo_flow FlowSignup = Inr ''+82''"
  by (rule flow_token_roundtrip [OF sealed_laws demo_flow_issued])
    (simp_all add: FlowTokenTTL_def duration_defs)

text \<open>
  C38. Tokens cannot be used across flows: if a token that an issuer made (access, ID or flow token)
  passes as a flow token of purpose \<open>p\<close>, then it is a flow token of that purpose and subject, made with
  the same key and the same issuer name, and it has not expired.
\<close>

theorem flow_token_confined:
  assumes "jwt_laws J"
    and "Inr tok \<in> {AccessToken J i t0 jti u st, IDToken J i t0 u nick, FlowToken J i t0 q s}"
    and "VerifyFlowToken J i' now tok p = Inr sub" and "\<bar>t0 + Seconds FlowTokenTTL\<bar> < 2 ^ 53"
  shows "FlowToken J i t0 q s = Inr tok \<and> q = p \<and> s = sub \<and> now < t0 + Seconds FlowTokenTTL \<and>
    iss_issuer i = iss_issuer i' \<and> jwt_public J (iss_key i) = jwt_public J (iss_key i')"
proof -
  have not_flow: "map_of c ''aud'' \<noteq> Some (JStr x)" if "iss_sign J i c = Inr tok" "x \<noteq> ''flow''" for c x
    using jwt_laws.flow_token_only(1) [OF assms(1) that(1) assms(3)] that(2) by auto
  have "AccessToken J i t0 jti u st \<noteq> Inr tok"
    using not_flow [of "access_claims i t0 jti u st" "''board''"] by (auto simp: AccessToken_def)
  moreover have "IDToken J i t0 u nick \<noteq> Inr tok"
    using not_flow [of "id_claims i t0 u nick" "''poc-frontend''"] by (auto simp: IDToken_def)
  ultimately have tok: "FlowToken J i t0 q s = Inr tok" using assms(2) by auto
  then have sgn: "iss_sign J i (flow_claims i t0 q s) = Inr tok" by (simp add: FlowToken_def)
  note facts = jwt_laws.flow_token_only [OF assms(1) sgn assms(3)]
  have "claim_time (flow_claims i t0 q s) ''exp'' = Some (t0 + Seconds FlowTokenTTL)"
    using assms(4) by (intro claim_time_FormatInt) simp_all
  with facts tok show ?thesis by simp
qed

theorem flow_token_confined_witness:
  "VerifyFlowToken sealed_jwt demo_issuer 1599 demo_flow FlowSignup = Inr ''+82'' \<and>
   (1599 :: int) < 1000 + Seconds FlowTokenTTL \<and>
   isl (VerifyFlowToken sealed_jwt demo_issuer 1599 demo_flow FlowReactivation)"
proof -
  have mine: "Inr demo_flow \<in> {AccessToken sealed_jwt demo_issuer 1000 ''j'' 1 ''ACTIVE'',
      IDToken sealed_jwt demo_issuer 1000 1 ''n'', FlowToken sealed_jwt demo_issuer 1000 FlowSignup ''+82''}"
    using demo_flow_issued by simp
  have range: "\<bar>1000 + Seconds FlowTokenTTL\<bar> < 2 ^ 53" by (simp add: FlowTokenTTL_def duration_defs)
  have "VerifyFlowToken sealed_jwt demo_issuer 1599 demo_flow FlowReactivation \<noteq> Inr sub" for sub
    using flow_token_confined [OF sealed_laws mine _ range, of demo_issuer 1599 FlowReactivation sub]
    by (auto simp: FlowSignup_def FlowReactivation_def)
  then have "isl (VerifyFlowToken sealed_jwt demo_issuer 1599 demo_flow FlowReactivation)"
    by (cases "VerifyFlowToken sealed_jwt demo_issuer 1599 demo_flow FlowReactivation") auto
  with demo_flow_accepted flow_token_confined [OF sealed_laws mine demo_flow_accepted range]
  show ?thesis by simp
qed

text \<open>
  The signing key survives restarts: whatever the first start generated and wrote is what every
  later start loads, and nothing is written again. The hypotheses are the round trips of PEM and
  PKCS#1.
\<close>

theorem key_file_stable:
  assumes "\<And>b. pem_Decode C (pem_Encode C b) = Some b" and "\<And>k. ParsePKCS1 C (MarshalPKCS1 C k) = Inr k"
    and "LoadOrGenerateKey C gen mk wr path fs = (Inr key, fs')"
  shows "LoadOrGenerateKey C gen' mk' wr' path fs' = (Inr key, fs')"
proof (cases "fs path")
  case None
  with assms(3) have "fs' = fs(path \<mapsto> pem_Encode C (MarshalPKCS1 C key))"
    by (auto simp: LoadOrGenerateKey_def split: sum.splits option.splits)
  with assms(1,2) show ?thesis by (simp add: LoadOrGenerateKey_def)
next
  case (Some data)
  with assms(3) show ?thesis by (auto simp: LoadOrGenerateKey_def split: sum.splits option.splits)
qed

definition demo_codec :: "byte list key_codec" where
  "demo_codec = \<lparr>pem_Decode = DecodeString, pem_Encode = EncodeToString,
     ParsePKCS1 = Inr, MarshalPKCS1 = (\<lambda>k. k)\<rparr>"

theorem key_file_stable_witness:
  "fst (LoadOrGenerateKey demo_codec (Inr [9]) None None ''k.pem''
     (snd (LoadOrGenerateKey demo_codec (Inr [7]) None None ''k.pem'' (\<lambda>_. None)))) = Inr [7]"
proof -
  let ?one = "LoadOrGenerateKey demo_codec (Inr [7]) None None ''k.pem'' (\<lambda>_. None)"
  have one: "?one = (Inr [7], snd ?one)" by (simp add: LoadOrGenerateKey_def)
  have pem: "pem_Decode demo_codec (pem_Encode demo_codec b) = Some b" for b
    by (simp add: demo_codec_def DecodeString_EncodeToString)
  have der: "ParsePKCS1 demo_codec (MarshalPKCS1 demo_codec k) = Inr k" for k
    by (simp add: demo_codec_def)
  from key_file_stable [OF pem der one, of "Inr [9]" None None] show ?thesis by (simp only: fst_conv)
qed

end
