(* ===== verification/Identity_Domain.thy ===== *)
theory Identity_Domain
  imports Complex_Main Prelude
begin

text \<open>
  The identity service's domain package (\<^verbatim>\<open>services/identity/internal/domain/user.go\<close>): account
  statuses, the transition table, users and profiles, and the package's errors. A \<^verbatim>\<open>time.Time\<close> read
  from a DATETIME column is its calendar fields in UTC.
\<close>

datatype status = PENDING | ACTIVE | DORMANT | SUSPENDED | DELETED

definition status_string :: "status \<Rightarrow> string" where
  "status_string s = (case s of
      PENDING \<Rightarrow> ''PENDING'' | ACTIVE \<Rightarrow> ''ACTIVE'' | DORMANT \<Rightarrow> ''DORMANT''
    | SUSPENDED \<Rightarrow> ''SUSPENDED'' | DELETED \<Rightarrow> ''DELETED'')"

fun transitions :: "status \<Rightarrow> status list" where
  "transitions PENDING = [ACTIVE, DELETED]"
| "transitions ACTIVE = [DORMANT, SUSPENDED, DELETED]"
| "transitions DORMANT = [ACTIVE, SUSPENDED, DELETED]"
| "transitions SUSPENDED = [ACTIVE, DELETED]"
| "transitions DELETED = []"

definition CanTransitionTo :: "status \<Rightarrow> status \<Rightarrow> bool" where
  "CanTransitionTo s target = list_ex (\<lambda>t. t = target) (transitions s)"

datatype auth_type = AuthTypePhone | AuthTypeEmail

record datetime =
  dt_year :: int
  dt_month :: nat
  dt_day :: nat
  dt_nanos :: int

text \<open>\<^verbatim>\<open>t.Format("2006-01")\<close>.\<close>

definition format_year_month :: "datetime \<Rightarrow> string" where
  "format_year_month d = pad_left 4 (FormatInt (dt_year d)) @ ''-'' @ pad_left 2 (fmt_nat (dt_month d))"

record user =
  u_ID :: int
  u_Status :: status
  u_CreatedAt :: datetime
  u_UpdatedAt :: datetime
  u_LastLoginAt :: "datetime option"

record profile =
  p_UserID :: int
  p_Nickname :: string
  p_ProfileImageURL :: string
  p_ReputationScore :: real

datatype domain_err =
    ErrUserNotFound
  | ErrInvalidTransition status status
  | ErrCredentialConflict
  | ErrLoginNotAllowed status

definition domain_msg :: "domain_err \<Rightarrow> string" where
  "domain_msg e = (case e of
      ErrUserNotFound \<Rightarrow> ''user not found''
    | ErrInvalidTransition a b \<Rightarrow>
        ''invalid status transition: '' @ status_string a @ '' -> '' @ status_string b
    | ErrCredentialConflict \<Rightarrow> ''credential already registered''
    | ErrLoginNotAllowed s \<Rightarrow> ''account status does not allow login: '' @ status_string s)"

text \<open>\<^verbatim>\<open>TransitionTo\<close> changes the user it is called on, or returns an error and leaves it alone.\<close>

definition TransitionTo :: "status \<Rightarrow> (user, domain_err, unit) action" where
  "TransitionTo target u =
     (if \<not> CanTransitionTo (u_Status u) target
      then (Inl (ErrInvalidTransition (u_Status u) target), u)
      else (Inr (), u\<lparr>u_Status := target\<rparr>))"

section \<open>Lemmas\<close>

lemma CanTransitionTo_iff: "CanTransitionTo s t \<longleftrightarrow> t \<in> set (transitions s)"
  by (auto simp: CanTransitionTo_def list_ex_iff)

lemma to_active_iff: "CanTransitionTo s ACTIVE \<longleftrightarrow> s \<in> {PENDING, DORMANT, SUSPENDED}"
  by (cases s) (simp_all add: CanTransitionTo_iff)

lemma TransitionTo_Inr:
  "TransitionTo t u = (Inr (), u') \<longleftrightarrow> CanTransitionTo (u_Status u) t \<and> u' = u\<lparr>u_Status := t\<rparr>"
  by (auto simp: TransitionTo_def)

lemma TransitionTo_Inl:
  "TransitionTo t u = (Inl e, u') \<longleftrightarrow>
     \<not> CanTransitionTo (u_Status u) t \<and> u' = u \<and> e = ErrInvalidTransition (u_Status u) t"
  by (auto simp: TransitionTo_def)

lemma status_string_inject [simp]: "status_string s = status_string t \<longleftrightarrow> s = t"
  by (cases s; cases t) (simp_all add: status_string_def)

lemma transitions_not_pending: "PENDING \<notin> set (transitions s)"
  by (cases s) simp_all

lemma transitions_deleted: "t \<in> set (transitions s) \<Longrightarrow> s \<noteq> DELETED"
  by (cases s) simp_all

text \<open>A run of status changes applied to one user; failed changes are part of the run.\<close>

lemma run_transitions_frame:
  "run_all (map TransitionTo ts) u = (rs, u') \<Longrightarrow> u' = u\<lparr>u_Status := u_Status u'\<rparr>"
proof (induction ts arbitrary: u rs)
  case (Cons t ts)
  from Cons.prems obtain r u1 rs1 where one: "TransitionTo t u = (r, u1)"
    and rest: "run_all (map TransitionTo ts) u1 = (rs1, u')"
    by (auto elim!: run_all_ConsE simp del: run_all.simps(2))
  from one have "u1 = u \<or> u1 = u\<lparr>u_Status := t\<rparr>"
    by (auto simp: TransitionTo_def split: if_splits)
  with Cons.IH [OF rest] show ?case by auto
qed simp

lemma run_transitions_deleted:
  "run_all (map TransitionTo ts) u = (rs, u') \<Longrightarrow> u_Status u = DELETED \<Longrightarrow>
     u' = u \<and> (\<forall>r \<in> set rs. \<exists>e. r = Inl e)"
proof (induction ts arbitrary: rs)
  case (Cons t ts)
  then show ?case
    by (auto elim!: run_all_ConsE simp del: run_all.simps(2)
        simp: TransitionTo_def CanTransitionTo_iff)
qed simp

lemma run_transitions_pending:
  "run_all (map TransitionTo ts) u = (rs, u') \<Longrightarrow> u_Status u \<noteq> PENDING \<Longrightarrow> u_Status u' \<noteq> PENDING"
proof (induction ts arbitrary: u rs)
  case (Cons t ts)
  from Cons.prems(1) obtain r u1 rs1 where one: "TransitionTo t u = (r, u1)"
    and rest: "run_all (map TransitionTo ts) u1 = (rs1, u')"
    by (auto elim!: run_all_ConsE simp del: run_all.simps(2))
  from one Cons.prems(2) have "u_Status u1 \<noteq> PENDING"
    using transitions_not_pending [of "u_Status u"]
    by (auto simp: TransitionTo_def CanTransitionTo_iff split: if_splits)
  with Cons.IH [OF rest] show ?case .
qed simp

end
