(* ===== verification/User_Repo.thy ===== *)
theory User_Repo
  imports Identity_Domain Go_Json
begin

text \<open>
  The identity repository (\<^verbatim>\<open>services/identity/internal/repo/mysql/user_repo.go\<close>) and the interface through
  which the auth flows use it. MySQL is not part of the repository; what is modelled is what the
  SQL statements of the source do to the tables that the migrations create: unique keys, foreign
  keys, column sizes, auto-increment counters (which a rollback does not take back) and the columns
  with a time stamp. Two strings are equal under the
  column collation when their sort keys are; the sort key is the argument \<open>weight\<close>. Each statement
  consumes one entry of a plan of faults: it runs, or fails without effect, or runs and its answer is
  lost. Transactions are taken one at a time.
\<close>

section \<open>Tables\<close>

record user_row =
  ur_id :: int
  ur_status :: status
  ur_created :: datetime
  ur_updated :: datetime
  ur_login :: "datetime option"

record cred_row =
  cr_user :: int
  cr_type :: auth_type
  cr_ident :: string

record profile_row =
  pr_user :: int
  pr_nick :: string
  pr_image :: "string option"
  pr_score :: real

record device_row =
  dv_user :: int
  dv_print :: string
  dv_name :: "string option"
  dv_seen :: datetime

record outbox_row =
  ob_id :: int
  ob_aggregate :: string
  ob_aggregate_id :: string
  ob_event :: string
  ob_payload :: json
  ob_published :: "datetime option"

record tables =
  t_users :: "user_row list"
  t_creds :: "cred_row list"
  t_profiles :: "profile_row list"
  t_devices :: "device_row list"
  t_outbox :: "outbox_row list"

datatype fault = DbOk | DbFail string | DbLost string

record idb =
  db_tables :: tables
  db_next_user :: int
  db_next_outbox :: int
  db_now :: datetime
  db_faults :: "fault list"

datatype db_err = MySQLError nat | ErrNoRows | ConnLost string

section \<open>Statements\<close>

text \<open>The length of a column value counts characters: UTF-8 bytes that do not continue one.\<close>

definition char_count :: "string \<Rightarrow> nat" where
  "char_count s = length (filter (\<lambda>c. (of_char c :: nat) div 64 \<noteq> 2) s)"

definition fits :: "nat \<Rightarrow> string \<Rightarrow> bool" where
  "fits n s \<longleftrightarrow> char_count s \<le> n"

definition has_user :: "tables \<Rightarrow> int \<Rightarrow> bool" where
  "has_user T u = list_ex (\<lambda>r. ur_id r = u) (t_users T)"

definition take_fault :: "idb \<Rightarrow> fault \<times> idb" where
  "take_fault d = (case db_faults d of [] \<Rightarrow> (DbOk, d) | f # fs \<Rightarrow> (f, d\<lparr>db_faults := fs\<rparr>))"

text \<open>A statement outside a transaction: an error leaves the tables alone, a lost answer does not.\<close>

definition exec_stmt :: "(idb \<Rightarrow> db_err + idb) \<Rightarrow> (idb, db_err, unit) action" where
  "exec_stmt f d = (case take_fault d of
      (DbFail e, d1) \<Rightarrow> (Inl (ConnLost e), d1)
    | (flt, d1) \<Rightarrow> (case f d1 of
        Inl e \<Rightarrow> (Inl e, d1)
      | Inr d2 \<Rightarrow> ((case flt of DbLost e \<Rightarrow> Inl (ConnLost e) | _ \<Rightarrow> Inr ()), d2)))"

definition query :: "(tables \<Rightarrow> 'a option) \<Rightarrow> (idb, db_err, 'a) action" where
  "query f d = (case take_fault d of
      (DbOk, d1) \<Rightarrow> ((case f (db_tables d1) of None \<Rightarrow> Inl ErrNoRows | Some a \<Rightarrow> Inr a), d1)
    | (DbFail e, d1) \<Rightarrow> (Inl (ConnLost e), d1)
    | (DbLost e, d1) \<Rightarrow> (Inl (ConnLost e), d1))"

definition insert_user :: "status \<Rightarrow> idb \<Rightarrow> db_err + idb" where
  "insert_user st d = Inr (d\<lparr>
     db_tables := (db_tables d)\<lparr>t_users := t_users (db_tables d) @
       [\<lparr>ur_id = db_next_user d, ur_status = st, ur_created = db_now d, ur_updated = db_now d, ur_login = None\<rparr>]\<rparr>,
     db_next_user := db_next_user d + 1\<rparr>)"

definition insert_cred ::
  "(string \<Rightarrow> string) \<Rightarrow> int \<Rightarrow> auth_type \<Rightarrow> string \<Rightarrow> idb \<Rightarrow> db_err + idb" where
  "insert_cred weight u ty ident d =
     (if \<not> fits 255 ident then Inl (MySQLError 1406)
      else if list_ex (\<lambda>c. cr_type c = ty \<and> weight (cr_ident c) = weight ident) (t_creds (db_tables d))
      then Inl (MySQLError 1062)
      else if \<not> has_user (db_tables d) u then Inl (MySQLError 1452)
      else Inr (d\<lparr>db_tables := (db_tables d)\<lparr>t_creds := t_creds (db_tables d) @
        [\<lparr>cr_user = u, cr_type = ty, cr_ident = ident\<rparr>]\<rparr>\<rparr>))"

definition insert_profile :: "int \<Rightarrow> string \<Rightarrow> string option \<Rightarrow> idb \<Rightarrow> db_err + idb" where
  "insert_profile u nick img d =
     (if \<not> fits 50 nick \<or> \<not> (case img of None \<Rightarrow> True | Some i \<Rightarrow> fits 512 i) then Inl (MySQLError 1406)
      else if list_ex (\<lambda>p. pr_user p = u) (t_profiles (db_tables d)) then Inl (MySQLError 1062)
      else if \<not> has_user (db_tables d) u then Inl (MySQLError 1452)
      else Inr (d\<lparr>db_tables := (db_tables d)\<lparr>t_profiles := t_profiles (db_tables d) @
        [\<lparr>pr_user = u, pr_nick = nick, pr_image = img, pr_score = 73 / 2\<rparr>]\<rparr>\<rparr>))"

text \<open>A JSON column keeps the parsed document.\<close>

definition insert_outbox :: "string \<Rightarrow> string \<Rightarrow> idb \<Rightarrow> db_err + idb" where
  "insert_outbox agg_id payload d = (case parse_doc payload of
      None \<Rightarrow> Inl (MySQLError 3140)
    | Some doc \<Rightarrow>
        if \<not> fits 64 agg_id then Inl (MySQLError 1406)
        else Inr (d\<lparr>db_tables := (db_tables d)\<lparr>t_outbox := t_outbox (db_tables d) @
          [\<lparr>ob_id = db_next_outbox d, ob_aggregate = ''user'', ob_aggregate_id = agg_id,
            ob_event = ''user.created'', ob_payload = doc, ob_published = None\<rparr>]\<rparr>,
          db_next_outbox := db_next_outbox d + 1\<rparr>))"

definition update_users :: "int \<Rightarrow> (user_row \<Rightarrow> user_row) \<Rightarrow> idb \<Rightarrow> db_err + idb" where
  "update_users u f d = Inr (d\<lparr>db_tables := (db_tables d)\<lparr>t_users := map (\<lambda>r.
     if ur_id r = u then (if f r = r then r else (f r)\<lparr>ur_updated := db_now d\<rparr>) else r)
     (t_users (db_tables d))\<rparr>\<rparr>)"

definition upsert_device ::
  "(string \<Rightarrow> string) \<Rightarrow> int \<Rightarrow> string \<Rightarrow> string option \<Rightarrow> idb \<Rightarrow> db_err + idb" where
  "upsert_device weight u fp nm d =
     (if \<not> fits 128 fp \<or> \<not> (case nm of None \<Rightarrow> True | Some n \<Rightarrow> fits 100 n) then Inl (MySQLError 1406)
      else if list_ex (\<lambda>v. dv_user v = u \<and> weight (dv_print v) = weight fp) (t_devices (db_tables d))
      then Inr (d\<lparr>db_tables := (db_tables d)\<lparr>t_devices := map (\<lambda>v.
          if dv_user v = u \<and> weight (dv_print v) = weight fp then v\<lparr>dv_seen := db_now d, dv_name := nm\<rparr> else v)
          (t_devices (db_tables d))\<rparr>\<rparr>)
      else if \<not> has_user (db_tables d) u then Inl (MySQLError 1452)
      else Inr (d\<lparr>db_tables := (db_tables d)\<lparr>t_devices := t_devices (db_tables d) @
        [\<lparr>dv_user = u, dv_print = fp, dv_name = nm, dv_seen = db_now d\<rparr>]\<rparr>\<rparr>))"

section \<open>Transactions\<close>

text \<open>
  Between BEGIN and COMMIT any error rolls the tables back; the counters keep what they gave out.
  Of a commit whose answer is lost the tables stay.
\<close>

definition rollback :: "idb \<Rightarrow> idb \<Rightarrow> idb" where
  "rollback d0 d = d\<lparr>db_tables := db_tables d0\<rparr>"

definition commit_tx :: "idb \<Rightarrow> (idb, db_err, unit) action" where
  "commit_tx d0 d = (case take_fault d of
      (DbOk, d1) \<Rightarrow> (Inr (), d1)
    | (DbFail e, d1) \<Rightarrow> (Inl (ConnLost e), rollback d0 d1)
    | (DbLost e, d1) \<Rightarrow> (Inl (ConnLost e), d1))"

definition tx_stmt :: "idb \<Rightarrow> (idb \<Rightarrow> db_err + idb) \<Rightarrow> (idb, db_err, unit) action" where
  "tx_stmt d0 f d = (case exec_stmt f d of
      (Inl e, d1) \<Rightarrow> (Inl e, rollback d0 d1) | (Inr u, d1) \<Rightarrow> (Inr u, d1))"

section \<open>The repository\<close>

datatype repo_err = RepoDomain domain_err | RepoDb string db_err

definition nullable :: "string \<Rightarrow> string option" where
  "nullable s = (if s = [] then None else Some s)"

definition created_payload :: "int \<Rightarrow> string \<Rightarrow> string" where
  "created_payload userID nickname =
     print_json (JObj [(''nickname'', JStr nickname), (''user_id'', JNum (FormatInt userID))])"

text \<open>
  The statements between BEGIN (in state \<open>d0\<close>) and COMMIT; \<^verbatim>\<open>LastInsertId\<close> is the counter before the
  insert. Then \<^verbatim>\<open>CreateUser\<close> with its \<^verbatim>\<open>BeginTx\<close>.
\<close>

definition create_tx ::
  "(string \<Rightarrow> string) \<Rightarrow> datetime \<Rightarrow> string \<Rightarrow> profile \<Rightarrow> status \<Rightarrow> idb \<Rightarrow> (idb, repo_err, user) action" where
  "create_tx weight now phone prof st d0 =
     (let userID = db_next_user d0 in
      and_then (map_err (RepoDb ''insert user'') (tx_stmt d0 (insert_user st))) (\<lambda>_.
      and_then (map_err (\<lambda>e. if e = MySQLError 1062 then RepoDomain ErrCredentialConflict
                             else RepoDb ''insert credential'' e)
        (tx_stmt d0 (insert_cred weight userID AuthTypePhone phone))) (\<lambda>_.
      and_then (map_err (RepoDb ''insert profile'')
        (tx_stmt d0 (insert_profile userID (p_Nickname prof) (nullable (p_ProfileImageURL prof))))) (\<lambda>_.
      and_then (map_err (RepoDb ''insert outbox'')
        (tx_stmt d0 (insert_outbox (FormatInt userID) (created_payload userID (p_Nickname prof))))) (\<lambda>_.
      and_then (map_err (RepoDb ''commit'') (commit_tx d0)) (\<lambda>_.
      ok \<lparr>u_ID = userID, u_Status = st, u_CreatedAt = now, u_UpdatedAt = now, u_LastLoginAt = None\<rparr>))))))"

definition CreateUser ::
  "(string \<Rightarrow> string) \<Rightarrow> datetime \<Rightarrow> string \<Rightarrow> profile \<Rightarrow> status \<Rightarrow> (idb, repo_err, user) action" where
  "CreateUser weight now phone prof st d0 = (case take_fault d0 of
      (DbOk, d) \<Rightarrow> create_tx weight now phone prof st d d
    | (DbFail e, d) \<Rightarrow> (Inl (RepoDb ''begin tx'' (ConnLost e)), d)
    | (DbLost e, d) \<Rightarrow> (Inl (RepoDb ''begin tx'' (ConnLost e)), d))"

definition user_of_row :: "user_row \<Rightarrow> user" where
  "user_of_row r = \<lparr>u_ID = ur_id r, u_Status = ur_status r, u_CreatedAt = ur_created r,
     u_UpdatedAt = ur_updated r, u_LastLoginAt = ur_login r\<rparr>"

definition no_rows :: "db_err \<Rightarrow> repo_err" where
  "no_rows e = (if e = ErrNoRows then RepoDomain ErrUserNotFound else RepoDb [] e)"

definition user_by_id :: "tables \<Rightarrow> int \<Rightarrow> user_row option" where
  "user_by_id T u = find (\<lambda>r. ur_id r = u) (t_users T)"

text \<open>The rows of the join of credentials and users, and the first one.\<close>

definition join_rows :: "(string \<Rightarrow> string) \<Rightarrow> auth_type \<Rightarrow> string \<Rightarrow> tables \<Rightarrow> user_row list" where
  "join_rows weight ty ident T =
     concat (map (\<lambda>c. if cr_type c = ty \<and> weight (cr_ident c) = weight ident
       then filter (\<lambda>r. ur_id r = cr_user c) (t_users T) else []) (t_creds T))"

definition cred_join :: "(string \<Rightarrow> string) \<Rightarrow> auth_type \<Rightarrow> string \<Rightarrow> tables \<Rightarrow> user_row option" where
  "cred_join weight ty ident T = (case join_rows weight ty ident T of [] \<Rightarrow> None | r # _ \<Rightarrow> Some r)"

definition FindByCredential ::
  "(string \<Rightarrow> string) \<Rightarrow> auth_type \<Rightarrow> string \<Rightarrow> (idb, repo_err, user) action" where
  "FindByCredential weight ty ident =
     and_then (map_err no_rows (query (cred_join weight ty ident))) (\<lambda>r. ok (user_of_row r))"

definition FindByID :: "int \<Rightarrow> (idb, repo_err, user) action" where
  "FindByID userID =
     and_then (map_err no_rows (query (\<lambda>T. user_by_id T userID))) (\<lambda>r. ok (user_of_row r))"

definition GetProfile :: "int \<Rightarrow> (idb, repo_err, profile) action" where
  "GetProfile userID =
     and_then (map_err no_rows (query (\<lambda>T. find (\<lambda>p. pr_user p = userID) (t_profiles T)))) (\<lambda>p.
     ok \<lparr>p_UserID = pr_user p, p_Nickname = pr_nick p,
         p_ProfileImageURL = (case pr_image p of None \<Rightarrow> [] | Some i \<Rightarrow> i), p_ReputationScore = pr_score p\<rparr>)"

definition UpdateStatus :: "int \<Rightarrow> status \<Rightarrow> (idb, repo_err, unit) action" where
  "UpdateStatus userID st =
     map_err (RepoDb []) (exec_stmt (update_users userID (\<lambda>r. r\<lparr>ur_status := st\<rparr>)))"

definition TouchLastLogin :: "int \<Rightarrow> (idb, repo_err, unit) action" where
  "TouchLastLogin userID =
     map_err (RepoDb []) (exec_stmt (\<lambda>d. update_users userID (\<lambda>r. r\<lparr>ur_login := Some (db_now d)\<rparr>) d))"

definition device_known :: "(string \<Rightarrow> string) \<Rightarrow> tables \<Rightarrow> int \<Rightarrow> string \<Rightarrow> bool" where
  "device_known weight T u fp = list_ex (\<lambda>v. dv_user v = u \<and> weight (dv_print v) = weight fp) (t_devices T)"

definition IsDeviceKnown ::
  "(string \<Rightarrow> string) \<Rightarrow> int \<Rightarrow> string \<Rightarrow> (idb, repo_err, bool) action" where
  "IsDeviceKnown weight userID fp d =
     (case query (\<lambda>T. if device_known weight T userID fp then Some () else None) d of
        (Inl ErrNoRows, d1) \<Rightarrow> (Inr False, d1)
      | (Inl e, d1) \<Rightarrow> (Inl (RepoDb [] e), d1)
      | (Inr _, d1) \<Rightarrow> (Inr True, d1))"

definition UpsertDevice ::
  "(string \<Rightarrow> string) \<Rightarrow> int \<Rightarrow> string \<Rightarrow> string \<Rightarrow> (idb, repo_err, unit) action" where
  "UpsertDevice weight userID fp nm =
     map_err (RepoDb []) (exec_stmt (upsert_device weight userID fp (nullable nm)))"

section \<open>Accounts are complete or absent\<close>

text \<open>The four rows of one account.\<close>

definition add_account :: "idb \<Rightarrow> string \<Rightarrow> profile \<Rightarrow> status \<Rightarrow> tables" where
  "add_account d phone prof st = (let T = db_tables d; u = db_next_user d in T\<lparr>
     t_users := t_users T @
       [\<lparr>ur_id = u, ur_status = st, ur_created = db_now d, ur_updated = db_now d, ur_login = None\<rparr>],
     t_creds := t_creds T @ [\<lparr>cr_user = u, cr_type = AuthTypePhone, cr_ident = phone\<rparr>],
     t_profiles := t_profiles T @
       [\<lparr>pr_user = u, pr_nick = p_Nickname prof, pr_image = nullable (p_ProfileImageURL prof), pr_score = 73 / 2\<rparr>],
     t_outbox := t_outbox T @
       [\<lparr>ob_id = db_next_outbox d, ob_aggregate = ''user'', ob_aggregate_id = FormatInt u,
         ob_event = ''user.created'',
         ob_payload = JObj [(''nickname'', JStr (p_Nickname prof)), (''user_id'', JNum (FormatInt u))],
         ob_published = None\<rparr>]\<rparr>)"

lemma take_fault_eq:
  "take_fault d = (f, d1) \<Longrightarrow> \<exists>fs. d1 = d\<lparr>db_faults := fs\<rparr>"
  by (cases d) (auto simp: take_fault_def split: list.splits)

lemma exec_stmtE:
  assumes "exec_stmt f d = (r, d')"
  obtains (unchanged) e fs where "r = Inl e" and "d' = d\<lparr>db_faults := fs\<rparr>"
      and "f (d\<lparr>db_faults := fs\<rparr>) = Inl e \<or> (\<exists>x. e = ConnLost x)"
  | (ran) fs where "f (d\<lparr>db_faults := fs\<rparr>) = Inr d'" and "r = Inr () \<or> (\<exists>x. r = Inl (ConnLost x))"
proof -
  obtain flt d1 where tk: "take_fault d = (flt, d1)" by fastforce
  from take_fault_eq [OF this] obtain fs where "d1 = d\<lparr>db_faults := fs\<rparr>" by blast
  with assms tk that show ?thesis
    by (auto simp: exec_stmt_def split: fault.splits sum.splits)
qed

lemma queryE:
  assumes "query f d = (r, d')"
  obtains fs where "d' = d\<lparr>db_faults := fs\<rparr>"
    and "r = (case f (db_tables d) of None \<Rightarrow> Inl ErrNoRows | Some a \<Rightarrow> Inr a) \<or> (\<exists>x. r = Inl (ConnLost x))"
proof -
  obtain flt d1 where tk: "take_fault d = (flt, d1)" by fastforce
  from take_fault_eq [OF this] obtain fs where "d1 = d\<lparr>db_faults := fs\<rparr>" by blast
  with assms tk that show ?thesis by (auto simp: query_def split: fault.splits)
qed

text \<open>What every statement of the transaction keeps: the clock, and counters that never go down.\<close>

definition counters_ok :: "idb \<Rightarrow> idb \<Rightarrow> bool" where
  "counters_ok d d' \<longleftrightarrow> db_now d' = db_now d \<and> db_next_user d \<le> db_next_user d' \<and> db_next_outbox d \<le> db_next_outbox d'"

definition keeps_counters :: "(idb \<Rightarrow> db_err + idb) \<Rightarrow> bool" where
  "keeps_counters f \<longleftrightarrow> (\<forall>x y. f x = Inr y \<longrightarrow> counters_ok x y)"

lemma counters_refl [simp]: "counters_ok d d" "counters_ok d (d\<lparr>db_faults := fs\<rparr>)"
  by (simp_all add: counters_ok_def)

lemma tx_stmtE:
  assumes "tx_stmt d0 f d = (r, d')" and "keeps_counters f"
  obtains (failed) e where "r = Inl e" and "db_tables d' = db_tables d0" and "counters_ok d d'"
      and "(\<exists>fs. f (d\<lparr>db_faults := fs\<rparr>) = Inl e) \<or> (\<exists>x. e = ConnLost x)"
  | (ran) fs where "f (d\<lparr>db_faults := fs\<rparr>) = Inr d'" and "r = Inr ()"
proof -
  obtain q d1 where ex: "exec_stmt f d = (q, d1)" by fastforce
  then show ?thesis
  proof (cases rule: exec_stmtE)
    case (unchanged e fs)
    show ?thesis
    proof (rule that(1))
      show "r = Inl e" "db_tables d' = db_tables d0" "counters_ok d d'"
        using unchanged assms(1) ex by (auto simp: tx_stmt_def rollback_def counters_ok_def)
      show "(\<exists>fs. f (d\<lparr>db_faults := fs\<rparr>) = Inl e) \<or> (\<exists>x. e = ConnLost x)"
        using unchanged(3) by blast
    qed
  next
    case (ran fs)
    from assms(2) ran(1) have "counters_ok d d1" by (fastforce simp: keeps_counters_def counters_ok_def)
    with ran assms(1) ex that(1,2) show ?thesis
      by (auto simp: tx_stmt_def rollback_def counters_ok_def)
  qed
qed

lemma statement_counters:
  "keeps_counters (insert_user st)" "keeps_counters (insert_cred weight u ty x)"
  "keeps_counters (insert_profile u n i)" "keeps_counters (insert_outbox a p)"
  by (auto simp: keeps_counters_def counters_ok_def insert_user_def insert_cred_def insert_profile_def
      insert_outbox_def split: if_splits option.splits)

lemma created_payload_doc:
  "parse_doc (created_payload u n) = Some (JObj [(''nickname'', JStr n), (''user_id'', JNum (FormatInt u))])"
  unfolding created_payload_def by (rule parse_print) (auto intro!: int_json.intros)

lemma commit_txE:
  assumes "commit_tx d0 d = (r, d')"
  obtains (rolled) e where "r = Inl e" and "db_tables d' = db_tables d0" and "counters_ok d d'"
  | (kept) fs where "d' = d\<lparr>db_faults := fs\<rparr>" and "r = Inr () \<or> (\<exists>e. r = Inl e)"
proof -
  obtain flt d1 where tk: "take_fault d = (flt, d1)" by fastforce
  from take_fault_eq [OF this] obtain fs where "d1 = d\<lparr>db_faults := fs\<rparr>" by blast
  with assms tk that show ?thesis
    by (auto simp: commit_tx_def rollback_def counters_ok_def split: fault.splits)
qed

definition new_user :: "idb \<Rightarrow> datetime \<Rightarrow> status \<Rightarrow> user" where
  "new_user d now st =
     \<lparr>u_ID = db_next_user d, u_Status = st, u_CreatedAt = now, u_UpdatedAt = now, u_LastLoginAt = None\<rparr>"

lemma tx_bindE:
  assumes "and_then (map_err g (tx_stmt d0 f)) k d = (r, d')" and "keeps_counters f"
  obtains (failed) e where "r = Inl (g e)" and "db_tables d' = db_tables d0" and "counters_ok d d'"
      and "(\<exists>fs. f (d\<lparr>db_faults := fs\<rparr>) = Inl e) \<or> (\<exists>x. e = ConnLost x)"
  | (ran) fs d1 where "f (d\<lparr>db_faults := fs\<rparr>) = Inr d1" and "k () d1 = (r, d')"
proof -
  obtain q d1 where run: "tx_stmt d0 f d = (q, d1)" by fastforce
  from run assms(2) show thesis
  proof (cases rule: tx_stmtE)
    case (failed e)
    show thesis
    proof (rule that(1))
      show "r = Inl (g e)" "db_tables d' = db_tables d0" "counters_ok d d'"
        using failed assms(1) run by (auto simp: and_then_def map_err_def)
    qed (fact failed(4))
  next
    case (ran fs)
    with assms(1) run show thesis by (intro that(2)) (auto simp: and_then_def map_err_def)
  qed
qed

lemmas user_bindE [consumes 1, case_names failed ran] = tx_bindE [OF _ statement_counters(1)]
lemmas cred_bindE [consumes 1, case_names failed ran] = tx_bindE [OF _ statement_counters(2)]
lemmas profile_bindE [consumes 1, case_names failed ran] = tx_bindE [OF _ statement_counters(3)]
lemmas outbox_bindE [consumes 1, case_names failed ran] = tx_bindE [OF _ statement_counters(4)]

text \<open>The state after each of the four inserts.\<close>

lemma insert_cred_Inr:
  "insert_cred weight u ty x d = Inr d1 \<Longrightarrow>
     d1 = d\<lparr>db_tables := (db_tables d)\<lparr>t_creds := t_creds (db_tables d) @
        [\<lparr>cr_user = u, cr_type = ty, cr_ident = x\<rparr>]\<rparr>\<rparr> \<and>
     \<not> list_ex (\<lambda>c. cr_type c = ty \<and> weight (cr_ident c) = weight x) (t_creds (db_tables d))"
  by (auto simp: insert_cred_def split: if_splits)

lemma insert_cred_1062:
  "insert_cred weight u ty x d = Inl (MySQLError 1062) \<Longrightarrow>
     list_ex (\<lambda>c. cr_type c = ty \<and> weight (cr_ident c) = weight x) (t_creds (db_tables d))"
  by (auto simp: insert_cred_def split: if_splits)

lemma insert_profile_Inr:
  "insert_profile u n i d = Inr d1 \<Longrightarrow>
     d1 = d\<lparr>db_tables := (db_tables d)\<lparr>t_profiles := t_profiles (db_tables d) @
        [\<lparr>pr_user = u, pr_nick = n, pr_image = i, pr_score = 73 / 2\<rparr>]\<rparr>\<rparr> \<and>
     \<not> list_ex (\<lambda>p. pr_user p = u) (t_profiles (db_tables d)) \<and> fits 50 n"
  by (auto simp: insert_profile_def split: if_splits)

lemma insert_outbox_Inr:
  "insert_outbox a (created_payload u n) d = Inr d1 \<Longrightarrow>
     d1 = d\<lparr>db_tables := (db_tables d)\<lparr>t_outbox := t_outbox (db_tables d) @
          [\<lparr>ob_id = db_next_outbox d, ob_aggregate = ''user'', ob_aggregate_id = a,
            ob_event = ''user.created'',
            ob_payload = JObj [(''nickname'', JStr n), (''user_id'', JNum (FormatInt u))],
            ob_published = None\<rparr>]\<rparr>,
          db_next_outbox := db_next_outbox d + 1\<rparr> \<and> fits 64 a"
  by (auto simp: insert_outbox_def created_payload_doc split: if_splits)

lemma create_txE:
  assumes "create_tx weight now phone prof st d d = (r, d')"
  obtains (none) "isl r" and "db_tables d' = db_tables d" and "counters_ok d d'"
      and "r = Inl (RepoDomain ErrCredentialConflict) \<Longrightarrow>
        list_ex (\<lambda>c. cr_type c = AuthTypePhone \<and> weight (cr_ident c) = weight phone) (t_creds (db_tables d))"
  | (all) fs where "d' = d\<lparr>db_faults := fs, db_tables := add_account d phone prof st,
        db_next_user := db_next_user d + 1, db_next_outbox := db_next_outbox d + 1\<rparr>"
      and "\<not> list_ex (\<lambda>c. cr_type c = AuthTypePhone \<and> weight (cr_ident c) = weight phone) (t_creds (db_tables d))"
      and "\<not> list_ex (\<lambda>p. pr_user p = db_next_user d) (t_profiles (db_tables d))"
      and "r = Inr (new_user d now st) \<or> (\<exists>e. r = Inl (RepoDb ''commit'' e))"
      and "fits 50 (p_Nickname prof)" and "fits 64 (FormatInt (db_next_user d))"
  using assms unfolding create_tx_def Let_def
proof (cases rule: user_bindE)
  case (failed e)
  then show thesis using none by simp
next
  case (ran f1 d1)
  note d1 = ran(1) [unfolded insert_user_def, simplified, symmetric]
  have c1: "counters_ok d d1" by (simp add: d1 counters_ok_def)
  from ran(2) show thesis
  proof (cases rule: cred_bindE)
    case (failed e)
    show thesis
    proof (rule none)
      show "isl r" "db_tables d' = db_tables d" using failed by auto
      show "counters_ok d d'" using failed(3) c1 by (simp add: counters_ok_def)
      assume "r = Inl (RepoDomain ErrCredentialConflict)"
      with failed(1) have "e = MySQLError 1062" by (simp split: if_splits)
      with failed(4) show "list_ex (\<lambda>c. cr_type c = AuthTypePhone \<and> weight (cr_ident c) = weight phone) (t_creds (db_tables d))"
        using insert_cred_1062 by (fastforce simp: d1)
    qed
  next
    case (ran f2 d2)
    note d2 = insert_cred_Inr [OF ran(1), THEN conjunct1]
    note free = insert_cred_Inr [OF ran(1), THEN conjunct2]
    have c2: "counters_ok d d2" using c1 by (simp add: d2 counters_ok_def)
    from ran(2) show thesis
    proof (cases rule: profile_bindE)
      case (failed e)
      with c2 show thesis by (intro none) (auto simp: counters_ok_def)
    next
      case (ran f3 d3)
      note d3 = insert_profile_Inr [OF ran(1), THEN conjunct1]
      note free' = insert_profile_Inr [OF ran(1), THEN conjunct2]
      have c3: "counters_ok d d3" using c2 by (simp add: d3 counters_ok_def)
      from ran(2) show thesis
      proof (cases rule: outbox_bindE)
        case (failed e)
        with c3 show thesis by (intro none) (auto simp: counters_ok_def)
      next
        case (ran f4 d4)
        note d4 = insert_outbox_Inr [OF ran(1), THEN conjunct1]
        note id_fits = insert_outbox_Inr [OF ran(1), THEN conjunct2]
        have c4: "counters_ok d d4" using c3 by (simp add: d4 counters_ok_def)
        obtain q d5 where com: "commit_tx d d4 = (q, d5)" by fastforce
        with ran(2) have r: "d' = d5" "r = (case q of Inl e \<Rightarrow> Inl (RepoDb ''commit'' e) | Inr _ \<Rightarrow> Inr (new_user d now st))"
          by (auto simp: and_then_def map_err_def ok_def new_user_def split: sum.splits)
        from com show thesis
        proof (cases rule: commit_txE)
          case (rolled e)
          with c4 r show thesis by (intro none) (auto simp: counters_ok_def)
        next
          case (kept f5)
          have "d' = d\<lparr>db_faults := f5, db_tables := add_account d phone prof st,
            db_next_user := db_next_user d + 1, db_next_outbox := db_next_outbox d + 1\<rparr>"
            using r(1) kept(1) by (simp add: d1 d2 d3 d4 add_account_def Let_def)
          with r(2) kept(2) free free' id_fits show thesis by (intro all) (auto simp: d1 d2 d3)
        qed
      qed
    qed
  qed
qed

lemma CreateUserE:
  assumes "CreateUser weight now phone prof st d = (r, d')"
  obtains (none) "isl r" and "db_tables d' = db_tables d" and "counters_ok d d'"
      and "r = Inl (RepoDomain ErrCredentialConflict) \<Longrightarrow>
        list_ex (\<lambda>c. cr_type c = AuthTypePhone \<and> weight (cr_ident c) = weight phone) (t_creds (db_tables d))"
  | (all) fs where "d' = d\<lparr>db_faults := fs, db_tables := add_account d phone prof st,
        db_next_user := db_next_user d + 1, db_next_outbox := db_next_outbox d + 1\<rparr>"
      and "\<not> list_ex (\<lambda>c. cr_type c = AuthTypePhone \<and> weight (cr_ident c) = weight phone) (t_creds (db_tables d))"
      and "\<not> list_ex (\<lambda>p. pr_user p = db_next_user d) (t_profiles (db_tables d))"
      and "r = Inr (new_user d now st) \<or> (\<exists>e. r = Inl (RepoDb ''commit'' e))"
      and "fits 50 (p_Nickname prof)" and "fits 64 (FormatInt (db_next_user d))"
proof -
  obtain flt d1 where tk: "take_fault d = (flt, d1)" by fastforce
  from take_fault_eq [OF this] obtain fs where d1: "d1 = d\<lparr>db_faults := fs\<rparr>" by blast
  show thesis
  proof (cases flt)
    case DbOk
    with assms tk have "create_tx weight now phone prof st d1 d1 = (r, d')" by (simp add: CreateUser_def)
    then show thesis
    proof (cases rule: create_txE)
      case none
      with that(1) d1 show thesis by (simp add: counters_ok_def)
    next
      case (all gs)
      with that(2) [of gs] d1 show thesis by (simp add: add_account_def new_user_def Let_def)
    qed
  next
    case (DbFail e)
    with assms tk d1 show thesis by (intro that(1)) (auto simp: CreateUser_def)
  next
    case (DbLost e)
    with assms tk d1 show thesis by (intro that(1)) (auto simp: CreateUser_def)
  qed
qed

section \<open>The interface of the auth flows\<close>

record 'd user_repo =
  repo_CreateUser :: "string \<Rightarrow> profile \<Rightarrow> status \<Rightarrow> ('d, repo_err, user) action"
  repo_FindByCredential :: "auth_type \<Rightarrow> string \<Rightarrow> ('d, repo_err, user) action"
  repo_FindByID :: "int \<Rightarrow> ('d, repo_err, user) action"
  repo_GetProfile :: "int \<Rightarrow> ('d, repo_err, profile) action"
  repo_TouchLastLogin :: "int \<Rightarrow> ('d, repo_err, unit) action"
  repo_UpdateStatus :: "int \<Rightarrow> status \<Rightarrow> ('d, repo_err, unit) action"
  repo_UpsertDevice :: "int \<Rightarrow> string \<Rightarrow> string \<Rightarrow> ('d, repo_err, unit) action"
  repo_IsDeviceKnown :: "int \<Rightarrow> string \<Rightarrow> ('d, repo_err, bool) action"

text \<open>The repository as \<^verbatim>\<open>NewUserRepo\<close> provides it; \<open>now\<close> is the clock that \<^verbatim>\<open>CreateUser\<close> reads.\<close>

definition mysql_repo :: "(string \<Rightarrow> string) \<Rightarrow> datetime \<Rightarrow> idb user_repo" where
  "mysql_repo weight now = \<lparr>
     repo_CreateUser = CreateUser weight now,
     repo_FindByCredential = FindByCredential weight,
     repo_FindByID = FindByID,
     repo_GetProfile = GetProfile,
     repo_TouchLastLogin = TouchLastLogin,
     repo_UpdateStatus = UpdateStatus,
     repo_UpsertDevice = UpsertDevice weight,
     repo_IsDeviceKnown = IsDeviceKnown weight\<rparr>"

text \<open>
  What the flows rely on: accounts with a status, the holder of a phone number and the known devices,
  as functions of the store, and what each operation does to them, with an invariant of the store.
\<close>

locale user_store =
  fixes repo :: "'d user_repo" and wf :: "'d \<Rightarrow> bool" and acct :: "'d \<Rightarrow> int \<Rightarrow> status option"
    and holder :: "'d \<Rightarrow> string \<Rightarrow> int option" and known :: "'d \<Rightarrow> int \<Rightarrow> string \<Rightarrow> bool"
  assumes find_cred: "wf d \<Longrightarrow> repo_FindByCredential repo AuthTypePhone ph d = (ru, d') \<Longrightarrow>
      wf d' \<and> acct d' = acct d \<and> holder d' = holder d \<and> known d' = known d \<and>
      (\<forall>u. ru = Inr u \<longrightarrow> holder d ph = Some (u_ID u) \<and> acct d (u_ID u) = Some (u_Status u)) \<and>
      (ru = Inl (RepoDomain ErrUserNotFound) \<longrightarrow> holder d ph = None)"
    and find_id: "wf d \<Longrightarrow> repo_FindByID repo i d = (ru, d') \<Longrightarrow>
      wf d' \<and> acct d' = acct d \<and> holder d' = holder d \<and> known d' = known d \<and>
      (\<forall>u. ru = Inr u \<longrightarrow> u_ID u = i \<and> acct d i = Some (u_Status u))"
    and get_profile: "wf d \<Longrightarrow> repo_GetProfile repo i d = (rp, d') \<Longrightarrow>
      wf d' \<and> acct d' = acct d \<and> holder d' = holder d \<and> known d' = known d"
    and touch: "wf d \<Longrightarrow> repo_TouchLastLogin repo i d = (rn, d') \<Longrightarrow>
      wf d' \<and> acct d' = acct d \<and> holder d' = holder d \<and> known d' = known d"
    and update_status: "wf d \<Longrightarrow> repo_UpdateStatus repo i st d = (rn, d') \<Longrightarrow>
      wf d' \<and> holder d' = holder d \<and> known d' = known d \<and>
      (isl rn \<and> acct d' = acct d \<or> acct d' = (acct d)(i := map_option (\<lambda>_. st) (acct d i)))"
    and upsert_dev: "wf d \<Longrightarrow> repo_UpsertDevice repo i fp nm d = (rn, d') \<Longrightarrow>
      wf d' \<and> acct d' = acct d \<and> holder d' = holder d \<and>
      (\<forall>j g. known d j g \<longrightarrow> known d' j g) \<and> (\<forall>j g. known d' j g \<longrightarrow> known d j g \<or> j = i) \<and>
      (rn = Inr () \<longrightarrow> known d' i fp)"
    and is_known: "wf d \<Longrightarrow> repo_IsDeviceKnown repo i fp d = (rb, d') \<Longrightarrow>
      wf d' \<and> acct d' = acct d \<and> holder d' = holder d \<and> known d' = known d \<and>
      (\<forall>b. rb = Inr b \<longrightarrow> b = known d i fp)"
    and create: "wf d \<Longrightarrow> repo_CreateUser repo ph prof st d = (ru, d') \<Longrightarrow>
      wf d' \<and> known d' = known d \<and>
      (ru = Inl (RepoDomain ErrCredentialConflict) \<longrightarrow> holder d ph \<noteq> None) \<and>
      (isl ru \<and> acct d' = acct d \<and> holder d' = holder d \<or>
       (\<exists>i. holder d ph = None \<and> acct d i = None \<and> acct d' = (acct d)(i \<mapsto> st) \<and> holder d' ph = Some i \<and>
         (\<forall>q j. holder d q = Some j \<longrightarrow> holder d' q = Some j) \<and>
         (\<forall>u. ru = Inr u \<longrightarrow> u_ID u = i \<and> u_Status u = st)))"

section \<open>The invariant of the tables\<close>

text \<open>Ids below the counters and unique, foreign keys, and every account with its phone credential, its profile and its event.\<close>

definition announces :: "user_row \<Rightarrow> outbox_row \<Rightarrow> bool" where
  "announces r b \<longleftrightarrow> ob_aggregate_id b = FormatInt (ur_id r) \<and> ob_event b = ''user.created''"

definition db_wf :: "idb \<Rightarrow> bool" where
  "db_wf d \<longleftrightarrow> (let T = db_tables d in
     distinct (map ur_id (t_users T)) \<and> (\<forall>r \<in> set (t_users T). ur_id r < db_next_user d) \<and>
     (\<forall>c \<in> set (t_creds T). has_user T (cr_user c)) \<and>
     distinct (map pr_user (t_profiles T)) \<and> (\<forall>p \<in> set (t_profiles T). has_user T (pr_user p)) \<and>
     (\<forall>v \<in> set (t_devices T). has_user T (dv_user v)) \<and>
     sorted_wrt (<) (map ob_id (t_outbox T)) \<and> (\<forall>b \<in> set (t_outbox T). ob_id b < db_next_outbox d) \<and>
     (\<forall>r \<in> set (t_users T). (\<exists>c \<in> set (t_creds T). cr_user c = ur_id r) \<and>
        (\<exists>p \<in> set (t_profiles T). pr_user p = ur_id r) \<and> (\<exists>b \<in> set (t_outbox T). announces r b)))"

abbreviation acct_of :: "idb \<Rightarrow> int \<Rightarrow> status option" where
  "acct_of d u \<equiv> map_option ur_status (user_by_id (db_tables d) u)"

abbreviation holder_of :: "(string \<Rightarrow> string) \<Rightarrow> idb \<Rightarrow> string \<Rightarrow> int option" where
  "holder_of weight d ph \<equiv> map_option ur_id (cred_join weight AuthTypePhone ph (db_tables d))"

abbreviation known_of :: "(string \<Rightarrow> string) \<Rightarrow> idb \<Rightarrow> int \<Rightarrow> string \<Rightarrow> bool" where
  "known_of weight d \<equiv> device_known weight (db_tables d)"

lemma has_user_iff: "has_user T u \<longleftrightarrow> u \<in> ur_id ` set (t_users T)"
  by (auto simp: has_user_def list_ex_iff)

lemma db_wf_create:
  assumes "db_wf d"
  shows "db_wf (d\<lparr>db_faults := fs, db_tables := add_account d phone prof st,
        db_next_user := db_next_user d + 1, db_next_outbox := db_next_outbox d + 1\<rparr>)"
  using assms
  unfolding db_wf_def Let_def add_account_def
  by (fastforce simp: has_user_iff sorted_wrt_append announces_def image_iff)

lemma db_wf_faults [simp]: "db_wf (d\<lparr>db_faults := fs\<rparr>) = db_wf d"
  by (simp add: db_wf_def)

lemma db_wf_grow:
  "db_wf d \<Longrightarrow> db_tables d' = db_tables d \<Longrightarrow> counters_ok d d' \<Longrightarrow> db_wf d'"
  by (fastforce simp: db_wf_def counters_ok_def Let_def)

lemma find_distinct:
  "distinct (map f xs) \<Longrightarrow> x \<in> set xs \<Longrightarrow> find (\<lambda>y. f y = f x) xs = Some x"
  by (induction xs) (auto simp: image_iff)

lemma find_append: "find P (xs @ ys) = (case find P xs of None \<Rightarrow> find P ys | Some x \<Rightarrow> Some x)"
  by (induction xs) auto

lemma user_by_id_mem: "user_by_id T u = Some r \<Longrightarrow> r \<in> set (t_users T) \<and> ur_id r = u"
  unfolding user_by_id_def by (induction "t_users T") (auto simp: find_Some_iff)

lemma user_by_id_row: "db_wf d \<Longrightarrow> r \<in> set (t_users (db_tables d)) \<Longrightarrow> user_by_id (db_tables d) (ur_id r) = Some r"
  by (auto simp: user_by_id_def db_wf_def Let_def intro: find_distinct)

lemma cred_join_mem: "cred_join weight ty x T = Some r \<Longrightarrow> r \<in> set (t_users T)"
proof -
  assume "cred_join weight ty x T = Some r"
  then have "r \<in> set (join_rows weight ty x T)" by (auto simp: cred_join_def split: list.splits)
  then show ?thesis by (auto simp: join_rows_def split: if_splits)
qed

lemma cred_join_None:
  assumes "db_wf d"
  shows "cred_join weight ty x (db_tables d) = None \<longleftrightarrow>
    \<not> list_ex (\<lambda>c. cr_type c = ty \<and> weight (cr_ident c) = weight x) (t_creds (db_tables d))"
proof -
  have "cred_join weight ty x (db_tables d) = None \<longleftrightarrow> join_rows weight ty x (db_tables d) = []"
    by (auto simp: cred_join_def split: list.splits)
  also have "\<dots> \<longleftrightarrow> (\<forall>c \<in> set (t_creds (db_tables d)). cr_type c = ty \<and> weight (cr_ident c) = weight x \<longrightarrow>
      filter (\<lambda>r. ur_id r = cr_user c) (t_users (db_tables d)) = [])"
    by (simp only: join_rows_def concat_eq_Nil_conv set_map ball_simps) auto
  also have "\<dots> \<longleftrightarrow> (\<forall>c \<in> set (t_creds (db_tables d)). \<not> (cr_type c = ty \<and> weight (cr_ident c) = weight x))"
  proof (rule ball_cong [OF refl])
    fix c assume "c \<in> set (t_creds (db_tables d))"
    then have "cr_user c \<in> ur_id ` set (t_users (db_tables d))"
      using assms by (simp add: db_wf_def Let_def has_user_iff)
    then have "filter (\<lambda>r. ur_id r = cr_user c) (t_users (db_tables d)) \<noteq> []"
      by (auto simp: filter_empty_conv)
    then show "(cr_type c = ty \<and> weight (cr_ident c) = weight x \<longrightarrow>
        filter (\<lambda>r. ur_id r = cr_user c) (t_users (db_tables d)) = []) \<longleftrightarrow>
      \<not> (cr_type c = ty \<and> weight (cr_ident c) = weight x)" by simp
  qed
  finally show ?thesis by (auto simp: list_ex_iff)
qed

text \<open>A new account adds its row at the end of its phone's join and changes no other.\<close>

lemma join_rows_add:
  assumes "db_wf d"
  shows "join_rows weight AuthTypePhone x (add_account d phone prof st) =
    join_rows weight AuthTypePhone x (db_tables d) @
    (if weight phone = weight x
     then [\<lparr>ur_id = db_next_user d, ur_status = st, ur_created = db_now d, ur_updated = db_now d, ur_login = None\<rparr>]
     else [])"
proof -
  let ?T = "db_tables d" and ?T' = "add_account d phone prof st"
  have old: "filter (\<lambda>r. ur_id r = cr_user c) (t_users ?T') = filter (\<lambda>r. ur_id r = cr_user c) (t_users ?T)"
    if "c \<in> set (t_creds ?T)" for c
    using assms that by (fastforce simp: db_wf_def Let_def add_account_def has_user_iff)
  have new: "filter (\<lambda>r. ur_id r = db_next_user d) (t_users ?T) = []"
    using assms by (fastforce simp: db_wf_def Let_def filter_empty_conv)
  have creds: "t_creds ?T' = t_creds ?T @ [\<lparr>cr_user = db_next_user d, cr_type = AuthTypePhone, cr_ident = phone\<rparr>]"
    by (simp add: add_account_def Let_def)
  have users: "t_users ?T' = t_users ?T @
      [\<lparr>ur_id = db_next_user d, ur_status = st, ur_created = db_now d, ur_updated = db_now d, ur_login = None\<rparr>]"
    by (simp add: add_account_def Let_def)
  have "concat (map (\<lambda>c. if cr_type c = AuthTypePhone \<and> weight (cr_ident c) = weight x
       then filter (\<lambda>r. ur_id r = cr_user c) (t_users ?T') else []) (t_creds ?T)) =
     join_rows weight AuthTypePhone x ?T"
    unfolding join_rows_def by (rule arg_cong [where f = concat]) (rule map_cong [OF refl], simp add: old)
  then show ?thesis by (simp add: join_rows_def creds users new)
qed

lemma user_by_id_add:
  assumes "db_wf d"
  shows "map_option ur_status (user_by_id (add_account d phone prof st) u) =
    ((\<lambda>u. acct_of d u)(db_next_user d \<mapsto> st)) u"
proof -
  have old: "ur_id r \<noteq> db_next_user d" if "r \<in> set (t_users (db_tables d))" for r
    using assms that by (auto simp: db_wf_def Let_def)
  have step: "user_by_id (add_account d phone prof st) u =
      (case user_by_id (db_tables d) u of
         None \<Rightarrow> if u = db_next_user d then Some \<lparr>ur_id = db_next_user d, ur_status = st,
            ur_created = db_now d, ur_updated = db_now d, ur_login = None\<rparr> else None
       | Some r \<Rightarrow> Some r)"
    by (simp add: user_by_id_def add_account_def Let_def find_append split: option.split)
  show ?thesis
  proof (cases "user_by_id (db_tables d) u")
    case (Some r)
    with user_by_id_mem old have "u \<noteq> db_next_user d" by blast
    with step Some show ?thesis by simp
  qed (use step in simp)
qed

text \<open>Updates of one user's row.\<close>

lemma map_users_ids:
  "(\<And>r. ur_id (f r) = ur_id r) \<Longrightarrow> update_users u f d = Inr d' \<Longrightarrow>
     map ur_id (t_users (db_tables d')) = map ur_id (t_users (db_tables d)) \<and>
     t_creds (db_tables d') = t_creds (db_tables d) \<and> t_profiles (db_tables d') = t_profiles (db_tables d) \<and>
     t_devices (db_tables d') = t_devices (db_tables d) \<and> t_outbox (db_tables d') = t_outbox (db_tables d) \<and>
     db_next_user d' = db_next_user d \<and> db_next_outbox d' = db_next_outbox d"
  by (auto simp: update_users_def)

lemma db_wf_ids:
  assumes "db_wf d" and "map ur_id (t_users (db_tables d')) = map ur_id (t_users (db_tables d))"
    and "t_creds (db_tables d') = t_creds (db_tables d)" and "t_profiles (db_tables d') = t_profiles (db_tables d)"
    and "t_devices (db_tables d') = t_devices (db_tables d)" and "t_outbox (db_tables d') = t_outbox (db_tables d)"
    and "db_next_user d' = db_next_user d" and "db_next_outbox d' = db_next_outbox d"
  shows "db_wf d'"
proof -
  have ids: "ur_id ` set (t_users (db_tables d')) = ur_id ` set (t_users (db_tables d))"
    using assms(2) by (metis set_map)
  have has: "has_user (db_tables d') = has_user (db_tables d)" by (rule ext) (simp add: has_user_iff ids)
  have all: "(\<forall>r \<in> set (t_users (db_tables d')). P (ur_id r)) = (\<forall>r \<in> set (t_users (db_tables d)). P (ur_id r))" for P
    using ids by (metis (no_types, lifting) image_iff)
  show ?thesis using assms(1)
    unfolding db_wf_def Let_def announces_def has assms(2-8)
    using all [of "\<lambda>i. i < db_next_user d"]
      all [of "\<lambda>i. (\<exists>c \<in> set (t_creds (db_tables d)). cr_user c = i) \<and>
        (\<exists>p \<in> set (t_profiles (db_tables d)). pr_user p = i) \<and>
        (\<exists>b \<in> set (t_outbox (db_tables d)). ob_aggregate_id b = FormatInt i \<and> ob_event b = ''user.created'')"]
    by simp
qed

lemma update_usersE:
  assumes "map_err g (exec_stmt (\<lambda>d. update_users u (f d) d)) d = (r, d')"
  obtains (unchanged) fs where "isl r" and "d' = d\<lparr>db_faults := fs\<rparr>"
  | (ran) fs where "update_users u (f (d\<lparr>db_faults := fs\<rparr>)) (d\<lparr>db_faults := fs\<rparr>) = Inr d'"
proof -
  obtain q where run: "exec_stmt (\<lambda>d. update_users u (f d) d) d = (q, d')" and q: "isl q = isl r"
    using assms by (auto elim!: map_errE)
  from run show thesis
    by (cases rule: exec_stmtE) (use q that in auto)
qed

lemma find_map_same:
  "(\<And>r. ur_id (h r) = ur_id r) \<Longrightarrow>
     find (\<lambda>r. ur_id r = i) (map h xs) = map_option h (find (\<lambda>r. ur_id r = i) xs)"
  by (induction xs) auto

lemma join_rows_map:
  "(\<And>r. ur_id (h r) = ur_id r) \<Longrightarrow>
     join_rows weight ty x (T\<lparr>t_users := map h (t_users T)\<rparr>) = map h (join_rows weight ty x T)"
proof -
  assume h: "\<And>r. ur_id (h r) = ur_id r"
  have "filter (\<lambda>r. ur_id r = u) (map h xs) = map h (filter (\<lambda>r. ur_id r = u) xs)" for u xs
    by (induction xs) (auto simp: h)
  then show ?thesis by (auto simp: join_rows_def map_concat intro!: arg_cong [where f = concat])
qed

lemma update_users_view:
  assumes "\<And>r. ur_id (f r) = ur_id r" and "update_users u f d = Inr d'"
  shows "holder_of weight d' = holder_of weight d" and "known_of weight d' = known_of weight d"
    and "acct_of d' i = (if i = u then map_option (\<lambda>r. ur_status (f r)) (user_by_id (db_tables d) u) else acct_of d i)"
proof -
  let ?h = "\<lambda>r. if ur_id r = u then (if f r = r then r else (f r)\<lparr>ur_updated := db_now d\<rparr>) else r"
  have d': "db_tables d' = (db_tables d)\<lparr>t_users := map ?h (t_users (db_tables d))\<rparr>"
    using assms(2) by (auto simp: update_users_def)
  have h: "ur_id (?h r) = ur_id r" for r using assms(1) by simp
  have "cred_join weight AuthTypePhone ph (db_tables d') = map_option ?h (cred_join weight AuthTypePhone ph (db_tables d))" for ph
    unfolding d' cred_join_def join_rows_map [OF h] by (auto split: list.splits)
  then show "holder_of weight d' = holder_of weight d"
    by (intro ext) (simp add: option.map_comp comp_def h)
  show "known_of weight d' = known_of weight d" by (intro ext) (simp add: d' device_known_def)
  have "user_by_id (db_tables d') i = map_option ?h (user_by_id (db_tables d) i)"
    unfolding d' user_by_id_def by (simp add: find_map_same [OF h])
  then show "acct_of d' i = (if i = u then map_option (\<lambda>r. ur_status (f r)) (user_by_id (db_tables d) u) else acct_of d i)"
    using user_by_id_mem [of "db_tables d" i]
    by (cases "user_by_id (db_tables d) i") auto
qed

lemma update_users_wf:
  assumes "\<And>r. ur_id (f r) = ur_id r" and "update_users u f d = Inr d'" and "db_wf d"
  shows "db_wf d'"
proof -
  note ids = map_users_ids [OF assms(1,2)]
  show ?thesis by (rule db_wf_ids [OF assms(3)]) (use ids in blast)+
qed

lemma TouchLastLogin_eq:
  "TouchLastLogin i = map_err (RepoDb [])
     (exec_stmt (\<lambda>d. update_users i ((\<lambda>d r. r\<lparr>ur_login := Some (db_now d)\<rparr>) d) d))"
  by (simp add: TouchLastLogin_def)

lemma UpdateStatus_eq:
  "UpdateStatus i st = map_err (RepoDb []) (exec_stmt (\<lambda>d. update_users i ((\<lambda>d r. r\<lparr>ur_status := st\<rparr>) d) d))"
  by (simp add: UpdateStatus_def eta_contract_eq)

lemma upsertE:
  assumes "UpsertDevice weight i fp nm d = (r, d')"
  obtains (unchanged) fs where "isl r" and "d' = d\<lparr>db_faults := fs\<rparr>"
  | (ran) fs where "upsert_device weight i fp (nullable nm) (d\<lparr>db_faults := fs\<rparr>) = Inr d'"
proof -
  obtain q where run: "exec_stmt (upsert_device weight i fp (nullable nm)) d = (q, d')" and q: "isl q = isl r"
    using assms unfolding UpsertDevice_def by (auto elim!: map_errE)
  from run show thesis by (cases rule: exec_stmtE) (use q that in auto)
qed

lemma upsert_device_Inr:
  assumes "upsert_device weight i fp nm d = Inr d'"
  shows "t_users (db_tables d') = t_users (db_tables d)" and "t_creds (db_tables d') = t_creds (db_tables d)"
    and "known_of weight d j g \<Longrightarrow> known_of weight d' j g"
    and "known_of weight d' j g \<Longrightarrow> known_of weight d j g \<or> j = i"
    and "known_of weight d' i fp"
    and "db_wf d \<Longrightarrow> db_wf d'"
proof -
  have dev: "map (\<lambda>v. (dv_user v, dv_print v)) (t_devices (db_tables d')) =
      map (\<lambda>v. (dv_user v, dv_print v)) (t_devices (db_tables d)) @
        (if list_ex (\<lambda>v. dv_user v = i \<and> weight (dv_print v) = weight fp) (t_devices (db_tables d)) then [] else [(i, fp)])"
    and rest: "db_tables d' = (db_tables d)\<lparr>t_devices := t_devices (db_tables d')\<rparr>"
      "db_next_user d' = db_next_user d" "db_next_outbox d' = db_next_outbox d"
    and user: "list_ex (\<lambda>v. dv_user v = i \<and> weight (dv_print v) = weight fp) (t_devices (db_tables d)) \<or> has_user (db_tables d) i"
    using assms by (auto simp: upsert_device_def split: if_splits)
  have known: "known_of weight e j g = list_ex (\<lambda>(u, p). u = j \<and> weight p = weight g)
      (map (\<lambda>v. (dv_user v, dv_print v)) (t_devices (db_tables e)))" for e j g
    by (simp add: device_known_def list_ex_iff)
  show "t_users (db_tables d') = t_users (db_tables d)" "t_creds (db_tables d') = t_creds (db_tables d)"
    by (subst rest(1), simp)+
  show "known_of weight d' j g" if "known_of weight d j g" using that unfolding known dev by (simp add: list_ex_iff)
  show "known_of weight d j g \<or> j = i" if "known_of weight d' j g"
    using that unfolding known dev by (auto simp: list_ex_iff split: if_splits)
  show "known_of weight d' i fp" unfolding known dev by (auto simp: list_ex_iff split: if_splits)
  show "db_wf d'" if wf: "db_wf d"
  proof -
    have eq: "fst ` set (map (\<lambda>v. (dv_user v, dv_print v)) xs) = dv_user ` set xs" for xs
      by (simp add: image_image)
    have "dv_user ` set (t_devices (db_tables d')) \<subseteq> dv_user ` set (t_devices (db_tables d)) \<union> {i}"
      unfolding eq [symmetric] dev by auto
    moreover have "list_ex (\<lambda>v. dv_user v = i \<and> weight (dv_print v) = weight fp) (t_devices (db_tables d)) \<Longrightarrow>
        has_user (db_tables d) i"
      using wf by (auto simp: db_wf_def Let_def list_ex_iff)
    ultimately have dv: "\<forall>v \<in> set (t_devices (db_tables d')). has_user (db_tables d) (dv_user v)"
      using wf user by (fastforce simp: db_wf_def Let_def)
    have same: "has_user (T\<lparr>t_devices := X\<rparr>) = has_user T" for T X by (rule ext) (simp add: has_user_def)
    have "db_wf (d\<lparr>db_tables := (db_tables d)\<lparr>t_devices := t_devices (db_tables d')\<rparr>\<rparr>)"
      using wf dv by (simp add: db_wf_def Let_def same)
    then show ?thesis using rest by (simp add: db_wf_def)
  qed
qed

text \<open>What each statement of the repository does to the accounts, the holders of numbers and the known devices.\<close>

lemma mysql_find_cred:
  assumes wf: "db_wf d" and run: "repo_FindByCredential (mysql_repo weight now) AuthTypePhone ph d = (ru, d')"
  shows "db_wf d' \<and> acct_of d' = acct_of d \<and> holder_of weight d' = holder_of weight d \<and>
      known_of weight d' = known_of weight d \<and>
      (\<forall>u. ru = Inr u \<longrightarrow> holder_of weight d ph = Some (u_ID u) \<and> acct_of d (u_ID u) = Some (u_Status u)) \<and>
      (ru = Inl (RepoDomain ErrUserNotFound) \<longrightarrow> holder_of weight d ph = None)"
proof -
  obtain q where q: "query (cred_join weight AuthTypePhone ph) d = (q, d')"
    and ru: "ru = (case q of Inl e \<Rightarrow> Inl (no_rows e) | Inr r \<Rightarrow> Inr (user_of_row r))"
    using run by (auto simp: mysql_repo_def FindByCredential_def ok_def elim!: and_thenE map_errE)
  from q show ?thesis
    by (rule queryE) (use wf ru cred_join_mem user_by_id_row [OF wf] in
      \<open>force simp: no_rows_def user_of_row_def split: option.splits if_splits\<close>)
qed

lemma mysql_find_id:
  assumes wf: "db_wf d" and run: "repo_FindByID (mysql_repo weight now) i d = (ru, d')"
  shows "db_wf d' \<and> acct_of d' = acct_of d \<and> holder_of weight d' = holder_of weight d \<and>
      known_of weight d' = known_of weight d \<and>
      (\<forall>u. ru = Inr u \<longrightarrow> u_ID u = i \<and> acct_of d i = Some (u_Status u))"
proof -
  obtain q where q: "query (\<lambda>T. user_by_id T i) d = (q, d')"
    and ru: "ru = (case q of Inl e \<Rightarrow> Inl (no_rows e) | Inr r \<Rightarrow> Inr (user_of_row r))"
    using run by (auto simp: mysql_repo_def FindByID_def ok_def elim!: and_thenE map_errE)
  from q show ?thesis
    by (rule queryE) (use wf ru user_by_id_mem in
      \<open>force simp: no_rows_def user_of_row_def split: option.splits if_splits\<close>)
qed

lemma mysql_get_profile:
  assumes wf: "db_wf d" and run: "repo_GetProfile (mysql_repo weight now) i d = (rp, d')"
  shows "db_wf d' \<and> acct_of d' = acct_of d \<and> holder_of weight d' = holder_of weight d \<and>
      known_of weight d' = known_of weight d"
proof -
  obtain q where "query (\<lambda>T. find (\<lambda>p. pr_user p = i) (t_profiles T)) d = (q, d')"
    using run by (auto simp: mysql_repo_def GetProfile_def ok_def elim!: and_thenE map_errE)
  then show ?thesis by (rule queryE) (use wf in simp)
qed

lemma mysql_is_known:
  assumes wf: "db_wf d" and run: "repo_IsDeviceKnown (mysql_repo weight now) i fp d = (rb, d')"
  shows "db_wf d' \<and> acct_of d' = acct_of d \<and> holder_of weight d' = holder_of weight d \<and>
      known_of weight d' = known_of weight d \<and> (\<forall>b. rb = Inr b \<longrightarrow> b = known_of weight d i fp)"
proof -
  obtain q where q: "query (\<lambda>T. if device_known weight T i fp then Some () else None) d = (q, d')"
    and rb: "\<forall>b. rb = Inr b \<longrightarrow> q = Inl ErrNoRows \<and> \<not> b \<or> q = Inr () \<and> b"
    using run by (cases "query (\<lambda>T. if device_known weight T i fp then Some () else None) d")
      (auto simp: mysql_repo_def IsDeviceKnown_def split: sum.splits db_err.splits)
  from q show ?thesis
    by (rule queryE) (use wf rb in \<open>auto split: if_splits\<close>)
qed

lemma mysql_upsert_dev:
  assumes wf: "db_wf d" and run: "repo_UpsertDevice (mysql_repo weight now) i fp nm d = (rn, d')"
  shows "db_wf d' \<and> acct_of d' = acct_of d \<and> holder_of weight d' = holder_of weight d \<and>
      (\<forall>j g. known_of weight d j g \<longrightarrow> known_of weight d' j g) \<and>
      (\<forall>j g. known_of weight d' j g \<longrightarrow> known_of weight d j g \<or> j = i) \<and>
      (rn = Inr () \<longrightarrow> known_of weight d' i fp)"
proof -
  from run have "UpsertDevice weight i fp nm d = (rn, d')" by (simp add: mysql_repo_def)
  then show ?thesis
  proof (cases rule: upsertE)
    case (ran fs)
    note dev = upsert_device_Inr [OF ran]
    have rows: "t_users (db_tables d') = t_users (db_tables d)" "t_creds (db_tables d') = t_creds (db_tables d)"
      using dev(1,2) by simp_all
    have "acct_of d' = acct_of d" "holder_of weight d' = holder_of weight d"
      unfolding user_by_id_def cred_join_def join_rows_def rows by (rule refl)+
    with dev wf show ?thesis by auto
  qed (use wf in auto)
qed

lemma mysql_touch:
  assumes wf: "db_wf d" and run: "repo_TouchLastLogin (mysql_repo weight now) i d = (rn, d')"
  shows "db_wf d' \<and> acct_of d' = acct_of d \<and> holder_of weight d' = holder_of weight d \<and>
      known_of weight d' = known_of weight d"
proof -
  from run have "TouchLastLogin i d = (rn, d')" by (simp add: mysql_repo_def)
  then show ?thesis unfolding TouchLastLogin_eq
  proof (cases rule: update_usersE)
    case (ran fs)
    note up = update_users_view(1,2) [OF _ ran, where weight = weight] update_users_view(3) [OF _ ran]
    have "acct_of d' = acct_of d" using up(3) by (intro ext) (simp add: option.map_comp comp_def)
    moreover have "db_wf d'" by (rule update_users_wf [OF _ ran]) (simp_all add: wf)
    ultimately show ?thesis using up(1,2) by simp
  qed (use wf in auto)
qed

lemma mysql_update_status:
  assumes wf: "db_wf d" and run: "repo_UpdateStatus (mysql_repo weight now) i st d = (rn, d')"
  shows "db_wf d' \<and> holder_of weight d' = holder_of weight d \<and> known_of weight d' = known_of weight d \<and>
      (isl rn \<and> acct_of d' = acct_of d \<or> acct_of d' = (acct_of d)(i := map_option (\<lambda>_. st) (acct_of d i)))"
proof -
  from run have "UpdateStatus i st d = (rn, d')" by (simp add: mysql_repo_def)
  then show ?thesis unfolding UpdateStatus_eq
  proof (cases rule: update_usersE)
    case (ran fs)
    note up = update_users_view(1,2) [OF _ ran, where weight = weight] update_users_view(3) [OF _ ran]
    have "acct_of d' = (acct_of d)(i := map_option (\<lambda>_. st) (acct_of d i))"
      using up(3) by (intro ext) (simp add: option.map_comp comp_def)
    moreover have "db_wf d'" by (rule update_users_wf [OF _ ran]) (simp_all add: wf)
    ultimately show ?thesis using up(1,2) by simp
  qed (use wf in auto)
qed

lemma mysql_create:
  assumes wf: "db_wf d" and run: "repo_CreateUser (mysql_repo weight now) ph prof st d = (ru, d')"
  shows "db_wf d' \<and> known_of weight d' = known_of weight d \<and>
      (ru = Inl (RepoDomain ErrCredentialConflict) \<longrightarrow> holder_of weight d ph \<noteq> None) \<and>
      (isl ru \<and> acct_of d' = acct_of d \<and> holder_of weight d' = holder_of weight d \<or>
       (\<exists>i. holder_of weight d ph = None \<and> acct_of d i = None \<and> acct_of d' = (acct_of d)(i \<mapsto> st) \<and>
         holder_of weight d' ph = Some i \<and>
         (\<forall>q j. holder_of weight d q = Some j \<longrightarrow> holder_of weight d' q = Some j) \<and>
         (\<forall>u. ru = Inr u \<longrightarrow> u_ID u = i \<and> u_Status u = st)))"
proof -
  from run have "CreateUser weight now ph prof st d = (ru, d')" by (simp add: mysql_repo_def)
  then show ?thesis
  proof (cases rule: CreateUserE)
    case none
    then have "db_wf d'" using db_wf_grow [OF wf] by blast
    with none cred_join_None [OF wf] show ?thesis by auto
  next
    case (all fs)
    have wf': "db_wf d'" unfolding all(1) by (rule db_wf_create [OF wf])
    have T: "db_tables d' = add_account d ph prof st" by (simp add: all(1))
    have rows: "cred_join weight AuthTypePhone ph (db_tables d) = None"
      using cred_join_None [OF wf] all(2) by blast
    then have empty: "join_rows weight AuthTypePhone ph (db_tables d) = []"
      by (auto simp: cred_join_def split: list.splits)
    have acct: "acct_of d' = (acct_of d)(db_next_user d \<mapsto> st)"
      unfolding T by (intro ext) (rule user_by_id_add [OF wf])
    have "user_by_id (db_tables d) (db_next_user d) = None"
      using user_by_id_mem [of "db_tables d" "db_next_user d"] wf
      by (cases "user_by_id (db_tables d) (db_next_user d)") (auto simp: db_wf_def Let_def)
    moreover have "holder_of weight d' ph = Some (db_next_user d)"
      unfolding T by (simp add: cred_join_def join_rows_add [OF wf] empty)
    moreover have "holder_of weight d' q = Some j" if "holder_of weight d q = Some j" for q j
      using that unfolding T by (auto simp: cred_join_def join_rows_add [OF wf] split: list.splits)
    moreover have "known_of weight d' = known_of weight d"
      unfolding T by (intro ext) (simp add: device_known_def add_account_def Let_def)
    ultimately show ?thesis using wf' rows acct all(4)
      by (auto simp: new_user_def intro!: exI [of _ "db_next_user d"])
  qed
qed

interpretation mysql: user_store "mysql_repo weight now" db_wf acct_of "holder_of weight" "known_of weight"
  for weight now
  by unfold_locales ((rule mysql_find_cred mysql_find_id mysql_get_profile mysql_touch mysql_update_status mysql_upsert_dev
      mysql_is_known mysql_create; assumption)+)

section \<open>Without faults\<close>

lemma exec_ok:
  "db_faults d = [] \<Longrightarrow> exec_stmt f d = (case f d of Inl e \<Rightarrow> (Inl e, d) | Inr d2 \<Rightarrow> (Inr (), d2))"
  by (auto simp: exec_stmt_def take_fault_def split: sum.splits)

lemma query_ok:
  "db_faults d = [] \<Longrightarrow>
     query f d = ((case f (db_tables d) of None \<Rightarrow> Inl ErrNoRows | Some a \<Rightarrow> Inr a), d)"
  by (simp add: query_def take_fault_def)

lemma FindByID_ok:
  "db_faults d = [] \<Longrightarrow> user_by_id (db_tables d) u = Some r \<Longrightarrow> FindByID u d = (Inr (user_of_row r), d)"
  by (simp add: FindByID_def query_ok and_then_def map_err_def ok_def)

lemma GetProfile_ok:
  assumes "db_faults d = []" and "db_wf d" and "user_by_id (db_tables d) u = Some r"
  shows "\<exists>p. GetProfile u d = (Inr p, d)"
proof -
  from user_by_id_mem [OF assms(3)] assms(2) have "\<exists>p \<in> set (t_profiles (db_tables d)). pr_user p = u"
    by (auto simp: db_wf_def Let_def)
  then obtain p where "find (\<lambda>p. pr_user p = u) (t_profiles (db_tables d)) = Some p"
    by (cases "find (\<lambda>p. pr_user p = u) (t_profiles (db_tables d))") (auto simp: find_None_iff)
  then show ?thesis by (simp add: GetProfile_def query_ok [OF assms(1)] and_then_def map_err_def ok_def)
qed

lemma update_users_ok:
  "db_faults d = [] \<Longrightarrow>
     map_err g (exec_stmt (\<lambda>d. update_users u (f d) d)) d =
       (Inr (), case update_users u (f d) d of Inr d2 \<Rightarrow> d2)"
  by (simp add: exec_ok map_err_def update_users_def)

lemma CreateUser_ok:
  assumes "db_faults d = []" and "db_wf d" and "holder_of weight d phone = None"
    and "fits 255 phone" and "fits 50 (p_Nickname prof)" and "fits 512 (p_ProfileImageURL prof)"
    and "fits 64 (FormatInt (db_next_user d))"
  shows "CreateUser weight now phone prof st d = (Inr (new_user d now st),
    d\<lparr>db_tables := add_account d phone prof st, db_next_user := db_next_user d + 1,
      db_next_outbox := db_next_outbox d + 1\<rparr>)"
proof -
  have free: "\<not> list_ex (\<lambda>c. cr_type c = AuthTypePhone \<and> weight (cr_ident c) = weight phone) (t_creds (db_tables d))"
    using cred_join_None [OF assms(2)] assms(3) by simp
  have "\<not> has_user (db_tables d) (db_next_user d)"
    using assms(2) by (fastforce simp: db_wf_def Let_def has_user_iff)
  then have free': "\<not> list_ex (\<lambda>p. pr_user p = db_next_user d) (t_profiles (db_tables d))"
    using assms(2) by (auto simp: db_wf_def Let_def list_ex_iff)
  have fault: "take_fault d = (DbOk, d)" by (simp add: take_fault_def assms(1))
  show ?thesis
    using assms(1,4-7) free free'
    by (simp add: CreateUser_def fault create_tx_def Let_def and_then_def map_err_def tx_stmt_def exec_ok
        insert_user_def insert_cred_def insert_profile_def insert_outbox_def created_payload_doc has_user_def
        nullable_def commit_tx_def take_fault_def ok_def new_user_def add_account_def)
qed

section \<open>Concrete databases\<close>

definition demo_day :: datetime where
  "demo_day = \<lparr>dt_year = 2024, dt_month = 5, dt_day = 17, dt_nanos = 0\<rparr>"

definition empty_db :: idb where
  "empty_db = \<lparr>db_tables = \<lparr>t_users = [], t_creds = [], t_profiles = [], t_devices = [], t_outbox = []\<rparr>,
     db_next_user = 1, db_next_outbox = 1, db_now = demo_day, db_faults = []\<rparr>"

text \<open>The database after the account of phone 7 was created with a status.\<close>

definition account_db :: "status \<Rightarrow> idb" where
  "account_db st = empty_db\<lparr>
     db_tables := add_account empty_db ''7''
       \<lparr>p_UserID = 0, p_Nickname = ''ann'', p_ProfileImageURL = [], p_ReputationScore = 0\<rparr> st,
     db_next_user := 2, db_next_outbox := 2\<rparr>"

lemma empty_db_wf: "db_wf empty_db"
  by (simp add: db_wf_def empty_db_def)

lemma account_db_wf: "db_wf (account_db st)"
  using db_wf_create [OF empty_db_wf, where fs = "[]" and phone = "''7''" and st = st and
      prof = "\<lparr>p_UserID = 0, p_Nickname = ''ann'', p_ProfileImageURL = [], p_ReputationScore = 0\<rparr>"]
  by (simp add: account_db_def empty_db_def)

text \<open>
  C16. Registration is all or nothing under every fault. Either the call fails and the five tables
  are as before, or exactly the four rows of the new account are there: the user, the phone credential,
  the profile and the event for the outbox, all with the id the counter gave; then the call returns
  that user, or it reports a commit whose answer was lost. It reports a conflict only if the phone
  number has a credential, and never adds a second one.
\<close>

theorem create_user_atomic:
  assumes "CreateUser weight now phone prof st d = (r, d')"
  shows "db_tables d' = db_tables d \<and> isl r \<and>
       (r = Inl (RepoDomain ErrCredentialConflict) \<longrightarrow>
          (\<exists>c \<in> set (t_creds (db_tables d)). cr_type c = AuthTypePhone \<and> weight (cr_ident c) = weight phone)) \<or>
     db_tables d' = add_account d phone prof st \<and>
       (\<forall>c \<in> set (t_creds (db_tables d)). cr_type c = AuthTypePhone \<longrightarrow> weight (cr_ident c) \<noteq> weight phone) \<and>
       (r = Inr \<lparr>u_ID = db_next_user d, u_Status = st, u_CreatedAt = now, u_UpdatedAt = now, u_LastLoginAt = None\<rparr> \<or>
        (\<exists>e. r = Inl (RepoDb ''commit'' e)))"
  using assms by (cases rule: CreateUserE) (auto simp: list_ex_iff new_user_def)

theorem create_user_atomic_witness:
  "let p = CreateUser (\<lambda>x. x) demo_day ''8''
       \<lparr>p_UserID = 0, p_Nickname = ''bob'', p_ProfileImageURL = [], p_ReputationScore = 0\<rparr> ACTIVE
       ((account_db ACTIVE)\<lparr>db_faults := [DbOk, DbOk, DbOk, DbFail ''gone'']\<rparr>) in
     fst p = Inl (RepoDb ''insert profile'' (ConnLost ''gone'')) \<and>
     db_tables (snd p) = db_tables (account_db ACTIVE)"
proof -
  let ?prof = "\<lparr>p_UserID = 0, p_Nickname = ''bob'', p_ProfileImageURL = [], p_ReputationScore = 0\<rparr>"
  let ?d = "(account_db ACTIVE)\<lparr>db_faults := [DbOk, DbOk, DbOk, DbFail ''gone'']\<rparr>"
  obtain r d' where run: "CreateUser (\<lambda>x. x) demo_day ''8'' ?prof ACTIVE ?d = (r, d')" by fastforce
  have res: "fst (CreateUser (\<lambda>x. x) demo_day ''8'' ?prof ACTIVE ?d) = Inl (RepoDb ''insert profile'' (ConnLost ''gone''))"
    by (simp add: CreateUser_def take_fault_def create_tx_def Let_def and_then_def map_err_def tx_stmt_def exec_stmt_def
        insert_user_def insert_cred_def account_db_def empty_db_def add_account_def has_user_def fits_def char_count_def)
  with run create_user_atomic [OF run] show ?thesis by (auto simp: Let_def)
qed

end
