(* ===== verification/Auth.thy ===== *)
theory Auth
  imports Otp Devverify Rtr Token User_Repo
begin

text \<open>
  The auth flows (\<^verbatim>\<open>services/identity/internal/usecase/auth.go\<close>). A flow runs on a world of two stores,
  the Redis server and the user database. What Go reads from the clock and from random sources during
  a call is the record \<open>call_env\<close>. Log lines (the mock SMS among them) are left out.
\<close>

section \<open>Types\<close>

datatype auth_err =
    AuthOtp otp_err
  | AuthDev dev_err
  | AuthRtr rtr_err
  | AuthToken token_err
  | AuthDomain domain_err
  | AuthDb string db_err
  | ErrUnsupportedGrant string
  | ErrConsentRequired
  | ErrDeviceVerifyFailed

datatype NextStep = StepTokensIssued | StepSignupRequired | StepReactivationRequired | StepDeviceVerificationRequired

record TokenPair =
  tp_AccessToken :: string
  tp_IDToken :: string
  tp_RefreshToken :: string
  tp_ExpiresIn :: int

record VerifyResult =
  vr_NextStep :: NextStep
  vr_Tokens :: "TokenPair option"
  vr_FlowToken :: string

record ('s, 'd) world =
  w_redis :: 's
  w_db :: 'd

record ('s, 'd, 'sk) auth =
  a_repo :: "'d user_repo"
  a_redis :: "'s redis"
  a_jwt :: "'sk jwt_lib"
  a_issuer :: "'sk issuer"
  a_devMode :: bool

text \<open>The clock in Unix seconds, the UUID of an access token, the OTP draw, and the bytes of two opaque tokens.\<close>

record call_env =
  e_now :: int
  e_jti :: string
  e_draw :: "string + int"
  e_tok :: "byte list"
  e_fam :: "byte list"

definition on_redis :: "('s, 'e, 'a) action \<Rightarrow> (('s, 'd) world, 'e, 'a) action" where
  "on_redis m w = (case m (w_redis w) of (r, s) \<Rightarrow> (r, w\<lparr>w_redis := s\<rparr>))"

definition on_db :: "('d, 'e, 'a) action \<Rightarrow> (('s, 'd) world, 'e, 'a) action" where
  "on_db m w = (case m (w_db w) of (r, d) \<Rightarrow> (r, w\<lparr>w_db := d\<rparr>))"

definition repo_auth_err :: "repo_err \<Rightarrow> auth_err" where
  "repo_auth_err e = (case e of RepoDomain x \<Rightarrow> AuthDomain x | RepoDb c x \<Rightarrow> AuthDb c x)"

definition db_call :: "('d, repo_err, 'a) action \<Rightarrow> (('s, 'd) world, auth_err, 'a) action" where
  "db_call m = map_err repo_auth_err (on_db m)"

definition token_call :: "token_err + 'a \<Rightarrow> (('s, 'd) world, auth_err, 'a) action" where
  "token_call r = map_err AuthToken (lift_res r)"

section \<open>The flows\<close>

definition RequestOtp ::
  "('s, 'd, 'sk) auth \<Rightarrow> call_env \<Rightarrow> string \<Rightarrow> (('s, 'd) world, auth_err, int \<times> string) action" where
  "RequestOtp a env phone =
     and_then (map_err AuthOtp (on_redis (otp_Request (a_redis a) (e_draw env) phone))) (\<lambda>code.
     ok (Seconds CodeTTL, if a_devMode a then code else []))"

definition buildJWTs ::
  "('s, 'd, 'sk) auth \<Rightarrow> call_env \<Rightarrow> user \<Rightarrow> (('s, 'd) world, auth_err, TokenPair) action" where
  "buildJWTs a env u =
     and_then (db_call (repo_GetProfile (a_repo a) (u_ID u))) (\<lambda>profile.
     and_then (token_call (AccessToken (a_jwt a) (a_issuer a) (e_now env) (e_jti env) (u_ID u)
       (status_string (u_Status u)))) (\<lambda>access.
     and_then (token_call (IDToken (a_jwt a) (a_issuer a) (e_now env) (u_ID u) (p_Nickname profile))) (\<lambda>idToken.
     ok \<lparr>tp_AccessToken = access, tp_IDToken = idToken, tp_RefreshToken = [],
         tp_ExpiresIn = Seconds AccessTokenTTL\<rparr>)))"

definition issueTokens ::
  "('s, 'd, 'sk) auth \<Rightarrow> call_env \<Rightarrow> user \<Rightarrow> (('s, 'd) world, auth_err, TokenPair) action" where
  "issueTokens a env u =
     and_then (buildJWTs a env u) (\<lambda>pair.
     and_then (map_err AuthRtr (on_redis (rtr_Issue (a_redis a) (e_tok env) (e_fam env) (u_ID u)))) (\<lambda>refresh.
     ok (pair\<lparr>tp_RefreshToken := refresh\<rparr>)))"

definition register_device ::
  "('s, 'd, 'sk) auth \<Rightarrow> int \<Rightarrow> string \<Rightarrow> string \<Rightarrow> (('s, 'd) world, auth_err, unit) action" where
  "register_device a userID fingerprint deviceName =
     (if fingerprint \<noteq> [] then db_call (repo_UpsertDevice (a_repo a) userID fingerprint deviceName) else ok ())"

definition finishLogin ::
  "('s, 'd, 'sk) auth \<Rightarrow> call_env \<Rightarrow> user \<Rightarrow> string \<Rightarrow> string \<Rightarrow> (('s, 'd) world, auth_err, TokenPair) action" where
  "finishLogin a env u fingerprint deviceName =
     and_then (register_device a (u_ID u) fingerprint deviceName) (\<lambda>_.
     and_then (db_call (repo_TouchLastLogin (a_repo a) (u_ID u))) (\<lambda>_.
     issueTokens a env u))"

definition flow_step ::
  "('s, 'd, 'sk) auth \<Rightarrow> call_env \<Rightarrow> NextStep \<Rightarrow> string \<Rightarrow> string \<Rightarrow> (('s, 'd) world, auth_err, VerifyResult) action" where
  "flow_step a env nxt purpose subject =
     and_then (token_call (FlowToken (a_jwt a) (a_issuer a) (e_now env) purpose subject)) (\<lambda>flowToken.
     ok \<lparr>vr_NextStep = nxt, vr_Tokens = None, vr_FlowToken = flowToken\<rparr>)"

text \<open>The part of \<^verbatim>\<open>VerifyOtp\<close> that logs a user in (device registered or no fingerprint), its switch, and the whole.\<close>

definition login_active ::
  "('s, 'd, 'sk) auth \<Rightarrow> call_env \<Rightarrow> user \<Rightarrow> (('s, 'd) world, auth_err, VerifyResult) action" where
  "login_active a env u =
     and_then (db_call (repo_TouchLastLogin (a_repo a) (u_ID u))) (\<lambda>_.
     and_then (issueTokens a env u) (\<lambda>tokens.
     ok \<lparr>vr_NextStep = StepTokensIssued, vr_Tokens = Some tokens, vr_FlowToken = []\<rparr>))"

definition route_login ::
  "('s, 'd, 'sk) auth \<Rightarrow> call_env \<Rightarrow> user \<Rightarrow> string \<Rightarrow> string \<Rightarrow> (('s, 'd) world, auth_err, VerifyResult) action" where
  "route_login a env u fingerprint deviceName = (case u_Status u of
      ACTIVE \<Rightarrow>
        (if fingerprint \<noteq> [] then
           and_then (db_call (repo_IsDeviceKnown (a_repo a) (u_ID u) fingerprint)) (\<lambda>known.
           if \<not> known then
             flow_step a env StepDeviceVerificationRequired FlowDeviceVerify (FormatInt (u_ID u))
           else
             and_then (db_call (repo_UpsertDevice (a_repo a) (u_ID u) fingerprint deviceName)) (\<lambda>_.
             login_active a env u))
         else login_active a env u)
    | DORMANT \<Rightarrow> flow_step a env StepReactivationRequired FlowReactivation (FormatInt (u_ID u))
    | st \<Rightarrow> fail (AuthDomain (ErrLoginNotAllowed st)))"

text \<open>An error that \<^verbatim>\<open>errors.Is(err, ErrUserNotFound)\<close> recognises is handled, the others are returned.\<close>

definition VerifyOtp ::
  "('s, 'd, 'sk) auth \<Rightarrow> call_env \<Rightarrow> string \<Rightarrow> string \<Rightarrow> string \<Rightarrow> string \<Rightarrow> (('s, 'd) world, auth_err, VerifyResult) action" where
  "VerifyOtp a env phone code fingerprint deviceName =
     and_then (map_err AuthOtp (on_redis (otp_Verify (a_redis a) phone code))) (\<lambda>_ w.
     case db_call (repo_FindByCredential (a_repo a) AuthTypePhone phone) w of
       (Inl e, w1) \<Rightarrow>
         if e = AuthDomain ErrUserNotFound then flow_step a env StepSignupRequired FlowSignup phone w1
         else (Inl e, w1)
     | (Inr u, w1) \<Rightarrow> route_login a env u fingerprint deviceName w1)"

text \<open>\<^verbatim>\<open>newUser\<close> is a fresh PENDING user, moved to ACTIVE by the domain's state machine.\<close>

definition signup_status :: "domain_err + status" where
  "signup_status = (case TransitionTo ACTIVE
      \<lparr>u_ID = 0, u_Status = PENDING, u_CreatedAt = \<lparr>dt_year = 1, dt_month = 1, dt_day = 1, dt_nanos = 0\<rparr>,
       u_UpdatedAt = \<lparr>dt_year = 1, dt_month = 1, dt_day = 1, dt_nanos = 0\<rparr>, u_LastLoginAt = None\<rparr> of
      (Inl e, _) \<Rightarrow> Inl e | (Inr _, u) \<Rightarrow> Inr (u_Status u))"

definition CompleteSignup ::
  "('s, 'd, 'sk) auth \<Rightarrow> call_env \<Rightarrow> string \<Rightarrow> string \<Rightarrow> string \<Rightarrow> string \<Rightarrow> string \<Rightarrow>
   (('s, 'd) world, auth_err, TokenPair) action" where
  "CompleteSignup a env flowToken nickname profileImageURL fingerprint deviceName =
     and_then (token_call (VerifyFlowToken (a_jwt a) (a_issuer a) (e_now env) flowToken FlowSignup)) (\<lambda>phone.
     and_then (map_err AuthDomain (lift_res signup_status)) (\<lambda>newStatus.
     and_then (db_call (repo_CreateUser (a_repo a) phone
       \<lparr>p_UserID = 0, p_Nickname = nickname, p_ProfileImageURL = profileImageURL, p_ReputationScore = 0\<rparr>
       newStatus)) (\<lambda>u.
     and_then (register_device a (u_ID u) fingerprint deviceName) (\<lambda>_.
     issueTokens a env u))))"

definition flowUserID ::
  "('s, 'd, 'sk) auth \<Rightarrow> call_env \<Rightarrow> string \<Rightarrow> string \<Rightarrow> token_err + int" where
  "flowUserID a env flowToken purpose =
     (case VerifyFlowToken (a_jwt a) (a_issuer a) (e_now env) flowToken purpose of
        Inl e \<Rightarrow> Inl e
      | Inr sub \<Rightarrow> (case ParseInt sub of None \<Rightarrow> Inl ErrInvalidFlowToken | Some userID \<Rightarrow> Inr userID))"

definition CompleteReactivation ::
  "('s, 'd, 'sk) auth \<Rightarrow> call_env \<Rightarrow> string \<Rightarrow> bool \<Rightarrow> string \<Rightarrow> string \<Rightarrow>
   (('s, 'd) world, auth_err, TokenPair) action" where
  "CompleteReactivation a env flowToken privacyConsent fingerprint deviceName =
     (if \<not> privacyConsent then fail ErrConsentRequired
      else
        and_then (token_call (flowUserID a env flowToken FlowReactivation)) (\<lambda>userID.
        and_then (db_call (repo_FindByID (a_repo a) userID)) (\<lambda>found.
        case TransitionTo ACTIVE found of
          (Inl e, _) \<Rightarrow> fail (AuthDomain e)
        | (Inr _, u) \<Rightarrow>
            and_then (db_call (repo_UpdateStatus (a_repo a) (u_ID u) (u_Status u))) (\<lambda>_.
            finishLogin a env u fingerprint deviceName))))"

definition VerifyDevice ::
  "('s, 'd, 'sk) auth \<Rightarrow> call_env \<Rightarrow> string \<Rightarrow> string \<Rightarrow> string \<Rightarrow> string \<Rightarrow>
   (('s, 'd) world, auth_err, TokenPair) action" where
  "VerifyDevice a env flowToken registrationMonth fingerprint deviceName =
     and_then (token_call (flowUserID a env flowToken FlowDeviceVerify)) (\<lambda>userID.
     and_then (map_err AuthDev (on_redis (dev_Attempt (a_redis a) userID))) (\<lambda>_.
     and_then (db_call (repo_FindByID (a_repo a) userID)) (\<lambda>u.
     if format_year_month (u_CreatedAt u) \<noteq> registrationMonth then fail ErrDeviceVerifyFailed
     else
       and_then (map_err AuthDev (on_redis (dev_Reset (a_redis a) userID))) (\<lambda>_.
       finishLogin a env u fingerprint deviceName))))"

definition Refresh ::
  "('s, 'd, 'sk) auth \<Rightarrow> call_env \<Rightarrow> string \<Rightarrow> string \<Rightarrow> (('s, 'd) world, auth_err, TokenPair) action" where
  "Refresh a env grantType refreshToken =
     (if grantType \<noteq> ''refresh_token'' then fail (ErrUnsupportedGrant grantType)
      else
        and_then (map_err AuthRtr (on_redis (rtr_Rotate (a_redis a) (e_tok env) refreshToken))) (\<lambda>(newRefresh, userID).
        and_then (db_call (repo_FindByID (a_repo a) userID)) (\<lambda>u.
        and_then (buildJWTs a env u) (\<lambda>pair.
        ok (pair\<lparr>tp_RefreshToken := newRefresh\<rparr>)))))"

section \<open>Calls and stores\<close>

lemma on_redis_db: "on_redis m w = (r, w') \<Longrightarrow> w_db w' = w_db w \<and> m (w_redis w) = (r, w_redis w')"
  by (auto simp: on_redis_def split: prod.splits)

lemma on_db_redis: "on_db m w = (r, w') \<Longrightarrow> w_redis w' = w_redis w \<and> m (w_db w) = (r, w_db w')"
  by (auto simp: on_db_def split: prod.splits)

lemma db_callE:
  assumes "db_call m w = (r, w')"
  obtains (err) e where "m (w_db w) = (Inl e, w_db w')" and "r = Inl (repo_auth_err e)" and "w_redis w' = w_redis w"
  | (val) x where "m (w_db w) = (Inr x, w_db w')" and "r = Inr x" and "w_redis w' = w_redis w"
  using assms unfolding db_call_def by (auto elim!: map_errE dest!: on_db_redis)

lemma token_callE:
  assumes "token_call q w = (r, w')"
  obtains (err) e where "q = Inl e" and "r = Inl (AuthToken e)" and "w' = w"
  | (val) x where "q = Inr x" and "r = Inr x" and "w' = w"
  using assms unfolding token_call_def lift_res_def by (auto elim!: map_errE)

lemma signup_status_eq: "signup_status = Inr ACTIVE"
  by (simp add: signup_status_def TransitionTo_def CanTransitionTo_def)

lemma repo_auth_err_not_found [simp]: "repo_auth_err e = AuthDomain x \<longleftrightarrow> e = RepoDomain x"
  by (cases e) (auto simp: repo_auth_err_def)

text \<open>
  A relation between databases that an action keeps, whatever it returns, as long as the database is
  well formed.
\<close>

definition db_keeps :: "('d \<Rightarrow> bool) \<Rightarrow> ('d \<Rightarrow> 'd \<Rightarrow> bool) \<Rightarrow> (('s, 'd) world, 'e, 'a) action \<Rightarrow> bool" where
  "db_keeps I P m \<longleftrightarrow> (\<forall>w r w'. I (w_db w) \<longrightarrow> m w = (r, w') \<longrightarrow> I (w_db w') \<and> P (w_db w) (w_db w'))"

named_theorems keeps_intros \<open>what actions keep of the database\<close>

lemma db_keepsD: "db_keeps I P m \<Longrightarrow> I (w_db w) \<Longrightarrow> m w = (r, w') \<Longrightarrow> I (w_db w') \<and> P (w_db w) (w_db w')"
  by (simp add: db_keeps_def)

lemma db_keeps_snd: "db_keeps I P m \<Longrightarrow> I (w_db w) \<Longrightarrow> I (w_db (snd (m w))) \<and> P (w_db w) (w_db (snd (m w)))"
  by (cases "m w") (auto dest: db_keepsD)

lemma db_keeps_ok [keeps_intros]: "reflp P \<Longrightarrow> db_keeps I P (ok x)"
  by (auto simp: db_keeps_def ok_def reflp_def)

lemma db_keeps_fail [keeps_intros]: "reflp P \<Longrightarrow> db_keeps I P (fail e)"
  by (auto simp: db_keeps_def fail_def reflp_def)

lemma db_keeps_lift_res [keeps_intros]: "reflp P \<Longrightarrow> db_keeps I P (lift_res q)"
  by (auto simp: db_keeps_def lift_res_def reflp_def)

lemma db_keeps_on_redis [keeps_intros]: "reflp P \<Longrightarrow> db_keeps I P (on_redis m)"
  by (auto simp: db_keeps_def reflp_def dest!: on_redis_db)

lemma db_keeps_map_err [keeps_intros]: "db_keeps I P m \<Longrightarrow> db_keeps I P (map_err g m)"
  by (auto simp: db_keeps_def elim!: map_errE)

lemma db_keeps_token_call [keeps_intros]: "reflp P \<Longrightarrow> db_keeps I P (token_call q)"
  unfolding token_call_def by (intro keeps_intros)

definition op_keeps :: "('d \<Rightarrow> bool) \<Rightarrow> ('d \<Rightarrow> 'd \<Rightarrow> bool) \<Rightarrow> ('d, 'e, 'a) action \<Rightarrow> bool" where
  "op_keeps I P m \<longleftrightarrow> (\<forall>d r d'. I d \<longrightarrow> m d = (r, d') \<longrightarrow> I d' \<and> P d d')"

lemma op_keepsI: "(\<And>d r d'. I d \<Longrightarrow> m d = (r, d') \<Longrightarrow> I d' \<and> P d d') \<Longrightarrow> op_keeps I P m"
  by (simp add: op_keeps_def)

lemma db_keeps_db_call: "op_keeps I P m \<Longrightarrow> db_keeps I P (db_call m)"
  by (fastforce simp: db_keeps_def op_keeps_def elim!: db_callE)

lemma db_keeps_and_then [keeps_intros]:
  assumes "transp P" and "db_keeps I P m" and "\<And>x. db_keeps I P (f x)"
  shows "db_keeps I P (and_then m f)"
  unfolding db_keeps_def
proof (intro allI impI)
  fix w r w'
  assume I: "I (w_db w)" and run: "and_then m f w = (r, w')"
  from run show "I (w_db w') \<and> P (w_db w) (w_db w')"
  proof (cases rule: and_thenE)
    case (1 e)
    with db_keepsD [OF assms(2) I] show ?thesis by simp
  next
    case (2 x w1)
    note one = db_keepsD [OF assms(2) I 2(1)]
    with db_keepsD [OF assms(3) _ 2(2)] have "I (w_db w')" "P (w_db w1) (w_db w')" by auto
    with one transpD [OF assms(1)] show ?thesis by blast
  qed
qed

section \<open>What the flows keep of the database\<close>

text \<open>
  An invariant and a preorder on databases that the queries and the device and login writes of a repository
  keep are kept by every flow; signup and reactivation need it of the write they make as well.
\<close>

locale repo_kept =
  fixes repo :: "'d user_repo" and I :: "'d \<Rightarrow> bool" and P :: "'d \<Rightarrow> 'd \<Rightarrow> bool"
  assumes refl: "reflp P" and trans: "transp P"
    and find_cred_kept: "op_keeps I P (repo_FindByCredential repo AuthTypePhone ph)"
    and find_id_kept: "op_keeps I P (repo_FindByID repo i)"
    and profile_kept: "op_keeps I P (repo_GetProfile repo i)"
    and touch_kept: "op_keeps I P (repo_TouchLastLogin repo i)"
    and upsert_kept: "op_keeps I P (repo_UpsertDevice repo i fp nm)"
    and known_kept: "op_keeps I P (repo_IsDeviceKnown repo i fp)"
begin

lemmas kept = find_cred_kept find_id_kept profile_kept touch_kept upsert_kept known_kept
lemmas flow_intros = keeps_intros refl trans db_keeps_db_call

lemma keeps_build: "a_repo a = repo \<Longrightarrow> db_keeps I P (buildJWTs a env u)"
  unfolding buildJWTs_def by (intro flow_intros) (simp add: kept)

lemma keeps_issue: "a_repo a = repo \<Longrightarrow> db_keeps I P (issueTokens a env u)"
  unfolding issueTokens_def by (intro flow_intros keeps_build) simp

lemma keeps_register:
  assumes a: "a_repo a = repo"
  shows "db_keeps I P (register_device a i fp nm)"
  unfolding register_device_def a by (auto intro: flow_intros kept)

lemma keeps_finish: "a_repo a = repo \<Longrightarrow> db_keeps I P (finishLogin a env u fp nm)"
  unfolding finishLogin_def by (intro flow_intros keeps_register keeps_issue) (simp_all add: kept)

lemma keeps_flow_step: "db_keeps I P (flow_step a env nx p sub)"
  unfolding flow_step_def by (intro flow_intros)

lemma keeps_login: "a_repo a = repo \<Longrightarrow> db_keeps I P (login_active a env u)"
  unfolding login_active_def by (intro flow_intros keeps_issue) (simp_all add: kept)

lemma keeps_route:
  assumes a: "a_repo a = repo"
  shows "db_keeps I P (route_login a env u fp nm)"
  unfolding route_login_def a
  by (auto split: status.split intro!: flow_intros keeps_login [OF a] keeps_flow_step kept)

lemma keeps_VerifyOtp: "a_repo a = repo \<Longrightarrow> db_keeps I P (VerifyOtp a env phone code fp nm)"
  unfolding VerifyOtp_def
proof (intro flow_intros)
  assume a: "a_repo a = repo"
  let ?find = "db_call (repo_FindByCredential (a_repo a) AuthTypePhone phone)"
  show "db_keeps I P (\<lambda>w. case ?find w of
       (Inl e, w1) \<Rightarrow>
         if e = AuthDomain ErrUserNotFound then flow_step a env StepSignupRequired FlowSignup phone w1
         else (Inl e, w1)
     | (Inr u, w1) \<Rightarrow> route_login a env u fp nm w1)"
    unfolding db_keeps_def
  proof (intro allI impI)
    fix w r w'
    assume inv: "I (w_db w)" and run: "(case ?find w of
       (Inl e, w1) \<Rightarrow>
         if e = AuthDomain ErrUserNotFound then flow_step a env StepSignupRequired FlowSignup phone w1
         else (Inl e, w1)
     | (Inr u, w1) \<Rightarrow> route_login a env u fp nm w1) = (r, w')"
    obtain q w1 where find: "?find w = (q, w1)" by fastforce
    have one: "I (w_db w1) \<and> P (w_db w) (w_db w1)"
      using db_keepsD [OF db_keeps_db_call [OF find_cred_kept] inv] find a by simp
    with run find db_keepsD [OF keeps_route [OF a], of w1] db_keepsD [OF keeps_flow_step [of a], of w1]
    have "I (w_db w') \<and> (w' = w1 \<or> P (w_db w1) (w_db w'))"
      by (auto split: sum.splits if_splits)
    with one transpD [OF trans] show "I (w_db w') \<and> P (w_db w) (w_db w')" by metis
  qed
qed

lemma keeps_CompleteSignup:
  assumes a: "a_repo a = repo"
    and "\<And>ph st. op_keeps I P (repo_CreateUser repo ph
       \<lparr>p_UserID = 0, p_Nickname = nick, p_ProfileImageURL = img, p_ReputationScore = 0\<rparr> st)"
  shows "db_keeps I P (CompleteSignup a env tok nick img fp nm)"
  unfolding CompleteSignup_def a by (intro flow_intros keeps_register [OF a] keeps_issue [OF a] assms(2))

text \<open>A reactivation keeps what its find, its status write and the login keep together.\<close>

lemma keeps_CompleteReactivation:
  assumes a: "a_repo a = repo"
    and upd: "\<And>i d found d1 r d2. I d \<Longrightarrow> repo_FindByID repo i d = (Inr found, d1) \<Longrightarrow>
      CanTransitionTo (u_Status found) ACTIVE \<Longrightarrow> repo_UpdateStatus repo (u_ID found) ACTIVE d1 = (r, d2) \<Longrightarrow>
      I d2 \<and> P d d2"
  shows "db_keeps I P (CompleteReactivation a env tok consent fp nm)"
proof -
  have step: "db_keeps I P (and_then (db_call (repo_FindByID repo i)) (\<lambda>found.
        case TransitionTo ACTIVE found of
          (Inl e, _) \<Rightarrow> fail (AuthDomain e)
        | (Inr _, u) \<Rightarrow>
            and_then (db_call (repo_UpdateStatus repo (u_ID u) (u_Status u))) (\<lambda>_.
            finishLogin a env u fp nm)))" (is "db_keeps I P ?step") for i
    unfolding db_keeps_def
  proof (intro allI impI)
    fix w r w'
    assume inv: "I (w_db w)" and run: "?step w = (r, w')"
    from run show "I (w_db w') \<and> P (w_db w) (w_db w')"
    proof (cases rule: and_thenE)
      case (1 e)
      with db_keepsD [OF db_keeps_db_call [OF find_id_kept] inv] show ?thesis by simp
    next
      case (2 found w1)
      note one = db_keepsD [OF db_keeps_db_call [OF find_id_kept] inv 2(1)]
      from 2(1) have found: "repo_FindByID repo i (w_db w) = (Inr found, w_db w1)" by (auto elim: db_callE)
      show ?thesis
      proof (cases "CanTransitionTo (u_Status found) ACTIVE")
        case False
        with 2(2) one show ?thesis by (auto simp: TransitionTo_def fail_def)
      next
        case True
        let ?u = "found\<lparr>u_Status := ACTIVE\<rparr>"
        from 2(2) True have rest: "and_then (db_call (repo_UpdateStatus repo (u_ID found) ACTIVE)) (\<lambda>_.
            finishLogin a env ?u fp nm) w1 = (r, w')" by (simp add: TransitionTo_def)
        obtain q w2 where up: "db_call (repo_UpdateStatus repo (u_ID found) ACTIVE) w1 = (q, w2)" by fastforce
        then obtain q' where "repo_UpdateStatus repo (u_ID found) ACTIVE (w_db w1) = (q', w_db w2)"
          by (auto elim: db_callE)
        note two = upd [OF inv found True this]
        from rest up db_keepsD [OF keeps_finish [OF a], of w2] two
        have "I (w_db w') \<and> (w' = w2 \<or> P (w_db w2) (w_db w'))"
          by (auto simp: and_then_def split: sum.splits)
        with two transpD [OF trans] show ?thesis by metis
      qed
    qed
  qed
  show ?thesis
    unfolding CompleteReactivation_def a by (auto intro!: flow_intros step)
qed

lemma keeps_VerifyDevice:
  assumes a: "a_repo a = repo"
  shows "db_keeps I P (VerifyDevice a env tok m fp nm)"
  unfolding VerifyDevice_def a by (auto intro!: flow_intros keeps_finish [OF a] kept)

lemma keeps_Refresh:
  assumes a: "a_repo a = repo"
  shows "db_keeps I P (Refresh a env g tok)"
  unfolding Refresh_def a by (auto intro!: flow_intros keeps_build [OF a] kept split: prod.splits)

lemma keeps_RequestOtp: "db_keeps I P (RequestOtp a env phone)"
  unfolding RequestOtp_def by (intro flow_intros)

end

section \<open>Accounts move along the transition table\<close>

definition moves :: "(status \<times> status) set" where
  "moves = {(s, t). CanTransitionTo s t}"

text \<open>Phone numbers keep their holder, accounts are never dropped, and statuses only move along the table.\<close>

definition lifecycle :: "('d \<Rightarrow> int \<Rightarrow> status option) \<Rightarrow> ('d \<Rightarrow> string \<Rightarrow> int option) \<Rightarrow> 'd \<Rightarrow> 'd \<Rightarrow> bool" where
  "lifecycle acct holder d d' \<longleftrightarrow>
     (\<forall>ph j. holder d ph = Some j \<longrightarrow> holder d' ph = Some j) \<and>
     (\<forall>u s. acct d u = Some s \<longrightarrow> (\<exists>t. acct d' u = Some t \<and> (s, t) \<in> moves\<^sup>*))"

lemma lifecycle_refl: "reflp (lifecycle acct holder)"
  by (auto simp: reflp_def lifecycle_def)

lemma lifecycle_trans: "transp (lifecycle acct holder)"
proof (rule transpI)
  fix d e f
  assume de: "lifecycle acct holder d e" and ef: "lifecycle acct holder e f"
  have "\<exists>t. acct f u = Some t \<and> (s, t) \<in> moves\<^sup>*" if "acct d u = Some s" for u s
  proof -
    from de that obtain t where t: "acct e u = Some t" "(s, t) \<in> moves\<^sup>*" unfolding lifecycle_def by blast
    from ef t(1) obtain t' where "acct f u = Some t'" "(t, t') \<in> moves\<^sup>*" unfolding lifecycle_def by blast
    with t(2) show ?thesis by (blast intro: rtrancl_trans)
  qed
  with de ef show "lifecycle acct holder d f" by (simp add: lifecycle_def)
qed

lemma lifecycle_holder: "lifecycle acct holder d d' \<Longrightarrow> holder d ph = Some j \<Longrightarrow> holder d' ph = Some j"
  by (simp add: lifecycle_def)

lemma lifecycle_acctE:
  assumes "lifecycle acct holder d d'" and "acct d u = Some s"
  obtains t where "acct d' u = Some t" and "(s, t) \<in> moves\<^sup>*"
  using assms unfolding lifecycle_def by blast

lemma lifecycle_same: "acct d' = acct d \<Longrightarrow> holder d' = holder d \<Longrightarrow> lifecycle acct holder d d'"
  by (simp add: lifecycle_def)

lemma moves_from_deleted: "(DELETED, t) \<in> moves\<^sup>* \<longleftrightarrow> t = DELETED"
proof
  show "t = DELETED" if "(DELETED, t) \<in> moves\<^sup>*"
    using that by (induction rule: rtrancl_induct) (auto simp: moves_def CanTransitionTo_iff)
qed simp

lemma moves_to_pending: "(s, PENDING) \<in> moves\<^sup>* \<longleftrightarrow> s = PENDING"
proof
  show "s = PENDING" if "(s, PENDING) \<in> moves\<^sup>*"
    using that by (cases rule: rtranclE) (auto simp: moves_def CanTransitionTo_iff transitions_not_pending)
qed simp

datatype auth_call =
    CallRequestOtp string
  | CallVerifyOtp string string string string
  | CallCompleteSignup string string string string string
  | CallCompleteReactivation string bool string string
  | CallVerifyDevice string string string string
  | CallRefresh string string

fun auth_do :: "('s, 'd, 'sk) auth \<Rightarrow> call_env \<Rightarrow> auth_call \<Rightarrow> ('s, 'd) world \<Rightarrow> ('s, 'd) world" where
  "auth_do a env (CallRequestOtp phone) w = snd (RequestOtp a env phone w)"
| "auth_do a env (CallVerifyOtp phone code fp nm) w = snd (VerifyOtp a env phone code fp nm w)"
| "auth_do a env (CallCompleteSignup tok nick img fp nm) w = snd (CompleteSignup a env tok nick img fp nm w)"
| "auth_do a env (CallCompleteReactivation tok consent fp nm) w = snd (CompleteReactivation a env tok consent fp nm w)"
| "auth_do a env (CallVerifyDevice tok month fp nm) w = snd (VerifyDevice a env tok month fp nm w)"
| "auth_do a env (CallRefresh grant tok) w = snd (Refresh a env grant tok w)"

text \<open>Calls on services of the family \<open>A\<close>, one after the other; Redis may change in between.\<close>

inductive auth_step :: "(('s, 'd, 'sk) auth \<Rightarrow> bool) \<Rightarrow> ('s, 'd) world \<Rightarrow> ('s, 'd) world \<Rightarrow> bool" for A where
  call: "A a \<Longrightarrow> auth_step A w (auth_do a env c w)"
| redis: "auth_step A w (w\<lparr>w_redis := s\<rparr>)"

sublocale user_store \<subseteq> lives: repo_kept repo wf "lifecycle acct holder"
proof
  show "reflp (lifecycle acct holder)" by (rule lifecycle_refl)
  show "transp (lifecycle acct holder)" by (rule lifecycle_trans)
qed (rule op_keepsI; auto dest: find_cred find_id get_profile touch upsert_dev is_known intro: lifecycle_same)+

context user_store
begin

abbreviation life where "life \<equiv> lifecycle acct holder"

lemma create_kept: "op_keeps wf life (repo_CreateUser repo ph prof st)"
proof (rule op_keepsI)
  fix d r d'
  assume "wf d" and "repo_CreateUser repo ph prof st d = (r, d')"
  from create [OF this] show "wf d' \<and> life d d'" by (auto simp: lifecycle_def)
qed

lemma keeps_CompleteSignup: "a_repo a = repo \<Longrightarrow> db_keeps wf life (CompleteSignup a env tok nick img fp nm)"
  by (rule lives.keeps_CompleteSignup [OF _ create_kept])

text \<open>The only write of a status follows the check against the table.\<close>

lemma keeps_CompleteReactivation:
  assumes "a_repo a = repo"
  shows "db_keeps wf life (CompleteReactivation a env tok consent fp nm)"
proof (rule lives.keeps_CompleteReactivation [OF assms])
  fix i d found d1 r d2
  assume wf: "wf d" and found: "repo_FindByID repo i d = (Inr found, d1)"
    and can: "CanTransitionTo (u_Status found) ACTIVE" and up: "repo_UpdateStatus repo (u_ID found) ACTIVE d1 = (r, d2)"
  note at = find_id [OF wf found]
  have "(u_Status found, ACTIVE) \<in> moves" using can by (simp add: moves_def)
  with at update_status [OF _ up] show "wf d2 \<and> life d d2" by (auto simp: lifecycle_def)
qed

lemma auth_do_keeps:
  assumes "a_repo a = repo" and "wf (w_db w)"
  shows "wf (w_db (auth_do a env c w)) \<and> life (w_db w) (w_db (auth_do a env c w))"
  by (cases c)
    (simp_all only: auth_do.simps
      db_keeps_snd [OF lives.keeps_RequestOtp assms(2)] db_keeps_snd [OF lives.keeps_VerifyOtp [OF assms(1)] assms(2)]
      db_keeps_snd [OF keeps_CompleteSignup [OF assms(1)] assms(2)]
      db_keeps_snd [OF keeps_CompleteReactivation [OF assms(1)] assms(2)]
      db_keeps_snd [OF lives.keeps_VerifyDevice [OF assms(1)] assms(2)]
      db_keeps_snd [OF lives.keeps_Refresh [OF assms(1)] assms(2)] simp_thms)

end

section \<open>What a successful flow means\<close>

lemma flow_stepE:
  assumes "flow_step a env nx p sub w = (Inr res, w')"
  obtains tok where "FlowToken (a_jwt a) (a_issuer a) (e_now env) p sub = Inr tok"
    and "res = \<lparr>vr_NextStep = nx, vr_Tokens = None, vr_FlowToken = tok\<rparr>" and "w' = w"
  using assms unfolding flow_step_def by (auto simp: ok_def elim!: and_thenE token_callE)

lemma login_activeE:
  assumes "login_active a env u w = (Inr res, w')"
  obtains tp where "res = \<lparr>vr_NextStep = StepTokensIssued, vr_Tokens = Some tp, vr_FlowToken = []\<rparr>"
  using assms unfolding login_active_def by (auto simp: ok_def elim!: and_thenE)

text \<open>
  Where \<^verbatim>\<open>VerifyOtp\<close> sends a user, as a function of the account of the phone number, the fingerprint and
  the known devices. \<open>None\<close> is a refused login.
\<close>

definition login_route :: "status option \<Rightarrow> bool \<Rightarrow> NextStep option" where
  "login_route st trusted = (case st of
      None \<Rightarrow> Some StepSignupRequired
    | Some ACTIVE \<Rightarrow> Some (if trusted then StepTokensIssued else StepDeviceVerificationRequired)
    | Some DORMANT \<Rightarrow> Some StepReactivationRequired
    | Some _ \<Rightarrow> None)"

definition login_purpose :: "NextStep \<Rightarrow> string" where
  "login_purpose n = (case n of
      StepSignupRequired \<Rightarrow> FlowSignup | StepReactivationRequired \<Rightarrow> FlowReactivation
    | StepDeviceVerificationRequired \<Rightarrow> FlowDeviceVerify | StepTokensIssued \<Rightarrow> [])"

lemma issueTokens_access:
  assumes "issueTokens a env u w = (Inr pair, w')"
  shows "AccessToken (a_jwt a) (a_issuer a) (e_now env) (e_jti env) (u_ID u) (status_string (u_Status u)) =
    Inr (tp_AccessToken pair)"
  using assms unfolding issueTokens_def buildJWTs_def by (auto simp: ok_def elim!: and_then_InrE token_callE)

context user_store
begin

lemma route_loginE:
  assumes a: "a_repo a = repo" and wf: "wf (w_db w)"
    and run: "route_login a env u fp nm w = (Inr res, w')"
  shows "login_route (Some (u_Status u)) (fp = [] \<or> known (w_db w) (u_ID u) fp) = Some (vr_NextStep res) \<and>
    (vr_Tokens res \<noteq> None \<longleftrightarrow> vr_NextStep res = StepTokensIssued) \<and>
    (vr_NextStep res \<noteq> StepTokensIssued \<longrightarrow>
      FlowToken (a_jwt a) (a_issuer a) (e_now env) (login_purpose (vr_NextStep res)) (FormatInt (u_ID u)) =
        Inr (vr_FlowToken res))"
proof (cases "u_Status u")
  case ACTIVE
  show ?thesis
  proof (cases "fp = []")
    case True
    with ACTIVE run show ?thesis
      by (auto simp: route_login_def login_route_def elim!: login_activeE)
  next
    case False
    with ACTIVE run a obtain k w1 where k: "db_call (repo_IsDeviceKnown repo (u_ID u) fp) w = (Inr k, w1)"
      and rest: "(if \<not> k then flow_step a env StepDeviceVerificationRequired FlowDeviceVerify (FormatInt (u_ID u))
         else and_then (db_call (repo_UpsertDevice repo (u_ID u) fp nm)) (\<lambda>_. login_active a env u)) w1 = (Inr res, w')"
      by (auto simp: route_login_def elim!: and_then_InrE)
    from k have "repo_IsDeviceKnown repo (u_ID u) fp (w_db w) = (Inr k, w_db w1)" by (auto elim: db_callE)
    with is_known [OF wf] have "k = known (w_db w) (u_ID u) fp" by blast
    with rest ACTIVE False show ?thesis
      by (cases k) (auto simp: login_route_def login_purpose_def elim!: flow_stepE login_activeE and_then_InrE)
  qed
qed (use run in \<open>auto simp: route_login_def login_route_def login_purpose_def fail_def elim!: flow_stepE\<close>)

lemma verify_otp_route:
  assumes a: "a_repo a = repo" and wf: "wf (w_db w)"
    and run: "VerifyOtp a env phone code fp nm w = (Inr res, w')"
  shows "\<exists>s. otp_Verify (a_redis a) phone code (w_redis w) = (Inr (), s)"
    and "case holder (w_db w) phone of
        None \<Rightarrow> vr_NextStep res = StepSignupRequired \<and> vr_Tokens res = None \<and>
          FlowToken (a_jwt a) (a_issuer a) (e_now env) FlowSignup phone = Inr (vr_FlowToken res)
      | Some i \<Rightarrow> login_route (acct (w_db w) i) (fp = [] \<or> known (w_db w) i fp) = Some (vr_NextStep res) \<and>
          (vr_Tokens res \<noteq> None \<longleftrightarrow> vr_NextStep res = StepTokensIssued) \<and>
          (vr_NextStep res \<noteq> StepTokensIssued \<longrightarrow>
            FlowToken (a_jwt a) (a_issuer a) (e_now env) (login_purpose (vr_NextStep res)) (FormatInt i) =
              Inr (vr_FlowToken res))"
proof -
  let ?rest = "\<lambda>w. case db_call (repo_FindByCredential (a_repo a) AuthTypePhone phone) w of
       (Inl e, w1) \<Rightarrow>
         if e = AuthDomain ErrUserNotFound then flow_step a env StepSignupRequired FlowSignup phone w1
         else (Inl e, w1)
     | (Inr u, w1) \<Rightarrow> route_login a env u fp nm w1"
  from run obtain x w0 where otp: "on_redis (otp_Verify (a_redis a) phone code) w = (Inr x, w0)"
    and rest: "?rest w0 = (Inr res, w')"
    unfolding VerifyOtp_def by (blast elim: and_then_InrE map_err_InrE)
  from on_redis_db [OF otp] have db: "w_db w0 = w_db w"
    and otp': "otp_Verify (a_redis a) phone code (w_redis w) = (Inr (), w_redis w0)" by auto
  from otp' show "\<exists>s. otp_Verify (a_redis a) phone code (w_redis w) = (Inr (), s)" by blast
  obtain q w1 where find: "db_call (repo_FindByCredential repo AuthTypePhone phone) w0 = (q, w1)" by fastforce
  then show "case holder (w_db w) phone of
        None \<Rightarrow> vr_NextStep res = StepSignupRequired \<and> vr_Tokens res = None \<and>
          FlowToken (a_jwt a) (a_issuer a) (e_now env) FlowSignup phone = Inr (vr_FlowToken res)
      | Some i \<Rightarrow> login_route (acct (w_db w) i) (fp = [] \<or> known (w_db w) i fp) = Some (vr_NextStep res) \<and>
          (vr_Tokens res \<noteq> None \<longleftrightarrow> vr_NextStep res = StepTokensIssued) \<and>
          (vr_NextStep res \<noteq> StepTokensIssued \<longrightarrow>
            FlowToken (a_jwt a) (a_issuer a) (e_now env) (login_purpose (vr_NextStep res)) (FormatInt i) =
              Inr (vr_FlowToken res))"
  proof (cases rule: db_callE)
    case (err e)
    with rest find a have "e = RepoDomain ErrUserNotFound"
      and flow: "flow_step a env StepSignupRequired FlowSignup phone w1 = (Inr res, w')"
      by (auto split: if_splits)
    moreover have "holder (w_db w) phone = None"
      using find_cred [OF _ err(1)] wf db calculation(1) by simp
    ultimately show ?thesis by (auto elim: flow_stepE)
  next
    case (val u)
    note at = find_cred [OF _ val(1), unfolded db, OF wf]
    from rest find val(2) a have "route_login a env u fp nm w1 = (Inr res, w')" by simp
    from route_loginE [OF a _ this] at show ?thesis by simp
  qed
qed

lemma register_only:
  assumes a: "a_repo a = repo" and wf: "wf (w_db w)" and run: "register_device a i fp nm w = (r, w')"
  shows "wf (w_db w') \<and> acct (w_db w') = acct (w_db w) \<and> holder (w_db w') = holder (w_db w) \<and>
    (\<forall>x. r = Inr x \<longrightarrow> fp \<noteq> [] \<longrightarrow> known (w_db w') i fp)"
proof (cases "fp = []")
  case False
  with run a have "db_call (repo_UpsertDevice repo i fp nm) w = (r, w')" by (simp add: register_device_def)
  then show ?thesis
    by (cases rule: db_callE) (use upsert_dev [OF wf] in fastforce)+
qed (use run wf in \<open>simp add: register_device_def ok_def\<close>)

abbreviation same_users where
  "same_users d d' \<equiv> acct d' = acct d \<and> holder d' = holder d \<and> known d' = known d"

lemma same_users_props: "reflp same_users" "transp same_users"
  by (auto simp: reflp_def transp_def)

lemma issue_same: 
  assumes a: "a_repo a = repo"
  shows "db_keeps wf same_users (issueTokens a env u)"
  unfolding issueTokens_def buildJWTs_def a
  by (intro keeps_intros same_users_props db_keeps_db_call op_keepsI) (auto dest: get_profile)

lemma signup_success:
  assumes a: "a_repo a = repo" and wf: "wf (w_db w)"
    and run: "CompleteSignup a env tok nick img fp nm w = (Inr pair, w')"
  shows "\<exists>ph i. VerifyFlowToken (a_jwt a) (a_issuer a) (e_now env) tok FlowSignup = Inr ph \<and>
    holder (w_db w) ph = None \<and> holder (w_db w') ph = Some i \<and>
    acct (w_db w) i = None \<and> acct (w_db w') i = Some ACTIVE \<and> (fp \<noteq> [] \<longrightarrow> known (w_db w') i fp) \<and>
    AccessToken (a_jwt a) (a_issuer a) (e_now env) (e_jti env) i (status_string ACTIVE) = Inr (tp_AccessToken pair)"
proof -
  let ?prof = "\<lparr>p_UserID = 0, p_Nickname = nick, p_ProfileImageURL = img, p_ReputationScore = 0\<rparr>"
  from run a obtain ph u w1 w2 x where
    ph: "VerifyFlowToken (a_jwt a) (a_issuer a) (e_now env) tok FlowSignup = Inr ph" and
    cr: "db_call (repo_CreateUser repo ph ?prof ACTIVE) w = (Inr u, w1)" and
    dev: "register_device a (u_ID u) fp nm w1 = (Inr x, w2)" and
    iss: "issueTokens a env u w2 = (Inr pair, w')"
    unfolding CompleteSignup_def signup_status_eq
    by (auto simp: lift_res_def elim!: and_then_InrE map_err_InrE token_callE)
  from cr have "repo_CreateUser repo ph ?prof ACTIVE (w_db w) = (Inr u, w_db w1)" by (auto elim: db_callE)
  from create [OF wf this] have wf1: "wf (w_db w1)" and c: "holder (w_db w) ph = None" "acct (w_db w) (u_ID u) = None"
      "acct (w_db w1) = (acct (w_db w))(u_ID u \<mapsto> ACTIVE)" "holder (w_db w1) ph = Some (u_ID u)" "u_Status u = ACTIVE" by auto
  note r = register_only [OF a wf1 dev]
  with db_keepsD [OF issue_same [OF a] _ iss] have "same_users (w_db w2) (w_db w')" by blast
  with ph c r issueTokens_access [OF iss] show ?thesis by auto
qed

lemma signup_taken:
  assumes a: "a_repo a = repo" and wf: "wf (w_db w)"
    and "VerifyFlowToken (a_jwt a) (a_issuer a) (e_now env) tok FlowSignup = Inr ph"
    and "holder (w_db w) ph \<noteq> None"
    and run: "CompleteSignup a env tok nick img fp nm w = (r, w')"
  shows "isl r"
proof (cases r)
  case (Inr pair)
  from signup_success [OF a wf run [unfolded Inr]] assms(3,4) show ?thesis by auto
qed simp

lemma reactivation_success:
  assumes a: "a_repo a = repo" and wf: "wf (w_db w)"
    and run: "CompleteReactivation a env tok consent fp nm w = (Inr pair, w')"
  shows "consent \<and> (\<exists>u s. flowUserID a env tok FlowReactivation = Inr u \<and> acct (w_db w) u = Some s \<and>
    CanTransitionTo s ACTIVE \<and> acct (w_db w') u = Some ACTIVE)"
proof -
  from run have consent: consent by (auto simp: CompleteReactivation_def fail_def split: if_splits)
  with run a obtain i found w1 where
    i: "flowUserID a env tok FlowReactivation = Inr i" and
    find: "db_call (repo_FindByID repo i) w = (Inr found, w1)" and
    rest: "(case TransitionTo ACTIVE found of
          (Inl e, _) \<Rightarrow> fail (AuthDomain e)
        | (Inr _, u) \<Rightarrow>
            and_then (db_call (repo_UpdateStatus repo (u_ID u) (u_Status u))) (\<lambda>_.
            finishLogin a env u fp nm)) w1 = (Inr pair, w')"
    unfolding CompleteReactivation_def by (auto elim!: and_then_InrE token_callE)
  from find have "repo_FindByID repo i (w_db w) = (Inr found, w_db w1)" by (auto elim: db_callE)
  note at = find_id [OF wf this]
  from rest have can: "CanTransitionTo (u_Status found) ACTIVE"
    by (auto simp: TransitionTo_def fail_def split: if_splits)
  let ?u = "found\<lparr>u_Status := ACTIVE\<rparr>"
  from rest can at obtain x w2 where up: "db_call (repo_UpdateStatus repo i ACTIVE) w1 = (Inr x, w2)"
    and fin: "finishLogin a env ?u fp nm w2 = (Inr pair, w')"
    by (auto simp: TransitionTo_def elim!: and_then_InrE)
  from up have "repo_UpdateStatus repo i ACTIVE (w_db w1) = (Inr x, w_db w2)" by (auto elim: db_callE)
  from update_status [OF _ this] at have two: "wf (w_db w2)" "acct (w_db w2) i = Some ACTIVE" by auto
  have "acct (w_db w') i = Some ACTIVE"
  proof -
    from fin a obtain y w3 z w4 where dev: "register_device a i fp nm w2 = (Inr y, w3)"
      and tch: "db_call (repo_TouchLastLogin repo i) w3 = (Inr z, w4)"
      and iss: "issueTokens a env ?u w4 = (Inr pair, w')"
      using at unfolding finishLogin_def by (auto elim!: and_then_InrE)
    note d = register_only [OF a two(1) dev]
    from tch have "repo_TouchLastLogin repo i (w_db w3) = (Inr z, w_db w4)" by (auto elim: db_callE)
    from touch [OF _ this] d have "wf (w_db w4)" "acct (w_db w4) = acct (w_db w2)" by auto
    with db_keepsD [OF issue_same [OF a] _ iss] two(2) show ?thesis by simp
  qed
  with consent i at can show ?thesis by auto
qed

end

section \<open>Flows that nothing disturbs\<close>

definition can_sign :: "('s, 'd, 'sk) auth \<Rightarrow> call_env \<Rightarrow> int \<Rightarrow> status \<Rightarrow> bool" where
  "can_sign a env u st \<longleftrightarrow>
     \<not> isl (AccessToken (a_jwt a) (a_issuer a) (e_now env) (e_jti env) u (status_string st)) \<and>
     (\<forall>nick. \<not> isl (IDToken (a_jwt a) (a_issuer a) (e_now env) u nick))"

definition can_issue :: "('s, 'd, 'sk) auth \<Rightarrow> call_env \<Rightarrow> int \<Rightarrow> 's \<Rightarrow> bool" where
  "can_issue a env u s \<longleftrightarrow> \<not> isl (fst (rtr_Issue (a_redis a) (e_tok env) (e_fam env) u s))"

lemma not_islE: "\<not> isl x \<Longrightarrow> (\<And>y. x = Inr y \<Longrightarrow> P) \<Longrightarrow> P"
  by (cases x) auto

lemma buildJWTs_ok:
  assumes "a_repo a = mysql_repo weight now" and "db_faults (w_db w) = []" and "db_wf (w_db w)"
    and "user_by_id (db_tables (w_db w)) (u_ID u) = Some r" and "can_sign a env (u_ID u) (u_Status u)"
  shows "\<exists>pair. buildJWTs a env u w = (Inr pair, w) \<and>
    AccessToken (a_jwt a) (a_issuer a) (e_now env) (e_jti env) (u_ID u) (status_string (u_Status u)) =
      Inr (tp_AccessToken pair)"
proof -
  from GetProfile_ok [OF assms(2-4)] obtain p where p: "GetProfile (u_ID u) (w_db w) = (Inr p, w_db w)" by blast
  from assms(5) obtain x y where
    "AccessToken (a_jwt a) (a_issuer a) (e_now env) (e_jti env) (u_ID u) (status_string (u_Status u)) = Inr x"
    "IDToken (a_jwt a) (a_issuer a) (e_now env) (u_ID u) (p_Nickname p) = Inr y"
    unfolding can_sign_def by (meson not_islE)
  with p assms(1) show ?thesis
    by (simp add: buildJWTs_def and_then_def map_err_def db_call_def on_db_def mysql_repo_def token_call_def
        lift_res_def ok_def)
qed

lemma issueTokens_ok:
  assumes "a_repo a = mysql_repo weight now" and "db_faults (w_db w) = []" and "db_wf (w_db w)"
    and "user_by_id (db_tables (w_db w)) (u_ID u) = Some r" and "can_sign a env (u_ID u) (u_Status u)"
    and "can_issue a env (u_ID u) (w_redis w)"
  shows "\<exists>pair s. issueTokens a env u w = (Inr pair, w\<lparr>w_redis := s\<rparr>)"
proof -
  from buildJWTs_ok [OF assms(1-5)] obtain pair where p: "buildJWTs a env u w = (Inr pair, w)" by blast
  from assms(6) obtain tok s where i: "rtr_Issue (a_redis a) (e_tok env) (e_fam env) (u_ID u) (w_redis w) = (Inr tok, s)"
    unfolding can_issue_def by (metis not_islE prod.collapse)
  show ?thesis by (auto simp: issueTokens_def and_then_def map_err_def on_redis_def ok_def p i)
qed

lemma signup_ok:
  assumes a: "a_repo a = mysql_repo weight now" and f: "db_faults (w_db w) = []" and wf: "db_wf (w_db w)"
    and tok: "VerifyFlowToken (a_jwt a) (a_issuer a) (e_now env) tok FlowSignup = Inr ph"
    and free: "holder_of weight (w_db w) ph = None"
    and fit: "fits 255 ph" "fits 50 nick" "fits 512 img" "fits 64 (FormatInt (db_next_user (w_db w)))"
    and sign: "can_sign a env (db_next_user (w_db w)) ACTIVE"
    and issue: "can_issue a env (db_next_user (w_db w)) (w_redis w)"
  shows "\<exists>pair w'. CompleteSignup a env tok nick img [] nm w = (Inr pair, w')"
proof -
  let ?d = "w_db w"
  let ?prof = "\<lparr>p_UserID = 0, p_Nickname = nick, p_ProfileImageURL = img, p_ReputationScore = 0\<rparr>"
  let ?d' = "?d\<lparr>db_tables := add_account ?d ph ?prof ACTIVE, db_next_user := db_next_user ?d + 1,
      db_next_outbox := db_next_outbox ?d + 1\<rparr>"
  have cr: "CreateUser weight now ph ?prof ACTIVE ?d = (Inr (new_user ?d now ACTIVE), ?d')"
    by (rule CreateUser_ok [OF f wf free]) (simp_all add: fit)
  have wf': "db_wf ?d'" using db_wf_create [OF wf, where fs = "[]" and phone = ph and prof = ?prof and st = ACTIVE] by (simp add: db_wf_def)
  have "acct_of ?d' (db_next_user ?d) = Some ACTIVE"
    using user_by_id_add [OF wf, where phone = ph and prof = ?prof and st = ACTIVE and u = "db_next_user ?d"] by simp
  then obtain r where r: "user_by_id (db_tables ?d') (db_next_user ?d) = Some r" by auto
  have "\<exists>pair s. issueTokens a env (new_user ?d now ACTIVE) (w\<lparr>w_db := ?d'\<rparr>) = (Inr pair, w\<lparr>w_db := ?d'\<rparr>\<lparr>w_redis := s\<rparr>)"
    by (rule issueTokens_ok [OF a, where r = r])
      (use f wf' r sign issue in \<open>simp_all add: new_user_def\<close>)
  with cr tok a show ?thesis
    by (auto simp: CompleteSignup_def and_then_def map_err_def token_call_def lift_res_def signup_status_eq
        db_call_def on_db_def mysql_repo_def register_device_def ok_def)
qed

lemma update_row_found:
  assumes "user_by_id (db_tables d) u = Some r" and "\<And>r. ur_id (f r) = ur_id r" and "update_users u f d = Inr d'"
  shows "\<exists>r'. user_by_id (db_tables d') u = Some r'"
proof -
  have "acct_of d' u = Some (ur_status (f r))" using update_users_view(3) [OF assms(2,3), of u] assms(1) by simp
  then show ?thesis by auto
qed

lemma finish_ok:
  assumes a: "a_repo a = mysql_repo weight now" and f: "db_faults (w_db w) = []" and wf: "db_wf (w_db w)"
    and row: "user_by_id (db_tables (w_db w)) (u_ID u) = Some r"
    and sign: "can_sign a env (u_ID u) (u_Status u)" and issue: "can_issue a env (u_ID u) (w_redis w)"
  shows "\<exists>pair w'. finishLogin a env u [] nm w = (Inr pair, w')"
proof -
  let ?f = "\<lambda>d r. r\<lparr>ur_login := Some (db_now d)\<rparr>"
  obtain d' where d': "update_users (u_ID u) (?f (w_db w)) (w_db w) = Inr d'" by (simp add: update_users_def)
  have tch: "TouchLastLogin (u_ID u) (w_db w) = (Inr (), d')"
    unfolding TouchLastLogin_eq using update_users_ok [OF f, of "RepoDb []" "u_ID u" ?f] d' by simp
  obtain r' where r': "user_by_id (db_tables d') (u_ID u) = Some r'"
    using update_row_found [OF row _ d'] by auto
  have wf': "db_wf d'" by (rule update_users_wf [OF _ d' wf]) simp
  have f': "db_faults d' = []" using d' f by (auto simp: update_users_def)
  have "\<exists>pair s. issueTokens a env u (w\<lparr>w_db := d'\<rparr>) = (Inr pair, w\<lparr>w_db := d'\<rparr>\<lparr>w_redis := s\<rparr>)"
    by (rule issueTokens_ok [OF a, where r = r']) (use f' wf' r' sign issue in simp_all)
  with tch a show ?thesis
    by (auto simp: finishLogin_def and_then_def map_err_def db_call_def on_db_def mysql_repo_def
        register_device_def ok_def)
qed

lemma reactivation_ok:
  assumes a: "a_repo a = mysql_repo weight now" and f: "db_faults (w_db w) = []" and wf: "db_wf (w_db w)"
    and tok: "flowUserID a env tok FlowReactivation = Inr i"
    and at: "acct_of (w_db w) i = Some s" and can: "CanTransitionTo s ACTIVE"
    and sign: "can_sign a env i ACTIVE" and issue: "can_issue a env i (w_redis w)"
  shows "\<exists>pair w'. CompleteReactivation a env tok True [] nm w = (Inr pair, w')"
proof -
  let ?f = "\<lambda>d r. r\<lparr>ur_status := ACTIVE\<rparr>"
  from at obtain r where r: "user_by_id (db_tables (w_db w)) i = Some r" "ur_status r = s" by auto
  with user_by_id_mem have id: "ur_id r = i" by blast
  have find: "FindByID i (w_db w) = (Inr (user_of_row r), w_db w)" by (rule FindByID_ok [OF f r(1)])
  obtain d' where d': "update_users i (?f (w_db w)) (w_db w) = Inr d'" by (simp add: update_users_def)
  have upd: "UpdateStatus i ACTIVE (w_db w) = (Inr (), d')"
    unfolding UpdateStatus_eq using update_users_ok [OF f, of "RepoDb []" i ?f] d' by simp
  obtain r' where r': "user_by_id (db_tables d') i = Some r'" using update_row_found [OF r(1) _ d'] by auto
  have wf': "db_wf d'" by (rule update_users_wf [OF _ d' wf]) simp
  have f': "db_faults d' = []" using d' f by (auto simp: update_users_def)
  let ?u = "(user_of_row r)\<lparr>u_Status := ACTIVE\<rparr>"
  have uid: "u_ID (user_of_row r) = i" "u_Status (user_of_row r) = s" by (simp_all add: user_of_row_def id r(2))
  have "\<exists>pair w'. finishLogin a env ?u [] nm (w\<lparr>w_db := d'\<rparr>) = (Inr pair, w')"
    by (rule finish_ok [OF a, where r = r']) (use f' wf' r' sign issue uid in simp_all)
  with find upd tok a can uid show ?thesis
    by (auto simp: CompleteReactivation_def and_then_def map_err_def db_call_def on_db_def mysql_repo_def
        token_call_def lift_res_def ok_def TransitionTo_def)
qed

lemma refresh_ok:
  assumes a: "a_repo a = mysql_repo weight now" and f: "db_faults (w_db w) = []" and wf: "db_wf (w_db w)"
    and rot: "rtr_Rotate (a_redis a) (e_tok env) tok (w_redis w) = (Inr (new, i), s)"
    and at: "acct_of (w_db w) i = Some st" and sign: "can_sign a env i st"
  shows "\<exists>pair. Refresh a env ''refresh_token'' tok w = (Inr pair, w\<lparr>w_redis := s\<rparr>) \<and> tp_RefreshToken pair = new \<and>
    AccessToken (a_jwt a) (a_issuer a) (e_now env) (e_jti env) i (status_string st) = Inr (tp_AccessToken pair)"
proof -
  from at obtain r where r: "user_by_id (db_tables (w_db w)) i = Some r" "ur_status r = st" by auto
  with user_by_id_mem have id: "ur_id r = i" by blast
  have find: "FindByID i (w_db w) = (Inr (user_of_row r), w_db w)" by (rule FindByID_ok [OF f r(1)])
  have uid: "u_ID (user_of_row r) = i" "u_Status (user_of_row r) = st" by (simp_all add: user_of_row_def id r(2))
  have "\<exists>pair. buildJWTs a env (user_of_row r) (w\<lparr>w_redis := s\<rparr>) = (Inr pair, w\<lparr>w_redis := s\<rparr>) \<and>
      AccessToken (a_jwt a) (a_issuer a) (e_now env) (e_jti env) (u_ID (user_of_row r))
        (status_string (u_Status (user_of_row r))) = Inr (tp_AccessToken pair)"
    by (rule buildJWTs_ok [OF a, where r = r]) (use f wf r sign uid in simp_all)
  with find rot a uid show ?thesis
    by (auto simp: Refresh_def and_then_def map_err_def db_call_def on_db_def on_redis_def mysql_repo_def ok_def)
qed

section \<open>A concrete service\<close>

text \<open>MySQL with the identity as sort key, the store with deadlines, and the sealing token library.\<close>

definition demo_auth :: "(mem, idb, rsa_pub) auth" where
  "demo_auth = \<lparr>a_repo = mysql_repo (\<lambda>x. x) demo_day, a_redis = mem_redis, a_jwt = sealed_jwt,
     a_issuer = demo_issuer, a_devMode = False\<rparr>"

definition demo_env :: call_env where
  "demo_env = \<lparr>e_now = 1000, e_jti = ''j'', e_draw = Inr 42, e_tok = [1], e_fam = [2]\<rparr>"

section \<open>Properties\<close>

text \<open>
  C15. Routing of a login: when \<^verbatim>\<open>VerifyOtp\<close> returns a result, the code was accepted, and the result is the
  one the account calls for. A number without account gets a signup token for that number; an ACTIVE
  account gets tokens if the device is known (or none was named) and otherwise a device-verification
  token and no others; a DORMANT account gets a reactivation token; PENDING, SUSPENDED and DELETED
  accounts get no result at all. The flow token has the step's purpose and the account as subject.
\<close>

theorem login_routing:
  assumes "a_repo a = mysql_repo weight now" and "db_wf (w_db w)"
    and "VerifyOtp a env phone code fp nm w = (Inr res, w')"
  shows "(\<exists>s. otp_Verify (a_redis a) phone code (w_redis w) = (Inr (), s)) \<and>
    (case holder_of weight (w_db w) phone of
        None \<Rightarrow> vr_NextStep res = StepSignupRequired \<and> vr_Tokens res = None \<and>
          FlowToken (a_jwt a) (a_issuer a) (e_now env) FlowSignup phone = Inr (vr_FlowToken res)
      | Some i \<Rightarrow> login_route (acct_of (w_db w) i) (fp = [] \<or> known_of weight (w_db w) i fp) = Some (vr_NextStep res) \<and>
          (vr_Tokens res \<noteq> None \<longleftrightarrow> vr_NextStep res = StepTokensIssued) \<and>
          (vr_NextStep res \<noteq> StepTokensIssued \<longrightarrow>
            FlowToken (a_jwt a) (a_issuer a) (e_now env) (login_purpose (vr_NextStep res)) (FormatInt i) =
              Inr (vr_FlowToken res)))"
  using mysql.verify_otp_route [OF assms] by blast

definition dormant_world :: "(mem, idb) world" where
  "dormant_world = \<lparr>w_redis = issued_mem, w_db = account_db DORMANT\<rparr>"

lemma dormant_login:
  "\<exists>res w'. VerifyOtp demo_auth demo_env ''7'' ''000042'' ''fp'' [] dormant_world = (Inr res, w')"
proof -
  have "fst (otp_Verify mem_redis ''7'' ''000042'' issued_mem) = Inr ()" by code_simp
  then obtain s where otp: "otp_Verify mem_redis ''7'' ''000042'' issued_mem = (Inr (), s)"
    by (metis prod.collapse)
  obtain tok where tok: "FlowToken sealed_jwt demo_issuer 1000 FlowReactivation (FormatInt 1) = Inr tok"
    using sealed_issues(3) by (metis obj_sumE isl_def)
  show ?thesis
    by (simp add: VerifyOtp_def demo_auth_def demo_env_def dormant_world_def and_then_def map_err_def
        on_redis_def otp db_call_def on_db_def mysql_repo_def FindByCredential_def query_def take_fault_def
        account_db_def empty_db_def add_account_def cred_join_def join_rows_def ok_def user_of_row_def
        route_login_def flow_step_def token_call_def lift_res_def tok)
qed

theorem login_routing_witness:
  "\<exists>res w'. VerifyOtp demo_auth demo_env ''7'' ''000042'' ''fp'' [] dormant_world = (Inr res, w') \<and>
     vr_NextStep res = StepReactivationRequired \<and> vr_Tokens res = None"
proof -
  obtain res w' where run: "VerifyOtp demo_auth demo_env ''7'' ''000042'' ''fp'' [] dormant_world = (Inr res, w')"
    using dormant_login by blast
  have repo: "a_repo demo_auth = mysql_repo (\<lambda>x. x) demo_day" by (simp add: demo_auth_def)
  have wf: "db_wf (w_db dormant_world)" by (simp add: dormant_world_def account_db_wf)
  have at: "holder_of (\<lambda>x. x) (w_db dormant_world) ''7'' = Some 1" "acct_of (w_db dormant_world) 1 = Some DORMANT"
    by (simp_all add: dormant_world_def account_db_def empty_db_def add_account_def cred_join_def join_rows_def
        user_by_id_def)
  from login_routing [OF repo wf run] at run show ?thesis by (auto simp: login_route_def)
qed

text \<open>Any number of calls, by any instance of the service on the database.\<close>

abbreviation mysql_calls :: "(string \<Rightarrow> string) \<Rightarrow> ('s, idb) world \<Rightarrow> ('s, idb) world \<Rightarrow> bool" where
  "mysql_calls weight \<equiv> (auth_step (\<lambda>a :: ('s, idb, rsa_pub) auth. \<exists>now. a_repo a = mysql_repo weight now))\<^sup>*\<^sup>*"

lemma mysql_calls_keep:
  assumes "mysql_calls weight w w'" and "db_wf (w_db w)"
  shows "db_wf (w_db w') \<and> lifecycle acct_of (holder_of weight) (w_db w) (w_db w')"
  using assms(1)
proof (induction rule: rtranclp_induct)
  case base
  show ?case using assms(2) reflpD [OF lifecycle_refl] by auto
next
  case (step w1 w2)
  from step(2) have "db_wf (w_db w2) \<and> lifecycle acct_of (holder_of weight) (w_db w1) (w_db w2)"
  proof cases
    case (call a env c)
    then obtain now where "a_repo a = mysql_repo weight now" by blast
    from mysql.auth_do_keeps [OF this] step(3) call(1) show ?thesis by simp
  next
    case (redis s)
    then show ?thesis using step(3) reflpD [OF lifecycle_refl] by auto
  qed
  then show ?case using transpD [OF lifecycle_trans conjunct2 [OF step(3)]] by (intro conjI) simp_all
qed

text \<open>
  C2. Account histories: whatever calls are made, in whatever order and with whatever database
  faults, an account stays, its status moves only along the domain's transition table (so DELETED is
  final and PENDING is never entered again), a phone number keeps its holder, and every account keeps
  its credential, its profile and its creation event.
\<close>

theorem account_histories:
  assumes "mysql_calls weight w w'" and "db_wf (w_db w)"
  shows "db_wf (w_db w') \<and>
    (\<forall>ph j. holder_of weight (w_db w) ph = Some j \<longrightarrow> holder_of weight (w_db w') ph = Some j) \<and>
    (\<forall>u s. acct_of (w_db w) u = Some s \<longrightarrow> (\<exists>t. acct_of (w_db w') u = Some t \<and> (s, t) \<in> moves\<^sup>* \<and>
       (s = DELETED \<longrightarrow> t = DELETED) \<and> (t = PENDING \<longrightarrow> s = PENDING)))"
proof -
  have wf: "db_wf (w_db w')" and life: "lifecycle acct_of (holder_of weight) (w_db w) (w_db w')"
    using mysql_calls_keep [OF assms] by auto
  have "\<exists>t. acct_of (w_db w') u = Some t \<and> (s, t) \<in> moves\<^sup>* \<and>
      (s = DELETED \<longrightarrow> t = DELETED) \<and> (t = PENDING \<longrightarrow> s = PENDING)" if "acct_of (w_db w) u = Some s" for u s
  proof -
    from life that obtain t where t: "acct_of (w_db w') u = Some t" "(s, t) \<in> moves\<^sup>*"
      by (rule lifecycle_acctE)
    have "s = DELETED \<longrightarrow> t = DELETED" using t(2) moves_from_deleted [of t] by auto
    moreover have "t = PENDING \<longrightarrow> s = PENDING" using t(2) moves_to_pending [of s] by auto
    ultimately show ?thesis using t by (intro exI [of _ t]) simp
  qed
  with wf lifecycle_holder [OF life] show ?thesis by simp
qed

definition deleted_world :: "(mem, idb) world" where
  "deleted_world = \<lparr>w_redis = empty_mem, w_db = account_db DELETED\<rparr>"

theorem account_histories_witness:
  "acct_of (w_db deleted_world) 1 = Some DELETED \<and>
   acct_of (w_db (auth_do demo_auth demo_env (CallCompleteReactivation ''t'' True [] []) deleted_world)) 1 = Some DELETED"
proof -
  let ?w = "auth_do demo_auth demo_env (CallCompleteReactivation ''t'' True [] []) deleted_world"
  have "\<exists>now. a_repo demo_auth = mysql_repo (\<lambda>x. x) now" by (auto simp: demo_auth_def)
  then have "mysql_calls (\<lambda>x. x) deleted_world ?w" by (intro r_into_rtranclp auth_step.call)
  moreover have "db_wf (w_db deleted_world)" by (simp add: deleted_world_def account_db_wf)
  moreover have "acct_of (w_db deleted_world) 1 = Some DELETED"
    by (simp add: deleted_world_def account_db_def empty_db_def add_account_def user_by_id_def)
  ultimately show ?thesis using account_histories by blast
qed

text \<open>
  C21. A phone number signs up once: a completed signup created an ACTIVE account for a number that
  had none, and in every later state a signup with a token for that number fails, whether the token
  is replayed or new.
\<close>

theorem signup_once:
  assumes "a_repo a = mysql_repo weight now" and "db_wf (w_db w)"
    and "CompleteSignup a env tok nick img fp nm w = (Inr pair, w1)"
    and "mysql_calls weight w1 w2"
    and "VerifyFlowToken (a_jwt a) (a_issuer a) (e_now env) tok FlowSignup = Inr ph"
    and "a_repo a' = mysql_repo weight now'"
    and "VerifyFlowToken (a_jwt a') (a_issuer a') (e_now env') tok' FlowSignup = Inr ph"
    and "CompleteSignup a' env' tok' nick' img' fp' nm' w2 = (r, w3)"
  shows "(\<exists>i. holder_of weight (w_db w) ph = None \<and> holder_of weight (w_db w1) ph = Some i \<and>
      acct_of (w_db w1) i = Some ACTIVE) \<and> isl r"
proof -
  from mysql.signup_success [OF assms(1-3)] assms(5) obtain i where
    i: "holder_of weight (w_db w) ph = None" "holder_of weight (w_db w1) ph = Some i"
      "acct_of (w_db w1) i = Some ACTIVE" by auto
  have "w1 = snd (CompleteSignup a env tok nick img fp nm w)" using assms(3) by simp
  then have wf1: "db_wf (w_db w1)"
    using db_keeps_snd [OF mysql.keeps_CompleteSignup [OF assms(1)] assms(2)] by simp
  note keep = mysql_calls_keep [OF assms(4) wf1]
  have "holder_of weight (w_db w2) ph = Some i" by (rule lifecycle_holder [OF conjunct2 [OF keep] i(2)])
  then have "isl r" using mysql.signup_taken [OF assms(6) conjunct1 [OF keep] assms(7) _ assms(8)] by auto
  then show ?thesis using i by (intro conjI exI [of _ i])
qed

lemma demo_repo: "a_repo demo_auth = mysql_repo (\<lambda>x. x) demo_day"
  by (simp add: demo_auth_def)

lemma demo_sign: "can_sign demo_auth demo_env u st"
  by (simp add: can_sign_def demo_auth_def sealed_issues)

lemma demo_issue: "can_issue demo_auth demo_env 1 empty_mem"
  by code_simp

lemma demo_signup_token:
  "VerifyFlowToken (a_jwt demo_auth) (a_issuer demo_auth) (e_now demo_env) demo_flow FlowSignup = Inr ''+82''"
  unfolding demo_auth_def demo_env_def auth.simps call_env.simps
  by (rule sealed.flow_token_accepted [OF demo_flow_issued]) (simp_all add: FlowTokenTTL_def duration_defs)

lemma demo_signup:
  "\<exists>pair w1. CompleteSignup demo_auth demo_env demo_flow ''ann'' [] [] []
     \<lparr>w_redis = empty_mem, w_db = empty_db\<rparr> = (Inr pair, w1)"
proof (rule signup_ok [OF demo_repo _ _ demo_signup_token])
  show "fits 64 (FormatInt (db_next_user (w_db \<lparr>w_redis = empty_mem, w_db = empty_db\<rparr>)))" by code_simp
qed (simp_all add: empty_db_wf demo_sign demo_issue,
    simp_all add: empty_db_def cred_join_def join_rows_def demo_issue fits_def char_count_def)

theorem signup_once_witness:
  "\<exists>pair w1. CompleteSignup demo_auth demo_env demo_flow ''ann'' [] [] []
       \<lparr>w_redis = empty_mem, w_db = empty_db\<rparr> = (Inr pair, w1) \<and>
     isl (fst (CompleteSignup demo_auth demo_env demo_flow ''bob'' [] [] [] w1))"
proof -
  let ?w = "\<lparr>w_redis = empty_mem, w_db = empty_db\<rparr>"
  obtain pair w1 where run: "CompleteSignup demo_auth demo_env demo_flow ''ann'' [] [] [] ?w = (Inr pair, w1)"
    using demo_signup by blast
  have wf: "db_wf (w_db ?w)" by (simp add: empty_db_wf)
  have "isl (fst (CompleteSignup demo_auth demo_env demo_flow ''bob'' [] [] [] w1))"
    using signup_once [OF demo_repo wf run rtranclp.rtrancl_refl demo_signup_token demo_repo demo_signup_token
        prod.collapse [symmetric], of "''bob''" "[]" "[]" "[]"] by blast
  with run show ?thesis by blast
qed

text \<open>
  Reactivation needs the consent and an account whose status may become ACTIVE, it leaves the
  account ACTIVE, and a token for the same account cannot be used again right after: the state machine
  refuses ACTIVE to ACTIVE.
\<close>

theorem reactivation_gate:
  assumes "a_repo a = mysql_repo weight now" and "db_wf (w_db w)"
    and "flowUserID a env tok FlowReactivation = Inr u"
    and "CompleteReactivation a env tok consent fp nm w = (Inr pair, w1)"
    and "flowUserID a env' tok' FlowReactivation = Inr u"
    and "CompleteReactivation a env' tok' consent' fp' nm' (w1\<lparr>w_redis := s\<rparr>) = (r, w2)"
  shows "consent \<and> acct_of (w_db w) u \<in> {Some PENDING, Some DORMANT, Some SUSPENDED} \<and>
    acct_of (w_db w1) u = Some ACTIVE \<and> isl r"
proof -
  from mysql.reactivation_success [OF assms(1,2,4)] assms(3) obtain st where
    c: consent and st: "acct_of (w_db w) u = Some st" "CanTransitionTo st ACTIVE"
    and act: "acct_of (w_db w1) u = Some ACTIVE" by auto
  have "w1 = snd (CompleteReactivation a env tok consent fp nm w)" using assms(4) by simp
  then have wf1: "db_wf (w_db (w1\<lparr>w_redis := s\<rparr>))"
    using db_keeps_snd [OF mysql.keeps_CompleteReactivation [OF assms(1)] assms(2)] by simp
  have "isl r"
  proof (rule ccontr)
    assume "\<not> isl r"
    then obtain pair' where "r = Inr pair'" by (rule not_islE)
    from mysql.reactivation_success [OF assms(1) wf1 assms(6) [unfolded this]] assms(5) act
    have "CanTransitionTo ACTIVE ACTIVE" by auto
    then show False by (simp add: to_active_iff)
  qed
  moreover have "acct_of (w_db w) u \<in> {Some PENDING, Some DORMANT, Some SUSPENDED}"
    using st to_active_iff [of st] by auto
  ultimately show ?thesis using c act by (intro conjI)
qed

definition demo_react :: string where
  "demo_react = (case FlowToken sealed_jwt demo_issuer 1000 FlowReactivation (FormatInt 1) of Inr t \<Rightarrow> t | Inl _ \<Rightarrow> [])"

lemma demo_react_user: "flowUserID demo_auth demo_env demo_react FlowReactivation = Inr 1"
proof -
  have "FlowToken sealed_jwt demo_issuer 1000 FlowReactivation (FormatInt 1) = Inr demo_react"
    using sealed_issues(3) [of demo_issuer 1000 FlowReactivation "FormatInt 1"]
    by (auto simp: demo_react_def split: sum.splits)
  from sealed.flow_token_accepted [OF this, of 1000]
  have "VerifyFlowToken sealed_jwt demo_issuer 1000 demo_react FlowReactivation = Inr (FormatInt 1)"
    by (simp add: FlowTokenTTL_def duration_defs)
  moreover have "ParseInt (FormatInt 1) = Some 1"
    by (rule ParseInt_FormatInt) (simp_all add: min_int64_def max_int64_def)
  ultimately show ?thesis by (simp add: flowUserID_def demo_auth_def demo_env_def)
qed

lemma account_db_acct: "acct_of (account_db st) 1 = Some st"
  by (simp add: account_db_def empty_db_def add_account_def user_by_id_def)

lemma account_db_faults: "db_faults (account_db st) = []"
  by (simp add: account_db_def empty_db_def)

text \<open>
  The reactivation gate also lifts a suspension: for a SUSPENDED account with a valid
  reactivation token, \<^verbatim>\<open>CompleteReactivation\<close> (undisturbed) succeeds and the account is ACTIVE, although
  the flow is for DORMANT accounts and suspending is an admin action.
\<close>

theorem reactivation_lifts_suspension:
  assumes "a_repo a = mysql_repo weight now" and "db_faults (w_db w) = []" and "db_wf (w_db w)"
    and "flowUserID a env tok FlowReactivation = Inr i" and "acct_of (w_db w) i = Some SUSPENDED"
    and "can_sign a env i ACTIVE" and "can_issue a env i (w_redis w)"
  shows "\<exists>pair w'. CompleteReactivation a env tok True [] nm w = (Inr pair, w') \<and>
    acct_of (w_db w') i = Some ACTIVE"
proof -
  have can: "CanTransitionTo SUSPENDED ACTIVE" by (simp add: to_active_iff)
  obtain pair w' where run: "CompleteReactivation a env tok True [] nm w = (Inr pair, w')"
    using reactivation_ok [OF assms(1-5) can assms(6,7)] by blast
  from mysql.reactivation_success [OF assms(1,3) run] assms(4) have "acct_of (w_db w') i = Some ACTIVE" by auto
  with run show ?thesis by blast
qed

theorem reactivation_lifts_suspension_witness:
  "\<exists>pair w'. CompleteReactivation demo_auth demo_env demo_react True [] []
     \<lparr>w_redis = empty_mem, w_db = account_db SUSPENDED\<rparr> = (Inr pair, w') \<and> acct_of (w_db w') 1 = Some ACTIVE"
  by (rule reactivation_lifts_suspension [OF demo_repo _ _ demo_react_user])
    (simp_all only: world.simps account_db_faults account_db_wf account_db_acct demo_sign demo_issue)

theorem reactivation_gate_witness:
  "\<exists>pair w1. CompleteReactivation demo_auth demo_env demo_react True [] []
       \<lparr>w_redis = empty_mem, w_db = account_db DORMANT\<rparr> = (Inr pair, w1) \<and>
     isl (fst (CompleteReactivation demo_auth demo_env demo_react True [] [] w1))"
proof -
  let ?w = "\<lparr>w_redis = empty_mem, w_db = account_db DORMANT\<rparr>"
  have can: "CanTransitionTo DORMANT ACTIVE" by (simp add: to_active_iff)
  have "\<exists>pair w'. CompleteReactivation demo_auth demo_env demo_react True [] [] ?w = (Inr pair, w')"
    by (rule reactivation_ok [OF demo_repo _ _ demo_react_user _ can])
      (simp_all only: world.simps account_db_faults account_db_wf account_db_acct demo_sign demo_issue)
  then obtain pair w1 where run: "CompleteReactivation demo_auth demo_env demo_react True [] [] ?w = (Inr pair, w1)"
    by blast
  have wf: "db_wf (w_db ?w)" by (simp add: account_db_wf)
  have same: "w1\<lparr>w_redis := w_redis w1\<rparr> = w1" by simp
  have "isl (fst (CompleteReactivation demo_auth demo_env demo_react True [] [] (w1\<lparr>w_redis := w_redis w1\<rparr>)))"
    using reactivation_gate [OF demo_repo wf demo_react_user run demo_react_user prod.collapse [symmetric]] by blast
  with run show ?thesis unfolding same by blast
qed

text \<open>
  C39. Refreshing does not look at the account's status: as long as the refresh token rotates, the
  owner of a SUSPENDED or DELETED account (or any other) gets a new access token, with that status as
  its claim, and a new refresh token.
\<close>

theorem refresh_ignores_status:
  assumes "a_repo a = mysql_repo weight now" and "db_faults (w_db w) = []" and "db_wf (w_db w)"
    and "rtr_Rotate (a_redis a) (e_tok env) tok (w_redis w) = (Inr (new, i), s)"
    and "acct_of (w_db w) i = Some st" and "can_sign a env i st"
  shows "\<exists>pair. Refresh a env ''refresh_token'' tok w = (Inr pair, w\<lparr>w_redis := s\<rparr>) \<and> tp_RefreshToken pair = new \<and>
    AccessToken (a_jwt a) (a_issuer a) (e_now env) (e_jti env) i (status_string st) = Inr (tp_AccessToken pair)"
  by (rule refresh_ok [OF assms])

definition session_mem :: mem where
  "session_mem = snd (rtr_Issue mem_redis [8] [9] 1 empty_mem)"

theorem refresh_ignores_status_witness:
  "\<exists>pair. fst (Refresh demo_auth demo_env ''refresh_token'' (newOpaqueToken [8])
     \<lparr>w_redis = session_mem, w_db = account_db DELETED\<rparr>) = Inr pair \<and> tp_RefreshToken pair = newOpaqueToken [1]"
proof -
  let ?w = "\<lparr>w_redis = session_mem, w_db = account_db DELETED\<rparr>"
  have "fst (rtr_Rotate mem_redis [1] (newOpaqueToken [8]) session_mem) = Inr (newOpaqueToken [1], 1)" by code_simp
  then obtain s where "rtr_Rotate mem_redis [1] (newOpaqueToken [8]) session_mem = (Inr (newOpaqueToken [1], 1), s)"
    by (metis prod.collapse)
  then have rot: "rtr_Rotate (a_redis demo_auth) (e_tok demo_env) (newOpaqueToken [8]) (w_redis ?w) =
      (Inr (newOpaqueToken [1], 1), s)"
    by (simp add: demo_auth_def demo_env_def)
  have f: "db_faults (w_db ?w) = []" and wf: "db_wf (w_db ?w)" and at: "acct_of (w_db ?w) 1 = Some DELETED"
    by (simp_all only: world.simps account_db_faults account_db_wf account_db_acct)
  obtain pair where "Refresh demo_auth demo_env ''refresh_token'' (newOpaqueToken [8]) ?w = (Inr pair, ?w\<lparr>w_redis := s\<rparr>)"
    "tp_RefreshToken pair = newOpaqueToken [1]"
    using refresh_ignores_status [OF demo_repo f wf rot at demo_sign] by blast
  then show ?thesis by simp
qed

section \<open>The device challenge\<close>

type_synonym device_call = "call_env \<times> string \<times> string \<times> string \<times> string"

definition device_call :: "('s, 'd, 'sk) auth \<Rightarrow> device_call \<Rightarrow> (('s, 'd) world, auth_err, TokenPair) action" where
  "device_call a = (\<lambda>(env, tok, month, fp, nm). VerifyDevice a env tok month fp nm)"

text \<open>A call with a valid token for user \<open>u\<close> and a month that is not the one in which the account was registered.\<close>

definition wrong_guess :: "('s, idb, 'sk) auth \<Rightarrow> tables \<Rightarrow> int \<Rightarrow> device_call \<Rightarrow> bool" where
  "wrong_guess a T u = (\<lambda>(env, tok, month, fp, nm). flowUserID a env tok FlowDeviceVerify = Inr u \<and>
     (case user_by_id T u of None \<Rightarrow> True | Some r \<Rightarrow> month \<noteq> format_year_month (ur_created r)))"

lemma FindByID_reads:
  assumes "repo_FindByID (mysql_repo weight now) u d = (f, d')"
  shows "db_tables d' = db_tables d \<and> (\<forall>x. f = Inr x \<longrightarrow> (\<exists>r. user_by_id (db_tables d) u = Some r \<and> x = user_of_row r))"
proof -
  obtain q where q: "query (\<lambda>T. user_by_id T u) d = (q, d')"
    and f: "\<And>x. f = Inr x \<Longrightarrow> \<exists>r. q = Inr r \<and> x = user_of_row r"
    using assms by (auto simp: mysql_repo_def FindByID_def ok_def elim!: and_thenE map_errE)
  from q show ?thesis by (rule queryE) (use f in \<open>auto split: option.splits\<close>)
qed

lemma wrong_guessE:
  assumes "a_repo a = mysql_repo weight now" and "wrong_guess a (db_tables (w_db w)) u c" and "device_call a c w = (r, w')"
  obtains q s where "dev_Attempt (a_redis a) u (w_redis w) = (q, s)" and "w_redis w' = s" and "isl r"
    and "r = Inl ErrDeviceVerifyFailed \<Longrightarrow> \<not> isl q" and "db_tables (w_db w') = db_tables (w_db w)"
proof -
  obtain env tok month fp nm where c: "c = (env, tok, month, fp, nm)" by (cases c)
  obtain q s where att: "dev_Attempt (a_redis a) u (w_redis w) = (q, s)" by fastforce
  let ?w1 = "w\<lparr>w_redis := s\<rparr>"
  obtain f d where find: "repo_FindByID (a_repo a) u (w_db ?w1) = (f, d)" by fastforce
  from FindByID_reads [OF this [unfolded assms(1)]] assms(2) c
  have tok: "flowUserID a env tok FlowDeviceVerify = Inr u" and same: "db_tables d = db_tables (w_db w)"
    and wrong: "\<And>x. f = Inr x \<Longrightarrow> format_year_month (u_CreatedAt x) \<noteq> month"
    by (auto simp: wrong_guess_def user_of_row_def)
  have res: "device_call a c w = (case q of
      Inl e \<Rightarrow> (Inl (AuthDev e), ?w1)
    | Inr _ \<Rightarrow> (case f of Inl e \<Rightarrow> (Inl (repo_auth_err e), ?w1\<lparr>w_db := d\<rparr>)
        | Inr x \<Rightarrow> (Inl ErrDeviceVerifyFailed, ?w1\<lparr>w_db := d\<rparr>)))"
    using tok att find wrong
    by (auto simp: device_call_def c VerifyDevice_def and_then_def map_err_def token_call_def lift_res_def
        on_redis_def db_call_def on_db_def fail_def split: sum.splits)
  show thesis
    by (rule that [OF att]) (use res assms(3) same in \<open>auto split: sum.splits\<close>)
qed

context redis_server
begin

lemma wrong_guess_attempt:
  assumes "a_repo a = mysql_repo weight now" "a_redis a = R" and "wrong_guess a T u c" "db_tables (w_db w) = T"
    and "device_call a c w = (r, w1)"
  obtains q where "dev_Attempt R u (w_redis w) = (q, w_redis w1)" and "isl r" and "db_tables (w_db w1) = T"
    and "r = Inl ErrDeviceVerifyFailed \<Longrightarrow> \<not> isl q" and "clock (w_redis w) \<le> clock (w_redis w1)"
proof -
  from wrong_guessE [OF assms(1) _ assms(5)] assms(2-4) obtain q where q: "dev_Attempt R u (w_redis w) = (q, w_redis w1)" "isl r"
    "r = Inl ErrDeviceVerifyFailed \<Longrightarrow> \<not> isl q" "db_tables (w_db w1) = T" by metis
  have "clock (w_redis w) \<le> clock (w_redis w1)" by (rule frame_clock [OF dev_Attempt_frame q(1)]) (rule UNIV_I)
  with q that show thesis by blast
qed

lemma wrong_guesses_run:
  assumes "a_repo a = mysql_repo weight now" "a_redis a = R" and "\<forall>c \<in> set cs. wrong_guess a T u c" "db_tables (w_db w) = T"
    and "run_all (map (device_call a) cs) w = (rs, w')"
  shows "clock (w_redis w) \<le> clock (w_redis w') \<and> (\<forall>r \<in> set rs. isl r) \<and> db_tables (w_db w') = T"
  using assms(3-)
proof (induction cs arbitrary: w rs)
  case (Cons c cs)
  from Cons.prems(3) obtain r w1 rs1 where one: "device_call a c w = (r, w1)"
    and rest: "run_all (map (device_call a) cs) w1 = (rs1, w')" and rs: "rs = r # rs1"
    by (auto elim!: run_all_ConsE simp del: run_all.simps(2))
  have "clock (w_redis w) \<le> clock (w_redis w1)" "isl r" "db_tables (w_db w1) = T"
    using wrong_guess_attempt [OF assms(1,2) _ Cons.prems(2) one] Cons.prems(1) by (metis list.set_intros(1))+
  moreover from Cons.IH [OF _ this(3) rest] Cons.prems(1)
  have "clock (w_redis w1) \<le> clock (w_redis w') \<and> (\<forall>r \<in> set rs1. isl r) \<and> db_tables (w_db w') = T" by simp
  ultimately show ?case by (auto simp: rs)
qed simp

lemma wrong_guesses_bounded:
  assumes R: "a_repo a = mysql_repo weight now" "a_redis a = R" and "\<forall>c \<in> set cs. wrong_guess a T u c" "db_tables (w_db w) = T"
    and "run_all (map (device_call a) cs) w = (rs, w')"
    and "reads_count view clock (devKey u) n P (w_redis w)"
    and "\<And>t. clock (w_redis w) \<le> t \<Longrightarrow> t \<le> clock (w_redis w') \<Longrightarrow> P t"
    and "\<And>t. n = 0 \<Longrightarrow> P t \<Longrightarrow> t < clock (w_redis w) + DevWindow"
  shows "int (length (filter (\<lambda>r. r = Inl ErrDeviceVerifyFailed) rs)) + n \<le> max DevMaxAttempts n"
  using assms(3-)
proof (induction cs arbitrary: w rs n)
  case Nil
  then show ?case by simp
next
  case (Cons c cs)
  from Cons.prems(3) obtain r w1 rs1 where one: "device_call a c w = (r, w1)"
    and rest: "run_all (map (device_call a) cs) w1 = (rs1, w')" and rs: "rs = r # rs1"
    by (auto elim!: run_all_ConsE simp del: run_all.simps(2))
  have "wrong_guess a T u c" and later: "\<forall>c \<in> set cs. wrong_guess a T u c" using Cons.prems(1) by auto
  then obtain q where att: "dev_Attempt R u (w_redis w) = (q, w_redis w1)" and T: "db_tables (w_db w1) = T"
    and fail: "r = Inl ErrDeviceVerifyFailed \<Longrightarrow> \<not> isl q" and le: "clock (w_redis w) \<le> clock (w_redis w1)"
    using wrong_guess_attempt [OF R _ Cons.prems(2) one] by blast
  have le': "clock (w_redis w1) \<le> clock (w_redis w')" using wrong_guesses_run [OF R later T rest] by blast
  obtain m where m: "reads_count view clock (devKey u) m P (w_redis w1)" "m = n \<or> m = n + 1"
      "\<forall>x. q = Inr x \<longrightarrow> m = n + 1 \<and> m \<le> DevMaxAttempts"
    using dev_cap.attempt_step [OF Cons.prems(4) att] Cons.prems(5,6) le' by fastforce
  have n0: "0 \<le> n" using Cons.prems(4) by (simp add: reads_count_def)
  have "int (length (filter (\<lambda>r. r = Inl ErrDeviceVerifyFailed) rs1)) + m \<le> max DevMaxAttempts m"
  proof (rule Cons.IH [OF later T rest m(1)])
    show "P t" if "clock (w_redis w1) \<le> t" "t \<le> clock (w_redis w')" for t
      using Cons.prems(5) that le by auto
    show "t < clock (w_redis w1) + DevWindow" if "m = 0" "P t" for t
      using Cons.prems(6) [of t] that m(2) le n0 by auto
  qed
  then show ?case using rs m(2,3) fail by (cases q) (auto split: if_splits)
qed

end

text \<open>
  C22. The device challenge cannot be guessed by brute force. Take any number of \<^verbatim>\<open>VerifyDevice\<close> calls for one account, one after the
  other, each with a valid flow token and a month, well-formed or not, that is not the month in which the account was registered
  according to the database, and let no attempt be counted for the account when they start. As long as they end within ten minutes
  of that moment, at most three of the answers are compared; every other call is refused before, even if Redis commands or database
  queries fail or their replies are lost; and no call returns tokens.
\<close>

theorem device_guess_cap:
  assumes "redis_server (a_redis a) view clock" and "a_repo a = mysql_repo weight now"
    and "\<forall>c \<in> set cs. wrong_guess a (db_tables (w_db w)) u c"
    and "run_all (map (device_call a) cs) w = (rs, w')"
    and "\<forall>t \<ge> clock (w_redis w). view (w_redis w) t (devKey u) = None"
    and "clock (w_redis w') < clock (w_redis w) + DevWindow"
  shows "int (length (filter (\<lambda>r. r = Inl ErrDeviceVerifyFailed) rs)) \<le> DevMaxAttempts \<and> (\<forall>r \<in> set rs. isl r)"
proof
  show "int (length (filter (\<lambda>r. r = Inl ErrDeviceVerifyFailed) rs)) \<le> DevMaxAttempts"
    using redis_server.wrong_guesses_bounded [OF assms(1,2) refl assms(3) refl assms(4), of 0 "\<lambda>t. t < clock (w_redis w) + DevWindow"]
      assms(5,6)
    by (simp add: reads_count_def DevMaxAttempts_def)
  show "\<forall>r \<in> set rs. isl r"
    using redis_server.wrong_guesses_run [OF assms(1,2) refl assms(3) refl assms(4)] by blast
qed

definition demo_devtok :: string where
  "demo_devtok = (case FlowToken sealed_jwt demo_issuer 1000 FlowDeviceVerify (FormatInt 1) of Inr t \<Rightarrow> t | Inl _ \<Rightarrow> [])"

lemma demo_dev_user: "flowUserID demo_auth demo_env demo_devtok FlowDeviceVerify = Inr 1"
proof -
  have "FlowToken sealed_jwt demo_issuer 1000 FlowDeviceVerify (FormatInt 1) = Inr demo_devtok"
    using sealed_issues(3) [of demo_issuer 1000 FlowDeviceVerify "FormatInt 1"]
    by (auto simp: demo_devtok_def split: sum.splits)
  from sealed.flow_token_accepted [OF this, of 1000]
  have "VerifyFlowToken sealed_jwt demo_issuer 1000 demo_devtok FlowDeviceVerify = Inr (FormatInt 1)"
    by (simp add: FlowTokenTTL_def duration_defs)
  moreover have "ParseInt (FormatInt 1) = Some 1"
    by (rule ParseInt_FormatInt) (simp_all add: min_int64_def max_int64_def)
  ultimately show ?thesis by (simp add: flowUserID_def demo_auth_def demo_env_def)
qed

lemma demo_wrong: "wrong_guess demo_auth (db_tables (account_db ACTIVE)) 1 (demo_env, demo_devtok, ''2020-01'', [], [])"
proof -
  have "(case user_by_id (db_tables (account_db ACTIVE)) 1 of None \<Rightarrow> True | Some r \<Rightarrow> ''2020-01'' \<noteq> format_year_month (ur_created r))"
    by code_simp
  then show ?thesis by (simp add: wrong_guess_def demo_dev_user)
qed

lemma mem_dev_now: "dev_Attempt mem_redis u s = (q, s') \<Longrightarrow> m_now s' = m_now s"
  by (auto simp: dev_Attempt_def incr_window_def redis_int_def mem_redis_def and_then_def map_err_def ignore_def
      ok_def fail_def split: sum.splits rreply.splits if_splits prod.splits option.splits)

lemma demo_guesses_now:
  "\<forall>c \<in> set cs. wrong_guess demo_auth T u c \<Longrightarrow> db_tables (w_db w) = T \<Longrightarrow> run_all (map (device_call demo_auth) cs) w = (rs, w') \<Longrightarrow>
     m_now (w_redis w') = m_now (w_redis w)"
proof (induction cs arbitrary: w rs)
  case (Cons c cs)
  from Cons.prems(3) obtain r w1 rs1 where one: "device_call demo_auth c w = (r, w1)"
    and rest: "run_all (map (device_call demo_auth) cs) w1 = (rs1, w')"
    by (auto elim!: run_all_ConsE simp del: run_all.simps(2))
  have "wrong_guess demo_auth (db_tables (w_db w)) u c" using Cons.prems(1,2) by simp
  then obtain q s where "dev_Attempt (a_redis demo_auth) u (w_redis w) = (q, s)" "w_redis w1 = s"
    and same: "db_tables (w_db w1) = db_tables (w_db w)" using one by (rule wrong_guessE [OF demo_repo])
  then have "m_now (w_redis w1) = m_now (w_redis w)" using mem_dev_now by (simp add: demo_auth_def)
  with Cons.IH [OF _ _ rest] Cons.prems(1,2) same show ?case by simp
qed simp

theorem device_guess_cap_witness:
  "length (fst (run_all (map (device_call demo_auth) (replicate 5 (demo_env, demo_devtok, ''2020-01'', [], [])))
      \<lparr>w_redis = empty_mem, w_db = account_db ACTIVE\<rparr>)) = 5 \<and>
   int (length (filter (\<lambda>r. r = Inl ErrDeviceVerifyFailed)
     (fst (run_all (map (device_call demo_auth) (replicate 5 (demo_env, demo_devtok, ''2020-01'', [], [])))
      \<lparr>w_redis = empty_mem, w_db = account_db ACTIVE\<rparr>)))) \<le> DevMaxAttempts"
proof -
  let ?cs = "replicate 5 (demo_env, demo_devtok, ''2020-01'', [], [])"
  let ?w = "\<lparr>w_redis = empty_mem, w_db = account_db ACTIVE\<rparr>"
  let ?run = "run_all (map (device_call demo_auth) ?cs) ?w"
  have wrong: "\<forall>c \<in> set ?cs. wrong_guess demo_auth (db_tables (w_db ?w)) 1 c" using demo_wrong by simp
  have run: "?run = (fst ?run, snd ?run)" by simp
  have server: "redis_server (a_redis demo_auth) mem_view m_now" by (simp add: demo_auth_def mem_contract)
  have "m_now (w_redis (snd ?run)) = m_now (w_redis ?w)" by (rule demo_guesses_now [OF wrong refl run])
  then have "m_now (w_redis (snd ?run)) < m_now (w_redis ?w) + DevWindow"
    by (simp add: empty_mem_def DevWindow_def duration_defs)
  moreover have "\<forall>t \<ge> m_now (w_redis ?w). mem_view (w_redis ?w) t (devKey 1) = None"
    by (simp add: empty_mem_def mem_view_def)
  ultimately have "int (length (filter (\<lambda>r. r = Inl ErrDeviceVerifyFailed) (fst ?run))) \<le> DevMaxAttempts"
    using device_guess_cap [OF server demo_repo wrong run] by blast
  moreover have "length (fst ?run) = 5" using run_all_length [OF run] by simp
  ultimately show ?thesis by simp
qed

end
