(* ===== verification/Grpc_Status.thy ===== *)
theory Grpc_Status
  imports Prelude
begin

text \<open>
  What both delivery layers use of gRPC: status codes with a message, the incoming metadata, and Go's
  \<^verbatim>\<open>strings.TrimSpace\<close> on UTF-8 text.
\<close>

datatype code =
    InvalidArgument | NotFound | AlreadyExists | PermissionDenied | ResourceExhausted
  | FailedPrecondition | Unauthenticated | Internal

type_synonym rpc_err = "code \<times> string"

text \<open>Metadata keys are in lower case; \<^verbatim>\<open>md.Get\<close> gives all values of a key, none if it is absent.\<close>

type_synonym metadata = "string \<Rightarrow> string list"

section \<open>White space\<close>

text \<open>The encodings of the characters that \<^verbatim>\<open>unicode.IsSpace\<close> accepts.\<close>

definition space_seqs :: "string list" where
  "space_seqs = map (\<lambda>n. [char_of (n :: nat)]) [9, 10, 11, 12, 13, 32] @
     [[CHR 0xC2, CHR 0x85], [CHR 0xC2, CHR 0xA0], [CHR 0xE1, CHR 0x9A, CHR 0x80]] @
     map (\<lambda>n. [CHR 0xE2, CHR 0x80, char_of (n :: nat)]) ([128..<139] @ [168, 169, 175]) @
     [[CHR 0xE2, CHR 0x81, CHR 0x9F], [CHR 0xE3, CHR 0x80, CHR 0x80]]"

text \<open>Removing one of some non-empty sequences from the front as long as there is one.\<close>

fun trim_front :: "string list \<Rightarrow> nat \<Rightarrow> string \<Rightarrow> string" where
  "trim_front seqs 0 s = s"
| "trim_front seqs (Suc k) s = (case find (\<lambda>p. has_prefix s p) seqs of
      None \<Rightarrow> s | Some p \<Rightarrow> trim_front seqs k (drop (length p) s))"

definition TrimSpace :: "string \<Rightarrow> string" where
  "TrimSpace s = (let l = trim_front space_seqs (length s) s in
     rev (trim_front (map rev space_seqs) (length l) (rev l)))"

text \<open>The number of removals that are tried is enough: nothing is left to remove in front.\<close>

lemma trim_front_done:
  assumes "\<forall>p \<in> set seqs. p \<noteq> []" and "length s \<le> k" and "p \<in> set seqs"
  shows "\<not> has_prefix (trim_front seqs k s) p"
  using assms(2)
proof (induction k arbitrary: s)
  case 0
  then show ?case using assms(1,3) by (auto simp: has_prefix_def)
next
  case (Suc k)
  show ?case
  proof (cases "find (\<lambda>p. has_prefix s p) seqs")
    case None
    then have "\<not> has_prefix s p" using assms(3) by (auto simp: find_None_iff)
    with None show ?thesis by simp
  next
    case (Some q)
    then have "q \<in> set seqs" "has_prefix s q" by (auto simp: find_Some_iff)
    with assms(1) have "0 < length q" by simp
    then have "length (drop (length q) s) \<le> k" using Suc.prems unfolding length_drop by linarith
    with Suc.IH Some show ?thesis by simp
  qed
qed

lemma trim_front_id: "find (\<lambda>p. has_prefix s p) seqs = None \<Longrightarrow> trim_front seqs k s = s"
  by (cases k) simp_all

text \<open>A string that starts and ends with printable ASCII characters is left alone.\<close>

lemma space_seqs_bytes: "p \<in> set space_seqs \<Longrightarrow> p \<noteq> [] \<and> (\<forall>c \<in> set p. (of_char c :: nat) < 33 \<or> 127 < (of_char c :: nat))"
proof -
  have "list_all (\<lambda>p. p \<noteq> [] \<and> list_all (\<lambda>c. (of_char c :: nat) < 33 \<or> 127 < (of_char c :: nat)) p) space_seqs" by code_simp
  then show "p \<in> set space_seqs \<Longrightarrow> p \<noteq> [] \<and> (\<forall>c \<in> set p. (of_char c :: nat) < 33 \<or> 127 < (of_char c :: nat))"
    by (auto simp: list_all_iff)
qed

definition printable :: "char \<Rightarrow> bool" where
  "printable c \<longleftrightarrow> 33 \<le> (of_char c :: nat) \<and> (of_char c :: nat) \<le> 127"

lemma space_seqs_printable: "p \<in> set space_seqs \<Longrightarrow> c \<in> set p \<Longrightarrow> \<not> printable c"
  using space_seqs_bytes by (fastforce simp: printable_def)

lemma no_space_prefix:
  assumes "s \<noteq> []" and "printable (hd s)" and "p \<noteq> []" and "\<forall>c \<in> set p. \<not> printable c"
  shows "\<not> has_prefix s p"
  using assms by (cases p; cases s) (auto simp: has_prefix_def)

lemma TrimSpace_id:
  assumes "s \<noteq> []" and "printable (hd s)" and "printable (last s)"
  shows "TrimSpace s = s"
proof -
  have "find (\<lambda>p. has_prefix s p) space_seqs = None"
    unfolding find_None_iff using no_space_prefix [OF assms(1,2)] space_seqs_bytes space_seqs_printable by blast
  moreover have "find (\<lambda>p. has_prefix (rev s) p) (map rev space_seqs) = None"
    unfolding find_None_iff
    using no_space_prefix [of "rev s" "rev q" for q] assms space_seqs_bytes space_seqs_printable by (auto simp: hd_rev)
  ultimately show ?thesis by (simp add: TrimSpace_def trim_front_id)
qed

end
