(* ===== verification/Identity_Grpc.thy ===== *)
theory Identity_Grpc
  imports Auth Grpc_Status
begin

text \<open>
  The identity service's delivery layer (\<^verbatim>\<open>services/identity/internal/delivery/grpc/handler.go\<close>): required
  fields, the call of the use case, and the translation of errors to status codes. \<open>quote\<close> stands for the
  verb \<^verbatim>\<open>%q\<close> in the text of one error. The logging interceptor around it is in the theory \<open>Logging\<close>.
\<close>

section \<open>Errors\<close>

definition auth_msg :: "(string \<Rightarrow> string) \<Rightarrow> auth_err \<Rightarrow> string" where
  "auth_msg quote e = (case e of
      AuthOtp x \<Rightarrow> otp_msg x
    | AuthDev x \<Rightarrow> dev_msg x
    | AuthRtr x \<Rightarrow> rtr_msg x
    | AuthToken x \<Rightarrow> token_msg x
    | AuthDomain x \<Rightarrow> domain_msg x
    | AuthDb c x \<Rightarrow> []
    | ErrUnsupportedGrant g \<Rightarrow> ''unsupported grant_type: '' @ quote g
    | ErrConsentRequired \<Rightarrow> ''privacy consent is required for reactivation''
    | ErrDeviceVerifyFailed \<Rightarrow> ''device verification failed'')"

definition mapErr :: "(string \<Rightarrow> string) \<Rightarrow> auth_err \<Rightarrow> rpc_err" where
  "mapErr quote e = (let m = auth_msg quote e in case e of
      AuthOtp ErrRateLimited \<Rightarrow> (ResourceExhausted, m)
    | AuthOtp ErrInvalidCode \<Rightarrow> (Unauthenticated, m)
    | AuthOtp OtpTooManyAttempts \<Rightarrow> (Unauthenticated, m)
    | AuthRtr RtrInvalidToken \<Rightarrow> (Unauthenticated, m)
    | AuthRtr ErrReuseDetected \<Rightarrow> (Unauthenticated, m)
    | AuthToken ErrInvalidFlowToken \<Rightarrow> (Unauthenticated, m)
    | ErrConsentRequired \<Rightarrow> (InvalidArgument, m)
    | ErrDeviceVerifyFailed \<Rightarrow> (Unauthenticated, m)
    | AuthDev DevTooManyAttempts \<Rightarrow> (Unauthenticated, m)
    | AuthDomain (ErrInvalidTransition _ _) \<Rightarrow> (FailedPrecondition, m)
    | AuthDomain ErrUserNotFound \<Rightarrow> (Unauthenticated, ''invalid flow'')
    | AuthDomain (ErrLoginNotAllowed _) \<Rightarrow> (PermissionDenied, m)
    | AuthDomain ErrCredentialConflict \<Rightarrow> (AlreadyExists, m)
    | ErrUnsupportedGrant _ \<Rightarrow> (InvalidArgument, m)
    | _ \<Rightarrow> (Internal, ''internal error''))"

section \<open>Messages\<close>

datatype identity_req =
    RequestOtpRequest string
  | VerifyOtpRequest string string string string
  | CompleteSignupRequest string string string string string
  | CompleteReactivationRequest string bool string string
  | VerifyDeviceRequest string string string string
  | IssueTokenRequest string string

record token_pb =
  pb_access :: string
  pb_id_token :: string
  pb_refresh :: string
  pb_token_type :: string
  pb_expires_in :: int

datatype identity_resp =
    RequestOtpResponse int string
  | VerifyOtpResponse int "token_pb option" string
  | CompleteSignupResponse "token_pb option"
  | CompleteReactivationResponse "token_pb option"
  | VerifyDeviceResponse "token_pb option"
  | IssueTokenResponse token_pb

definition toProtoTokens :: "TokenPair option \<Rightarrow> token_pb option" where
  "toProtoTokens t = (case t of
      None \<Rightarrow> None
    | Some p \<Rightarrow> Some \<lparr>pb_access = tp_AccessToken p, pb_id_token = tp_IDToken p, pb_refresh = tp_RefreshToken p,
        pb_token_type = ''Bearer'', pb_expires_in = tp_ExpiresIn p\<rparr>)"

text \<open>\<^verbatim>\<open>NextStep\<close> counts from 1.\<close>

definition step_number :: "NextStep \<Rightarrow> int" where
  "step_number s = (case s of StepTokensIssued \<Rightarrow> 1 | StepSignupRequired \<Rightarrow> 2
     | StepReactivationRequired \<Rightarrow> 3 | StepDeviceVerificationRequired \<Rightarrow> 4)"

section \<open>The handlers\<close>

definition h_RequestOtp ::
  "(string \<Rightarrow> string) \<Rightarrow> ('s, 'd, 'sk) auth \<Rightarrow> call_env \<Rightarrow> string \<Rightarrow> (('s, 'd) world, rpc_err, identity_resp) action" where
  "h_RequestOtp quote a env phone =
     (if phone = [] then fail (InvalidArgument, ''phone_number is required'')
      else and_then (map_err (mapErr quote) (RequestOtp a env phone)) (\<lambda>(expiresIn, debugCode).
        ok (RequestOtpResponse expiresIn debugCode)))"

definition h_VerifyOtp ::
  "(string \<Rightarrow> string) \<Rightarrow> ('s, 'd, 'sk) auth \<Rightarrow> call_env \<Rightarrow> string \<Rightarrow> string \<Rightarrow> string \<Rightarrow> string \<Rightarrow>
   (('s, 'd) world, rpc_err, identity_resp) action" where
  "h_VerifyOtp quote a env phone code fp nm =
     (if phone = [] \<or> code = [] then fail (InvalidArgument, ''phone_number and code are required'')
      else and_then (map_err (mapErr quote) (VerifyOtp a env phone code fp nm)) (\<lambda>res.
        ok (VerifyOtpResponse (step_number (vr_NextStep res)) (toProtoTokens (vr_Tokens res)) (vr_FlowToken res))))"

definition h_CompleteSignup ::
  "(string \<Rightarrow> string) \<Rightarrow> ('s, 'd, 'sk) auth \<Rightarrow> call_env \<Rightarrow> string \<Rightarrow> string \<Rightarrow> string \<Rightarrow> string \<Rightarrow> string \<Rightarrow>
   (('s, 'd) world, rpc_err, identity_resp) action" where
  "h_CompleteSignup quote a env flow nick img fp nm =
     (if flow = [] \<or> nick = [] then fail (InvalidArgument, ''flow_token and nickname are required'')
      else and_then (map_err (mapErr quote) (CompleteSignup a env flow nick img fp nm)) (\<lambda>tokens.
        ok (CompleteSignupResponse (toProtoTokens (Some tokens)))))"

definition h_CompleteReactivation ::
  "(string \<Rightarrow> string) \<Rightarrow> ('s, 'd, 'sk) auth \<Rightarrow> call_env \<Rightarrow> string \<Rightarrow> bool \<Rightarrow> string \<Rightarrow> string \<Rightarrow>
   (('s, 'd) world, rpc_err, identity_resp) action" where
  "h_CompleteReactivation quote a env flow consent fp nm =
     (if flow = [] then fail (InvalidArgument, ''flow_token is required'')
      else and_then (map_err (mapErr quote) (CompleteReactivation a env flow consent fp nm)) (\<lambda>tokens.
        ok (CompleteReactivationResponse (toProtoTokens (Some tokens)))))"

definition h_VerifyDevice ::
  "(string \<Rightarrow> string) \<Rightarrow> ('s, 'd, 'sk) auth \<Rightarrow> call_env \<Rightarrow> string \<Rightarrow> string \<Rightarrow> string \<Rightarrow> string \<Rightarrow>
   (('s, 'd) world, rpc_err, identity_resp) action" where
  "h_VerifyDevice quote a env flow month fp nm =
     (if flow = [] \<or> month = [] then fail (InvalidArgument, ''flow_token and registration_month are required'')
      else and_then (map_err (mapErr quote) (VerifyDevice a env flow month fp nm)) (\<lambda>tokens.
        ok (VerifyDeviceResponse (toProtoTokens (Some tokens)))))"

definition h_IssueToken ::
  "(string \<Rightarrow> string) \<Rightarrow> ('s, 'd, 'sk) auth \<Rightarrow> call_env \<Rightarrow> string \<Rightarrow> string \<Rightarrow>
   (('s, 'd) world, rpc_err, identity_resp) action" where
  "h_IssueToken quote a env grant refresh =
     and_then (map_err (mapErr quote) (Refresh a env grant refresh)) (\<lambda>t.
     ok (IssueTokenResponse \<lparr>pb_access = tp_AccessToken t, pb_id_token = tp_IDToken t, pb_refresh = tp_RefreshToken t,
       pb_token_type = ''Bearer'', pb_expires_in = tp_ExpiresIn t\<rparr>))"

definition identity_serve ::
  "(string \<Rightarrow> string) \<Rightarrow> ('s, 'd, 'sk) auth \<Rightarrow> call_env \<Rightarrow> identity_req \<Rightarrow> (('s, 'd) world, rpc_err, identity_resp) action" where
  "identity_serve quote a env req = (case req of
      RequestOtpRequest phone \<Rightarrow> h_RequestOtp quote a env phone
    | VerifyOtpRequest phone code fp nm \<Rightarrow> h_VerifyOtp quote a env phone code fp nm
    | CompleteSignupRequest flow nick img fp nm \<Rightarrow> h_CompleteSignup quote a env flow nick img fp nm
    | CompleteReactivationRequest flow consent fp nm \<Rightarrow> h_CompleteReactivation quote a env flow consent fp nm
    | VerifyDeviceRequest flow month fp nm \<Rightarrow> h_VerifyDevice quote a env flow month fp nm
    | IssueTokenRequest grant refresh \<Rightarrow> h_IssueToken quote a env grant refresh)"

section \<open>Success of an RPC\<close>

text \<open>A handler after its guard: the world is that of the use case, an error is one of its errors.\<close>

lemma handler_run:
  assumes "and_then (map_err (mapErr quote) m) (\<lambda>x. ok (f x)) w = (r, w')"
  obtains (failed) e where "m w = (Inl e, w')" and "r = Inl (mapErr quote e)"
  | (returned) x where "m w = (Inr x, w')" and "r = Inr (f x)"
  using assms by (auto simp: ok_def elim!: and_thenE map_errE)

lemmas handler_defs = h_RequestOtp_def h_VerifyOtp_def h_CompleteSignup_def h_CompleteReactivation_def
  h_VerifyDevice_def h_IssueToken_def

lemma mapErr_internal: "mapErr quote e = (Internal, m) \<Longrightarrow> m = ''internal error''"
  by (auto simp: mapErr_def Let_def split: auth_err.splits otp_err.splits dev_err.splits rtr_err.splits token_err.splits domain_err.splits)

text \<open>The required fields of a request, and the tokens of a response.\<close>

definition complete_req :: "identity_req \<Rightarrow> bool" where
  "complete_req req = (case req of
      RequestOtpRequest phone \<Rightarrow> phone \<noteq> []
    | VerifyOtpRequest phone code _ _ \<Rightarrow> phone \<noteq> [] \<and> code \<noteq> []
    | CompleteSignupRequest flow nick _ _ _ \<Rightarrow> flow \<noteq> [] \<and> nick \<noteq> []
    | CompleteReactivationRequest flow _ _ _ \<Rightarrow> flow \<noteq> []
    | VerifyDeviceRequest flow month _ _ \<Rightarrow> flow \<noteq> [] \<and> month \<noteq> []
    | IssueTokenRequest _ _ \<Rightarrow> True)"

definition issued_tokens :: "identity_resp \<Rightarrow> token_pb option" where
  "issued_tokens resp = (case resp of
      RequestOtpResponse _ _ \<Rightarrow> None
    | VerifyOtpResponse _ t _ \<Rightarrow> t
    | CompleteSignupResponse t \<Rightarrow> t
    | CompleteReactivationResponse t \<Rightarrow> t
    | VerifyDeviceResponse t \<Rightarrow> t
    | IssueTokenResponse t \<Rightarrow> Some t)"

text \<open>What each use case has checked when it hands out tokens.\<close>

lemma device_success:
  assumes "VerifyDevice a env tok month fp nm w = (Inr pair, w')"
  obtains u usr d s where "flowUserID a env tok FlowDeviceVerify = Inr u"
    and "dev_Attempt (a_redis a) u (w_redis w) = (Inr (), s)"
    and "repo_FindByID (a_repo a) u (w_db w) = (Inr usr, d)"
    and "format_year_month (u_CreatedAt usr) = month"
  using assms unfolding VerifyDevice_def
  by (fastforce simp: fail_def elim!: and_then_InrE token_callE map_err_InrE db_callE
      dest!: on_redis_db split: if_splits)

lemma refresh_success:
  assumes "Refresh a env grant tok w = (Inr pair, w')"
  obtains u s where "grant = ''refresh_token''"
    and "rtr_Rotate (a_redis a) (e_tok env) tok (w_redis w) = (Inr (tp_RefreshToken pair, u), s)"
  using assms unfolding Refresh_def
  by (fastforce simp: fail_def ok_def elim!: and_then_InrE map_err_InrE db_callE
      dest!: on_redis_db split: if_splits prod.splits)

section \<open>Properties\<close>

text \<open>
  C6. Tokens are handed out only to who has met the challenge of the flow. Whatever RPC is sent, a response
  that carries tokens means: for VerifyOtp, that the code was accepted, that the phone number belongs to an ACTIVE
  account and that the device is known (or none was named); for CompleteSignup, that the flow token is a
  signup token for a phone number without an account; for CompleteReactivation, consent and a reactivation token of
  an account that may become ACTIVE; for VerifyDevice, a device token, an attempt within the limit and the
  right month of registration; for IssueToken, the right grant and a refresh token that was rotated.
  RequestOtp never returns tokens.
\<close>

theorem tokens_are_earned:
  assumes "a_repo a = mysql_repo weight now" and "db_wf (w_db w)"
    and "identity_serve quote a env req w = (Inr resp, w')" and "issued_tokens resp = Some p"
  shows "case req of
      RequestOtpRequest _ \<Rightarrow> False
    | VerifyOtpRequest phone code fp _ \<Rightarrow>
        (\<exists>s. otp_Verify (a_redis a) phone code (w_redis w) = (Inr (), s)) \<and>
        (\<exists>i. holder_of weight (w_db w) phone = Some i \<and> acct_of (w_db w) i = Some ACTIVE \<and>
          (fp = [] \<or> known_of weight (w_db w) i fp))
    | CompleteSignupRequest flow _ _ _ _ \<Rightarrow>
        (\<exists>ph. VerifyFlowToken (a_jwt a) (a_issuer a) (e_now env) flow FlowSignup = Inr ph \<and>
          holder_of weight (w_db w) ph = None)
    | CompleteReactivationRequest flow consent _ _ \<Rightarrow> consent \<and>
        (\<exists>u st. flowUserID a env flow FlowReactivation = Inr u \<and> acct_of (w_db w) u = Some st \<and>
          CanTransitionTo st ACTIVE)
    | VerifyDeviceRequest flow month _ _ \<Rightarrow>
        (\<exists>u s usr d. flowUserID a env flow FlowDeviceVerify = Inr u \<and>
          dev_Attempt (a_redis a) u (w_redis w) = (Inr (), s) \<and>
          repo_FindByID (a_repo a) u (w_db w) = (Inr usr, d) \<and> format_year_month (u_CreatedAt usr) = month)
    | IssueTokenRequest grant refresh \<Rightarrow> grant = ''refresh_token'' \<and>
        (\<exists>u s. rtr_Rotate (a_redis a) (e_tok env) refresh (w_redis w) = (Inr (pb_refresh p, u), s))"
proof (cases req)
  case (RequestOtpRequest phone)
  with assms(3,4) show ?thesis
    by (auto simp: identity_serve_def h_RequestOtp_def fail_def ok_def issued_tokens_def
        elim!: and_then_InrE split: if_splits)
next
  case (VerifyOtpRequest phone code fp nm)
  with assms(3,4) obtain res where res: "VerifyOtp a env phone code fp nm w = (Inr res, w')" "vr_Tokens res \<noteq> None"
    by (auto simp: identity_serve_def h_VerifyOtp_def fail_def issued_tokens_def toProtoTokens_def
        split: if_splits option.splits elim!: handler_run)
  note r = mysql.verify_otp_route [OF assms(1,2) res(1)]
  from r(2) res(2) obtain i where i: "holder_of weight (w_db w) phone = Some i"
    and route: "login_route (acct_of (w_db w) i) (fp = [] \<or> known_of weight (w_db w) i fp) = Some StepTokensIssued"
    by (auto split: option.splits)
  from route have "acct_of (w_db w) i = Some ACTIVE \<and> (fp = [] \<or> known_of weight (w_db w) i fp)"
    by (auto simp: login_route_def split: option.splits status.splits if_splits)
  with i r(1) VerifyOtpRequest show ?thesis by (simp only: identity_req.case) blast
next
  case (CompleteSignupRequest flow nick img fp nm)
  with assms(3) obtain pair where "CompleteSignup a env flow nick img fp nm w = (Inr pair, w')"
    by (auto simp: identity_serve_def h_CompleteSignup_def fail_def split: if_splits elim!: handler_run)
  from mysql.signup_success [OF assms(1,2) this] CompleteSignupRequest show ?thesis by auto
next
  case (CompleteReactivationRequest flow consent fp nm)
  with assms(3) obtain pair where "CompleteReactivation a env flow consent fp nm w = (Inr pair, w')"
    by (auto simp: identity_serve_def h_CompleteReactivation_def fail_def split: if_splits elim!: handler_run)
  from mysql.reactivation_success [OF assms(1,2) this] CompleteReactivationRequest show ?thesis by auto
next
  case (VerifyDeviceRequest flow month fp nm)
  with assms(3) obtain pair where "VerifyDevice a env flow month fp nm w = (Inr pair, w')"
    by (auto simp: identity_serve_def h_VerifyDevice_def fail_def split: if_splits elim!: handler_run)
  then show ?thesis using VerifyDeviceRequest by (auto elim!: device_success)
next
  case (IssueTokenRequest grant refresh)
  with assms(3,4) obtain pair where "Refresh a env grant refresh w = (Inr pair, w')" "pb_refresh p = tp_RefreshToken pair"
    by (auto simp: identity_serve_def h_IssueToken_def issued_tokens_def elim!: handler_run)
  then show ?thesis using IssueTokenRequest by (auto elim!: refresh_success)
qed

lemma signup_rpc:
  assumes "CompleteSignup a env flow nick img fp nm w = (Inr pair, w')" and "flow \<noteq> []" and "nick \<noteq> []"
  shows "identity_serve quote a env (CompleteSignupRequest flow nick img fp nm) w =
    (Inr (CompleteSignupResponse (toProtoTokens (Some pair))), w')"
  using assms by (simp add: identity_serve_def h_CompleteSignup_def and_then_def map_err_def ok_def)

lemma demo_flow_nonempty: "demo_flow \<noteq> []"
proof
  assume "demo_flow = []"
  with demo_flow_issued obtain d where "parse_doc [] = Some d"
    by (auto simp: FlowToken_def iss_sign_def dest: sealed_signed split: sum.splits)
  moreover have "parse_doc [] = None" by code_simp
  ultimately show False by simp
qed

theorem tokens_are_earned_witness:
  "\<exists>p w'. identity_serve id demo_auth demo_env (CompleteSignupRequest demo_flow ''ann'' [] [] [])
     \<lparr>w_redis = empty_mem, w_db = empty_db\<rparr> = (Inr (CompleteSignupResponse (Some p)), w') \<and>
   (\<exists>ph. VerifyFlowToken (a_jwt demo_auth) (a_issuer demo_auth) (e_now demo_env) demo_flow FlowSignup = Inr ph \<and>
     holder_of (\<lambda>x. x) empty_db ph = None)"
proof -
  let ?w = "\<lparr>w_redis = empty_mem, w_db = empty_db\<rparr>"
  let ?req = "CompleteSignupRequest demo_flow ''ann'' [] [] []"
  obtain pair w1 where run: "CompleteSignup demo_auth demo_env demo_flow ''ann'' [] [] [] ?w = (Inr pair, w1)"
    using demo_signup by blast
  from signup_rpc [OF run demo_flow_nonempty, of id] obtain p
    where p: "identity_serve id demo_auth demo_env ?req ?w = (Inr (CompleteSignupResponse (Some p)), w1)"
    by (simp add: toProtoTokens_def)
  have "db_wf (w_db ?w)" by (simp add: empty_db_wf)
  from tokens_are_earned [OF demo_repo this p, of p] p show ?thesis by (auto simp: issued_tokens_def)
qed

text \<open>
  C34. Refusals of the identity API. A request that lacks a required field is answered InvalidArgument before
  any store is touched; and an answer with the code Internal says nothing but \<^verbatim>\<open>internal error\<close>,
  whatever went wrong below.
\<close>

theorem identity_refusals:
  "(complete_req req \<or> (\<exists>m. identity_serve quote a env req w = (Inl (InvalidArgument, m), w))) \<and>
   (\<forall>m w'. identity_serve quote a env req w = (Inl (Internal, m), w') \<longrightarrow> m = ''internal error'')"
proof
  show "complete_req req \<or> (\<exists>m. identity_serve quote a env req w = (Inl (InvalidArgument, m), w))"
    by (cases req) (auto simp: complete_req_def identity_serve_def handler_defs fail_def)
  show "\<forall>m w'. identity_serve quote a env req w = (Inl (Internal, m), w') \<longrightarrow> m = ''internal error''"
  proof (intro allI impI)
    fix m w'
    assume "identity_serve quote a env req w = (Inl (Internal, m), w')"
    then show "m = ''internal error''"
      by (cases req)
        (auto simp: identity_serve_def handler_defs fail_def ok_def split: if_splits
          elim!: and_thenE map_errE dest: mapErr_internal [OF sym])
  qed
qed

theorem identity_refusals_witness:
  "\<exists>m. identity_serve id demo_auth demo_env (VerifyOtpRequest ''7'' [] [] [])
     \<lparr>w_redis = empty_mem, w_db = empty_db\<rparr> = (Inl (InvalidArgument, m), \<lparr>w_redis = empty_mem, w_db = empty_db\<rparr>)"
  using identity_refusals [of "VerifyOtpRequest ''7'' [] [] []" id demo_auth demo_env]
  by (simp add: complete_req_def)

end
