(* ===== verification/Event_Stream.thy ===== *)
theory Event_Stream
  imports Prelude
begin

text \<open>
  Redis Streams as the outbox relay and the board's consumer use them: appending an entry, creating a
  consumer group, reading with a group, acknowledging. The server is a parameter (\<open>'x streams\<close>); the
  locale \<open>stream_group\<close> states the documented behaviour for one stream, group and consumer: the entries
  in order with their ids, how many of them the group was given, and which of those this consumer has
  not acknowledged. A command that returns an error may have been carried out. The last section
  interprets the locale on a list of entries with a plan of faults.
\<close>

type_synonym fields = "(string \<times> string) list"
type_synonym message = "string \<times> fields"

text \<open>\<open>None\<close> is the reply nil of a blocking read that timed out.\<close>

record 'x streams =
  xadd :: "string \<Rightarrow> fields \<Rightarrow> ('x, string, unit) action"
  xgroup_create :: "string \<Rightarrow> string \<Rightarrow> ('x, string, unit) action"
  xread_group :: "string \<Rightarrow> string \<Rightarrow> string \<Rightarrow> string \<Rightarrow> nat \<Rightarrow> ('x, string, message list option) action"
  xack :: "string \<Rightarrow> string \<Rightarrow> string \<Rightarrow> ('x, string, unit) action"

record stream_view =
  sv_log :: "message list"
  sv_given :: nat
  sv_pending :: "string list"

text \<open>The effect of each command on what a client can observe.\<close>

definition view_give :: "nat \<Rightarrow> stream_view \<Rightarrow> stream_view" where
  "view_give n v = (let ms = take n (drop (sv_given v) (sv_log v)) in
     v\<lparr>sv_given := sv_given v + length ms, sv_pending := sv_pending v @ map fst ms\<rparr>)"

definition view_new :: "nat \<Rightarrow> stream_view \<Rightarrow> message list" where
  "view_new n v = take n (drop (sv_given v) (sv_log v))"

definition view_pending :: "nat \<Rightarrow> stream_view \<Rightarrow> message list" where
  "view_pending n v = take n (filter (\<lambda>m. fst m \<in> set (sv_pending v)) (sv_log v))"

definition view_ack :: "string \<Rightarrow> stream_view \<Rightarrow> stream_view" where
  "view_ack i v = v\<lparr>sv_pending := removeAll i (sv_pending v)\<rparr>"

locale stream_group =
  fixes X :: "'x streams" and st grp cons :: string and sview :: "'x \<Rightarrow> stream_view"
  assumes ids_distinct: "distinct (map fst (sv_log (sview x)))"
    and given_le: "sv_given (sview x) \<le> length (sv_log (sview x))"
    and pending_given: "set (sv_pending (sview x)) \<subseteq> set (map fst (take (sv_given (sview x)) (sv_log (sview x))))"
    and add_ok: "xadd X st f x = (Inr u, x') \<Longrightarrow>
      \<exists>i. sview x' = (sview x)\<lparr>sv_log := sv_log (sview x) @ [(i, f)]\<rparr>"
    and add_err: "xadd X st f x = (Inl e, x') \<Longrightarrow>
      sview x' = sview x \<or> (\<exists>i. sview x' = (sview x)\<lparr>sv_log := sv_log (sview x) @ [(i, f)]\<rparr>)"
    and create_err: "xgroup_create X st grp x = (Inl e, x') \<Longrightarrow> sview x' = sview x"
    and create_ok: "xgroup_create X st grp x = (Inr u, x') \<Longrightarrow>
      sview x' = (sview x)\<lparr>sv_given := 0, sv_pending := []\<rparr>"
    and read_new: "xread_group X st grp cons ''>'' n x = (Inr r, x') \<Longrightarrow>
      sview x' = view_give n (sview x) \<and> r = (if view_new n (sview x) = [] then None else Some (view_new n (sview x)))"
    and read_new_err: "xread_group X st grp cons ''>'' n x = (Inl e, x') \<Longrightarrow>
      sview x' = sview x \<or> sview x' = view_give n (sview x)"
    and read_pending: "xread_group X st grp cons ''0'' n x = (Inr r, x') \<Longrightarrow>
      sview x' = sview x \<and> r = Some (view_pending n (sview x))"
    and read_pending_err: "xread_group X st grp cons ''0'' n x = (Inl e, x') \<Longrightarrow> sview x' = sview x"
    and ack_ok: "xack X st grp i x = (Inr u, x') \<Longrightarrow> sview x' = view_ack i (sview x)"
    and ack_err: "xack X st grp i x = (Inl e, x') \<Longrightarrow> sview x' = sview x \<or> sview x' = view_ack i (sview x)"
begin

abbreviation slog :: "'x \<Rightarrow> message list" where
  "slog x \<equiv> sv_log (sview x)"

lemma add_log:
  assumes "xadd X st f x = (r, x')"
  shows "map snd (slog x') = map snd (slog x) \<and> isl r \<or> map snd (slog x') = map snd (slog x) @ [f]"
  using assms add_ok [of f x _ x'] add_err [of f x _ x'] by (cases r) auto

end

section \<open>A list of entries\<close>

datatype xfault = XOk | XFail string | XLost string

record evlog =
  el_entries :: "string \<Rightarrow> fields list"
  el_given :: nat
  el_pending :: "nat list"
  el_faults :: "xfault list"

definition el_take :: "evlog \<Rightarrow> xfault \<times> evlog" where
  "el_take x = (case el_faults x of [] \<Rightarrow> (XOk, x) | f # fs \<Rightarrow> (f, x\<lparr>el_faults := fs\<rparr>))"

definition el_run :: "(evlog \<Rightarrow> 'a \<times> evlog) \<Rightarrow> (evlog, string, 'a) action" where
  "el_run f x = (case el_take x of
      (XFail e, x1) \<Rightarrow> (Inl e, x1)
    | (XLost e, x1) \<Rightarrow> (Inl e, snd (f x1))
    | (XOk, x1) \<Rightarrow> (case f x1 of (a, x2) \<Rightarrow> (Inr a, x2)))"

definition el_messages :: "fields list \<Rightarrow> message list" where
  "el_messages fs = map (\<lambda>i. (FormatInt (int i), fs ! i)) [0..<length fs]"

text \<open>What the group was given never exceeds the log, and only given entries are pending.\<close>

definition el_view :: "string \<Rightarrow> evlog \<Rightarrow> stream_view" where
  "el_view st x = (let n = min (el_given x) (length (el_entries x st)) in
     \<lparr>sv_log = el_messages (el_entries x st), sv_given = n,
      sv_pending = map (\<lambda>i. FormatInt (int i)) (filter (\<lambda>i. i < n) (el_pending x))\<rparr>)"

definition el_streams :: "string \<Rightarrow> evlog streams" where
  "el_streams st0 = \<lparr>
     xadd = (\<lambda>st f. el_run (\<lambda>x. ((), x\<lparr>el_entries := (el_entries x)(st := el_entries x st @ [f]),
       el_given := (if st = st0 then min (el_given x) (length (el_entries x st)) else el_given x),
       el_pending := (if st = st0 then filter (\<lambda>i. i < length (el_entries x st)) (el_pending x) else el_pending x)\<rparr>))),
     xgroup_create = (\<lambda>st grp x. case el_take x of
         (XOk, x1) \<Rightarrow> (Inl ''BUSYGROUP Consumer Group name already exists'', x1)
       | (XFail e, x1) \<Rightarrow> (Inl e, x1) | (XLost e, x1) \<Rightarrow> (Inl e, x1)),
     xread_group = (\<lambda>st grp cons cursor n. el_run (\<lambda>x.
       let v = el_view st x in
       if cursor = ''>'' then
         (if view_new n v = [] then None else Some (view_new n v),
          x\<lparr>el_given := sv_given v + length (view_new n v),
            el_pending := filter (\<lambda>i. i < sv_given v) (el_pending x) @ [sv_given v ..< sv_given v + length (view_new n v)]\<rparr>)
       else (Some (view_pending n v), x))),
     xack = (\<lambda>st grp i. el_run (\<lambda>x. ((), x\<lparr>el_pending := filter (\<lambda>j. FormatInt (int j) \<noteq> i) (el_pending x)\<rparr>)))\<rparr>"

lemma el_messages_length [simp]: "length (el_messages fs) = length fs"
  by (simp add: el_messages_def)

lemma el_messages_append: "el_messages (fs @ [f]) = el_messages fs @ [(FormatInt (int (length fs)), f)]"
  by (simp add: el_messages_def nth_append)

lemma el_messages_ids: "map fst (el_messages fs) = map (\<lambda>i. FormatInt (int i)) [0..<length fs]"
  by (simp add: el_messages_def)

lemma el_take_eq: "el_take x = (f, x1) \<Longrightarrow> \<exists>fs. x1 = x\<lparr>el_faults := fs\<rparr>"
  by (cases x) (auto simp: el_take_def split: list.splits)

lemma el_view_faults [simp]: "el_view st (x\<lparr>el_faults := fs\<rparr>) = el_view st x"
  by (simp add: el_view_def)

lemma el_runE:
  assumes "el_run f x = (r, x')"
  obtains (skipped) fs e where "x' = x\<lparr>el_faults := fs\<rparr>" and "r = Inl e"
  | (lost) fs e where "x' = snd (f (x\<lparr>el_faults := fs\<rparr>))" and "r = Inl e"
  | (ran) fs where "x' = snd (f (x\<lparr>el_faults := fs\<rparr>))" and "r = Inr (fst (f (x\<lparr>el_faults := fs\<rparr>)))"
proof -
  obtain flt x1 where tk: "el_take x = (flt, x1)" by fastforce
  from el_take_eq [OF this] obtain fs where "x1 = x\<lparr>el_faults := fs\<rparr>" by blast
  with assms tk show thesis
    by (cases flt; cases "f x1") (auto simp: el_run_def intro: that(1) that(2) [of fs] that(3) [of fs])
qed

lemma el_view_add:
  "el_view st (x\<lparr>el_entries := (el_entries x)(st := el_entries x st @ [f]),
       el_given := min (el_given x) (length (el_entries x st)),
       el_pending := filter (\<lambda>i. i < length (el_entries x st)) (el_pending x)\<rparr>) =
   (el_view st x)\<lparr>sv_log := sv_log (el_view st x) @ [(FormatInt (int (length (el_entries x st))), f)]\<rparr>"
proof -
  have "filter (\<lambda>i. i < min (el_given x) (length (el_entries x st)))
      (filter (\<lambda>i. i < length (el_entries x st)) (el_pending x)) =
    filter (\<lambda>i. i < min (el_given x) (length (el_entries x st))) (el_pending x)"
    by (auto simp: filter_filter intro!: filter_cong)
  then show ?thesis by (simp add: el_view_def Let_def el_messages_append min.absorb1)
qed

lemma el_view_give:
  "el_view st (x\<lparr>el_given := sv_given (el_view st x) + length (view_new n (el_view st x)),
     el_pending := filter (\<lambda>i. i < sv_given (el_view st x)) (el_pending x) @
       [sv_given (el_view st x) ..< sv_given (el_view st x) + length (view_new n (el_view st x))]\<rparr>) =
   view_give n (el_view st x)"
proof -
  define g where "g = min (el_given x) (length (el_entries x st))"
  define ms where "ms = take n (drop g (el_messages (el_entries x st)))"
  have view: "el_view st x = \<lparr>sv_log = el_messages (el_entries x st), sv_given = g,
      sv_pending = map (\<lambda>i. FormatInt (int i)) (filter (\<lambda>i. i < g) (el_pending x))\<rparr>"
    by (simp add: el_view_def g_def Let_def)
  have len: "min (g + length ms) (length (el_entries x st)) = g + length ms"
    by (auto simp: g_def ms_def)
  have "map fst ms = take n (drop g (map (\<lambda>i. FormatInt (int i)) [0..<length (el_entries x st)]))"
    by (simp add: ms_def take_map [symmetric] drop_map [symmetric] el_messages_ids)
  also have "\<dots> = map (\<lambda>i. FormatInt (int i)) (take n [g..<length (el_entries x st)])"
    by (simp add: take_map drop_map)
  also have "take n [g..<length (el_entries x st)] = [g..<g + length ms]"
    by (auto simp: ms_def g_def min_def intro!: nth_equalityI)
  finally have ids: "map fst ms = map (\<lambda>i. FormatInt (int i)) [g..<g + length ms]" .
  have keep: "filter (\<lambda>i. i < g \<and> i < g + length ms) (el_pending x) = filter (\<lambda>i. i < g) (el_pending x)"
    by (auto intro!: filter_cong)
  have all: "filter (\<lambda>i. i < g + length ms) [g..<g + length ms] = [g..<g + length ms]" by (simp add: filter_id_conv)
  show ?thesis
    unfolding view view_new_def view_give_def stream_view.simps ms_def [symmetric] Let_def
    by (simp add: el_view_def Let_def len keep all ids)
qed

lemma el_view_ack:
  "el_view st (x\<lparr>el_pending := filter (\<lambda>j. FormatInt (int j) \<noteq> i) (el_pending x)\<rparr>) = view_ack i (el_view st x)"
proof -
  have "map f (filter P (filter (\<lambda>j. f j \<noteq> i) xs)) = removeAll i (map f (filter P xs))" for f P and xs :: "nat list"
    by (induction xs) auto
  then show ?thesis by (simp add: el_view_def view_ack_def Let_def)
qed

interpretation evlog: stream_group "el_streams st" st grp cons "el_view st" for st grp cons
proof
  show "distinct (map fst (sv_log (el_view st x)))" for x
    by (simp add: el_view_def Let_def el_messages_ids distinct_map inj_on_def)
  show "sv_given (el_view st x) \<le> length (sv_log (el_view st x))" for x
    by (simp add: el_view_def Let_def)
  show "set (sv_pending (el_view st x)) \<subseteq> set (map fst (take (sv_given (el_view st x)) (sv_log (el_view st x))))" for x
    by (auto simp: el_view_def Let_def take_map [symmetric] el_messages_ids) (auto simp: take_map take_upt)
  show "\<exists>i. el_view st x' = (el_view st x)\<lparr>sv_log := sv_log (el_view st x) @ [(i, f)]\<rparr>"
    if "xadd (el_streams st) st f x = (Inr u, x')" for f x u x'
    using that el_view_add [of st "x\<lparr>el_faults := fs\<rparr>" f for fs]
    by (auto simp: el_streams_def elim!: el_runE)
  show "el_view st x' = el_view st x \<or> (\<exists>i. el_view st x' = (el_view st x)\<lparr>sv_log := sv_log (el_view st x) @ [(i, f)]\<rparr>)"
    if "xadd (el_streams st) st f x = (Inl e, x')" for f x e x'
    using that el_view_add [of st "x\<lparr>el_faults := fs\<rparr>" f for fs]
    by (auto simp: el_streams_def elim!: el_runE)
  show "el_view st x' = el_view st x" if "xgroup_create (el_streams st) st grp x = (Inl e, x')" for x e x'
    using that by (auto simp: el_streams_def split: prod.splits xfault.splits dest!: el_take_eq)
  show "el_view st x' = (el_view st x)\<lparr>sv_given := 0, sv_pending := []\<rparr>"
    if "xgroup_create (el_streams st) st grp x = (Inr u, x')" for x u x'
    using that by (auto simp: el_streams_def split: prod.splits xfault.splits)
  show "el_view st x' = view_give n (el_view st x) \<and>
      r = (if view_new n (el_view st x) = [] then None else Some (view_new n (el_view st x)))"
    if "xread_group (el_streams st) st grp cons ''>'' n x = (Inr r, x')" for n x r x'
    using that el_view_give [of st "x\<lparr>el_faults := fs\<rparr>" n for fs]
    by (auto simp: el_streams_def Let_def elim!: el_runE)
  show "el_view st x' = el_view st x \<or> el_view st x' = view_give n (el_view st x)"
    if "xread_group (el_streams st) st grp cons ''>'' n x = (Inl e, x')" for n x e x'
    using that el_view_give [of st "x\<lparr>el_faults := fs\<rparr>" n for fs]
    by (auto simp: el_streams_def Let_def elim!: el_runE)
  show "el_view st x' = el_view st x \<and> r = Some (view_pending n (el_view st x))"
    if "xread_group (el_streams st) st grp cons ''0'' n x = (Inr r, x')" for n x r x'
    using that by (auto simp: el_streams_def Let_def elim!: el_runE)
  show "el_view st x' = el_view st x"
    if "xread_group (el_streams st) st grp cons ''0'' n x = (Inl e, x')" for n x e x'
    using that by (auto simp: el_streams_def Let_def elim!: el_runE)
  show "el_view st x' = view_ack i (el_view st x)" if "xack (el_streams st) st grp i x = (Inr u, x')" for i x u x'
    using that el_view_ack [where st = st and x = "x\<lparr>el_faults := fs\<rparr>" and i = i for fs]
    by (auto simp: el_streams_def elim!: el_runE)
  show "el_view st x' = el_view st x \<or> el_view st x' = view_ack i (el_view st x)"
    if "xack (el_streams st) st grp i x = (Inl e, x')" for i x e x'
    using that el_view_ack [where st = st and x = "x\<lparr>el_faults := fs\<rparr>" and i = i for fs]
    by (auto simp: el_streams_def elim!: el_runE)
qed

lemmas evlog_laws = evlog.stream_group_axioms

end
