(* ===== verification/Outbox.thy ===== *)
theory Outbox
  imports User_Repo Event_Stream
begin

text \<open>
  The outbox relay (\<^verbatim>\<open>services/identity/internal/outbox/relay.go\<close>): it polls the outbox table, appends each
  unpublished row to the stream and then marks it. The text MySQL gives for a JSON value is the
  argument \<open>jt\<close>. Its world is the identity database and the stream server. The fields of an entry are
  listed in the order of the source; readers look them up by name. The second part interleaves any
  number of relays, which may stop at any call, with registrations: first with registrations that run one at a time, for
  which also the order of the stream is known, then with transactions that overlap and commit in any order.
\<close>

section \<open>The relay\<close>

definition Stream :: string where "Stream = ''events:user''"
definition batchSize :: nat where "batchSize = 100"
definition pollInterval :: duration where "pollInterval = Second"

record 'x relay_world =
  rw_db :: idb
  rw_x :: 'x

datatype relay_err = RelayDb db_err | RelayRedis string

definition outbox_fields :: "(json \<Rightarrow> string) \<Rightarrow> outbox_row \<Rightarrow> fields" where
  "outbox_fields jt b =
     [(''outbox_id'', FormatInt (ob_id b)), (''aggregate_type'', ob_aggregate b),
      (''aggregate_id'', ob_aggregate_id b), (''event_type'', ob_event b), (''payload'', jt (ob_payload b))]"

definition unpublished :: "tables \<Rightarrow> outbox_row list" where
  "unpublished T = sort_key ob_id (filter (\<lambda>b. ob_published b = None) (t_outbox T))"

definition mark_published :: "int \<Rightarrow> idb \<Rightarrow> db_err + idb" where
  "mark_published i d = Inr (d\<lparr>db_tables := (db_tables d)\<lparr>t_outbox := map (\<lambda>b.
     if ob_id b = i then b\<lparr>ob_published := Some (db_now d)\<rparr> else b) (t_outbox (db_tables d))\<rparr>\<rparr>)"

definition relay_db :: "(idb, db_err, 'a) action \<Rightarrow> ('x relay_world, relay_err, 'a) action" where
  "relay_db m w = (case m (rw_db w) of
      (Inl e, d) \<Rightarrow> (Inl (RelayDb e), w\<lparr>rw_db := d\<rparr>) | (Inr a, d) \<Rightarrow> (Inr a, w\<lparr>rw_db := d\<rparr>))"

definition relay_redis :: "('x, string, 'a) action \<Rightarrow> ('x relay_world, relay_err, 'a) action" where
  "relay_redis m w = (case m (rw_x w) of
      (Inl e, x) \<Rightarrow> (Inl (RelayRedis e), w\<lparr>rw_x := x\<rparr>) | (Inr a, x) \<Rightarrow> (Inr a, w\<lparr>rw_x := x\<rparr>))"

fun publish_rows ::
  "'x streams \<Rightarrow> (json \<Rightarrow> string) \<Rightarrow> outbox_row list \<Rightarrow> ('x relay_world, relay_err, unit) action" where
  "publish_rows X jt [] = ok ()"
| "publish_rows X jt (b # bs) =
     and_then (relay_redis (xadd X Stream (outbox_fields jt b))) (\<lambda>_.
     and_then (relay_db (exec_stmt (mark_published (ob_id b)))) (\<lambda>_.
     publish_rows X jt bs))"

definition publishBatch :: "'x streams \<Rightarrow> (json \<Rightarrow> string) \<Rightarrow> ('x relay_world, relay_err, unit) action" where
  "publishBatch X jt =
     and_then (relay_db (query (\<lambda>T. Some (take batchSize (unpublished T))))) (publish_rows X jt)"

text \<open>The loop of \<^verbatim>\<open>Run\<close>: ticks until the context is done; an error is logged and the next tick retries.\<close>

datatype relay_signal = Tick | CtxDone

fun relay_Run :: "'x streams \<Rightarrow> (json \<Rightarrow> string) \<Rightarrow> relay_signal list \<Rightarrow> 'x relay_world \<Rightarrow> 'x relay_world" where
  "relay_Run X jt [] w = w"
| "relay_Run X jt (Tick # es) w = relay_Run X jt es (snd (publishBatch X jt w))"
| "relay_Run X jt (CtxDone # es) w = w"

section \<open>Several relays\<close>

text \<open>
  A relay between two calls: it has rows to append, or it has appended one and is about to mark it.
  A step is a registration, one call of one relay, or the end of a batch (an error, a restart).
\<close>

datatype relay_phase = Adding "outbox_row list" | Marking outbox_row "outbox_row list"

type_synonym 'x relays = "'x relay_world \<times> (nat \<Rightarrow> relay_phase)"

inductive relay_step ::
  "'x streams \<Rightarrow> (json \<Rightarrow> string) \<Rightarrow> (string \<Rightarrow> string) \<Rightarrow> 'x relays \<Rightarrow> 'x relays \<Rightarrow> bool"
  for X jt weight where
  signup: "CreateUser weight now ph prof st (rw_db w) = (r, d') \<Longrightarrow>
     relay_step X jt weight (w, q) (w\<lparr>rw_db := d'\<rparr>, q)"
| fetch: "relay_db (query (\<lambda>T. Some (take batchSize (unpublished T)))) w = (r, w') \<Longrightarrow>
     relay_step X jt weight (w, q) (w', q(i := Adding (case r of Inl _ \<Rightarrow> [] | Inr bs \<Rightarrow> bs)))"
| add: "q i = Adding (b # bs) \<Longrightarrow> relay_redis (xadd X Stream (outbox_fields jt b)) w = (r, w') \<Longrightarrow>
     relay_step X jt weight (w, q) (w', q(i := (case r of Inl _ \<Rightarrow> Adding [] | Inr _ \<Rightarrow> Marking b bs)))"
| mark: "q i = Marking b bs \<Longrightarrow> relay_db (exec_stmt (mark_published (ob_id b))) w = (r, w') \<Longrightarrow>
     relay_step X jt weight (w, q) (w', q(i := Adding (case r of Inl _ \<Rightarrow> [] | Inr _ \<Rightarrow> bs)))"
| stop: "relay_step X jt weight (w, q) (w, q(i := Adding []))"

text \<open>A batch of one relay that no one interrupts is a sequence of its steps.\<close>

lemma publish_rows_steps:
  assumes "publish_rows X jt bs w = (r, w')" and "q i = Adding bs"
  shows "(relay_step X jt weight)\<^sup>*\<^sup>* (w, q) (w', q(i := Adding []))"
  using assms
proof (induction bs arbitrary: w q)
  case Nil
  then show ?case by (simp add: ok_def fun_upd_idem)
next
  case (Cons b bs)
  from Cons.prems(1) show ?case unfolding publish_rows.simps
  proof (cases rule: and_thenE)
    case (1 e)
    with Cons.prems(2) have "relay_step X jt weight (w, q) (w', q(i := Adding []))"
      using relay_step.add [of q i b bs X jt w "Inl e" w' weight] by simp
    then show ?thesis by blast
  next
    case (2 u w1)
    have one: "relay_step X jt weight (w, q) (w1, q(i := Marking b bs))"
      using relay_step.add [where q = q and i = i and bs = bs and weight = weight, OF Cons.prems(2) 2(1)] by simp
    from 2(2) show ?thesis
    proof (cases rule: and_thenE)
      case (1 e)
      have "relay_step X jt weight (w1, q(i := Marking b bs)) (w', q(i := Adding []))"
        using relay_step.mark [of "q(i := Marking b bs)" i b bs, OF _ 1(1)] by simp
      with one show ?thesis by (meson rtranclp.rtrancl_into_rtrancl rtranclp.rtrancl_refl)
    next
      case (2 u w2)
      have "relay_step X jt weight (w1, q(i := Marking b bs)) (w2, q(i := Adding bs))"
        using relay_step.mark [of "q(i := Marking b bs)" i b bs, OF _ 2(1)] by simp
      moreover have "(relay_step X jt weight)\<^sup>*\<^sup>* (w2, q(i := Adding bs)) (w', q(i := Adding []))"
        using Cons.IH [OF 2(2), where q = "q(i := Adding bs)"] by (simp only: fun_upd_upd fun_upd_same)
      ultimately show ?thesis using one by (meson converse_rtranclp_into_rtranclp)
    qed
  qed
qed

lemma publishBatch_steps:
  "(relay_step X jt weight)\<^sup>*\<^sup>* (w, q(i := Adding [])) (snd (publishBatch X jt w), q(i := Adding []))"
proof -
  obtain r w' where run: "publishBatch X jt w = (r, w')" by fastforce
  from run [unfolded publishBatch_def] show ?thesis
  proof (cases rule: and_thenE)
    case (1 e)
    with run relay_step.fetch [OF 1(1), of X jt weight "q(i := Adding [])" i] show ?thesis
      by (simp add: r_into_rtranclp)
  next
    case (2 bs w1)
    have "relay_step X jt weight (w, q(i := Adding [])) (w1, q(i := Adding bs))"
      using relay_step.fetch [OF 2(1), of X jt weight "q(i := Adding [])" i] by simp
    moreover have "(relay_step X jt weight)\<^sup>*\<^sup>* (w1, q(i := Adding bs)) (w', q(i := Adding []))"
      using publish_rows_steps [OF 2(2), of "q(i := Adding bs)" i weight] by simp
    ultimately show ?thesis unfolding run snd_conv by (rule converse_rtranclp_into_rtranclp)
  qed
qed

lemma relay_Run_steps:
  "(relay_step X jt weight)\<^sup>*\<^sup>* (w, q(i := Adding [])) (relay_Run X jt es w, q(i := Adding []))"
proof (induction X jt es w rule: relay_Run.induct)
  case (2 X jt es w)
  show ?case unfolding relay_Run.simps by (rule rtranclp_trans [OF publishBatch_steps 2])
qed simp_all

section \<open>What the stream contains\<close>

text \<open>The outbox ids of a list of entries, and the first occurrences of the elements of a list.\<close>

definition entry_id :: "fields \<Rightarrow> string" where
  "entry_id f = (case map_of f ''outbox_id'' of Some i \<Rightarrow> i | None \<Rightarrow> [])"

definition first_seen :: "'a list \<Rightarrow> 'a list" where
  "first_seen xs = rev (remdups (rev xs))"

lemma first_seen_snoc: "first_seen (xs @ [x]) = (if x \<in> set xs then first_seen xs else first_seen xs @ [x])"
  by (simp add: first_seen_def)

lemma set_first_seen [simp]: "set (first_seen xs) = set xs"
  by (simp add: first_seen_def)

lemma entry_id_outbox [simp]: "entry_id (outbox_fields jt b) = FormatInt (ob_id b)"
  by (simp add: entry_id_def outbox_fields_def)

text \<open>
  The invariant of table and stream: every entry is a row; a published row is in the stream; a row is
  in the stream only after all older ones; first occurrences come in the order of the table.
\<close>

definition delivered :: "outbox_row \<Rightarrow> fields list \<Rightarrow> bool" where
  "delivered b fs \<longleftrightarrow> FormatInt (ob_id b) \<in> entry_id ` set fs"

definition relay_inv :: "(json \<Rightarrow> string) \<Rightarrow> idb \<Rightarrow> fields list \<Rightarrow> bool" where
  "relay_inv jt d fs \<longleftrightarrow> db_wf d \<and>
     set fs \<subseteq> outbox_fields jt ` set (t_outbox (db_tables d)) \<and>
     (\<forall>b \<in> set (t_outbox (db_tables d)). ob_published b \<noteq> None \<longrightarrow> delivered b fs) \<and>
     (\<forall>b \<in> set (t_outbox (db_tables d)). \<forall>c \<in> set (t_outbox (db_tables d)).
        ob_id c < ob_id b \<longrightarrow> delivered b fs \<longrightarrow> delivered c fs) \<and>
     (\<exists>ids. first_seen (map entry_id fs) = map FormatInt ids \<and> sorted_wrt (<) ids)"

text \<open>What a relay holds: rows of the table in order, with all their elders delivered or before them.\<close>

definition batch_ok :: "(json \<Rightarrow> string) \<Rightarrow> idb \<Rightarrow> fields list \<Rightarrow> outbox_row list \<Rightarrow> bool" where
  "batch_ok jt d fs bs \<longleftrightarrow> sorted_wrt (<) (map ob_id bs) \<and>
     outbox_fields jt ` set bs \<subseteq> outbox_fields jt ` set (t_outbox (db_tables d)) \<and>
     (\<forall>b \<in> set bs. \<forall>c \<in> set (t_outbox (db_tables d)). ob_id c < ob_id b \<longrightarrow>
        delivered c fs \<or> ob_id c \<in> ob_id ` set bs)"

fun phase_ok :: "(json \<Rightarrow> string) \<Rightarrow> idb \<Rightarrow> fields list \<Rightarrow> relay_phase \<Rightarrow> bool" where
  "phase_ok jt d fs (Adding bs) = batch_ok jt d fs bs"
| "phase_ok jt d fs (Marking b bs) = (batch_ok jt d fs bs \<and> delivered b fs)"

lemma fields_id: "outbox_fields jt b = outbox_fields jt c \<Longrightarrow> ob_id b = ob_id c"
  by (simp add: outbox_fields_def)

lemma batch_ok_Nil [simp]: "batch_ok jt d fs []"
  by (simp add: batch_ok_def)

text \<open>Appending a row all of whose elders are in the stream.\<close>

lemma relay_inv_append:
  assumes inv: "relay_inv jt d fs" and mem: "b \<in> set (t_outbox (db_tables d))"
    and elders: "\<And>c. c \<in> set (t_outbox (db_tables d)) \<Longrightarrow> ob_id c < ob_id b \<Longrightarrow> delivered c fs"
  shows "relay_inv jt d (fs @ [outbox_fields jt b])"
proof -
  let ?T = "set (t_outbox (db_tables d))"
  from inv have wf: "db_wf d" and rows: "set fs \<subseteq> outbox_fields jt ` ?T"
    and pub: "\<forall>b \<in> ?T. ob_published b \<noteq> None \<longrightarrow> delivered b fs"
    and closed: "\<forall>b \<in> ?T. \<forall>c \<in> ?T. ob_id c < ob_id b \<longrightarrow> delivered b fs \<longrightarrow> delivered c fs"
    unfolding relay_inv_def by blast+
  from inv obtain ids where ids: "first_seen (map entry_id fs) = map FormatInt ids" "sorted_wrt (<) ids"
    unfolding relay_inv_def by blast
  have grow: "delivered c (fs @ [outbox_fields jt b]) \<longleftrightarrow> delivered c fs \<or> ob_id c = ob_id b" for c
    by (auto simp: delivered_def)
  have younger: "i < ob_id b" if i: "i \<in> set ids" and new: "\<not> delivered b fs" for i
  proof (rule ccontr)
    assume "\<not> i < ob_id b"
    have "FormatInt i \<in> set (first_seen (map entry_id fs))" unfolding ids(1) using i by simp
    then obtain f where "f \<in> set fs" "FormatInt i = entry_id f" by auto
    then obtain c where c: "c \<in> ?T" "ob_id c = i" "delivered c fs"
      using rows by (fastforce simp: delivered_def)
    with new have "i \<noteq> ob_id b" by (auto simp: delivered_def)
    with \<open>\<not> i < ob_id b\<close> c(2) have "ob_id b < ob_id c" by simp
    with closed mem c(1,3) new show False by blast
  qed
  have "\<exists>ids. first_seen (map entry_id (fs @ [outbox_fields jt b])) = map FormatInt ids \<and> sorted_wrt (<) ids"
  proof (cases "delivered b fs")
    case True
    then show ?thesis using ids by (auto simp: first_seen_snoc delivered_def)
  next
    case False
    then show ?thesis using ids younger
      by (intro exI [of _ "ids @ [ob_id b]"]) (auto simp: first_seen_snoc delivered_def sorted_wrt_append)
  qed
  moreover have "\<forall>e \<in> ?T. \<forall>c \<in> ?T. ob_id c < ob_id e \<longrightarrow>
      delivered e (fs @ [outbox_fields jt b]) \<longrightarrow> delivered c (fs @ [outbox_fields jt b])"
    using closed elders unfolding grow by metis
  moreover have "\<forall>c \<in> ?T. ob_published c \<noteq> None \<longrightarrow> delivered c (fs @ [outbox_fields jt b])"
    using pub unfolding grow by blast
  moreover have "set (fs @ [outbox_fields jt b]) \<subseteq> outbox_fields jt ` ?T" using rows mem by simp
  ultimately show ?thesis using wf unfolding relay_inv_def by (intro conjI)
qed

text \<open>The table only grows at its end; a row keeps everything but its mark.\<close>

definition outbox_grows :: "(json \<Rightarrow> string) \<Rightarrow> idb \<Rightarrow> idb \<Rightarrow> bool" where
  "outbox_grows jt d d' \<longleftrightarrow>
     outbox_fields jt ` set (t_outbox (db_tables d)) \<subseteq> outbox_fields jt ` set (t_outbox (db_tables d')) \<and>
     (\<forall>c \<in> set (t_outbox (db_tables d')). (\<exists>b \<in> set (t_outbox (db_tables d)). ob_id b = ob_id c) \<or>
        (\<forall>b \<in> set (t_outbox (db_tables d)). ob_id b < ob_id c))"

lemma delivered_id: "ob_id b = ob_id c \<Longrightarrow> delivered b fs \<longleftrightarrow> delivered c fs"
  by (simp add: delivered_def)

lemma delivered_mono: "delivered b fs \<Longrightarrow> set fs \<subseteq> set gs \<Longrightarrow> delivered b gs"
  by (auto simp: delivered_def)

lemma batch_ok_grow:
  assumes "batch_ok jt d fs bs" and "outbox_grows jt d d'" and "set fs \<subseteq> set gs"
  shows "batch_ok jt d' gs bs"
proof -
  have "delivered c gs \<or> ob_id c \<in> ob_id ` set bs"
    if b: "b \<in> set bs" and c: "c \<in> set (t_outbox (db_tables d'))" and less: "ob_id c < ob_id b" for b c
  proof -
    from assms(1) b obtain e where e: "e \<in> set (t_outbox (db_tables d))" "ob_id e = ob_id b"
      unfolding batch_ok_def by (metis (no_types, lifting) fields_id image_eqI image_iff subsetD)
    have "\<exists>c' \<in> set (t_outbox (db_tables d)). ob_id c' = ob_id c"
      using assms(2) c e less unfolding outbox_grows_def by fastforce
    then obtain c' where c': "c' \<in> set (t_outbox (db_tables d))" "ob_id c' = ob_id c" by blast
    with less have "ob_id c' < ob_id b" by simp
    with assms(1) b c'(1) have "delivered c' fs \<or> ob_id c' \<in> ob_id ` set bs"
      unfolding batch_ok_def by blast
    then show ?thesis
    proof
      assume "delivered c' fs"
      then have "delivered c gs" using delivered_mono [OF _ assms(3)] delivered_id [OF c'(2)] by blast
      then show ?thesis ..
    qed (simp add: c'(2))
  qed
  moreover have "outbox_fields jt ` set bs \<subseteq> outbox_fields jt ` set (t_outbox (db_tables d))"
    using assms(1) by (simp add: batch_ok_def)
  then have "outbox_fields jt ` set bs \<subseteq> outbox_fields jt ` set (t_outbox (db_tables d'))"
    by (rule subset_trans) (use assms(2) in \<open>simp add: outbox_grows_def\<close>)
  ultimately show ?thesis using assms(1) unfolding batch_ok_def by blast
qed

lemma phase_ok_grow:
  "phase_ok jt d fs p \<Longrightarrow> outbox_grows jt d d' \<Longrightarrow> set fs \<subseteq> set gs \<Longrightarrow> phase_ok jt d' gs p"
  by (cases p) (auto intro: batch_ok_grow delivered_mono)

lemma outbox_grows_same [simp]: "t_outbox (db_tables d') = t_outbox (db_tables d) \<Longrightarrow> outbox_grows jt d d'"
  by (auto simp: outbox_grows_def)

text \<open>A registration.\<close>

lemma CreateUser_outbox:
  assumes "CreateUser weight now ph prof st d = (r, d')" and "relay_inv jt d fs"
  shows "relay_inv jt d' fs \<and> outbox_grows jt d d'"
  using assms(1)
proof (cases rule: CreateUserE)
  case none
  then have "db_wf d'" using assms(2) db_wf_grow unfolding relay_inv_def by blast
  with none assms(2) show ?thesis by (simp add: relay_inv_def)
next
  case (all fl)
  let ?T = "t_outbox (db_tables d)"
  from assms(2) have wf: "db_wf d" by (simp add: relay_inv_def)
  then have less: "ob_id b < db_next_outbox d" if "b \<in> set ?T" for b
    using that by (simp add: db_wf_def Let_def)
  obtain e where T': "t_outbox (db_tables d') = ?T @ [e]" and e: "ob_id e = db_next_outbox d" "ob_published e = None"
    by (simp add: all(1) add_account_def Let_def)
  have "db_wf d'" unfolding all(1) by (rule db_wf_create [OF wf])
  moreover have fresh: "\<not> delivered e fs"
  proof
    assume "delivered e fs"
    then obtain f where "f \<in> set fs" "entry_id f = FormatInt (db_next_outbox d)"
      using e by (auto simp: delivered_def)
    moreover have "set fs \<subseteq> outbox_fields jt ` set ?T" using assms(2) by (simp add: relay_inv_def)
    ultimately obtain b where "b \<in> set ?T" "ob_id b = db_next_outbox d" by (fastforce simp: image_iff)
    with less show False by fastforce
  qed
  have "ob_id c < ob_id b \<Longrightarrow> delivered b fs \<Longrightarrow> delivered c fs" if "b \<in> set (?T @ [e])" "c \<in> set (?T @ [e])" for b c
    using that assms(2) less e fresh unfolding relay_inv_def by fastforce
  ultimately have "relay_inv jt d' fs"
    using assms(2) e unfolding relay_inv_def T' by auto
  moreover have "outbox_grows jt d d'" unfolding outbox_grows_def T' using less e by auto
  ultimately show ?thesis ..
qed

text \<open>A mark on a delivered row, and the batch that a relay reads.\<close>

lemma mark_outbox:
  assumes "mark_published i d = Inr d'"
  shows "t_outbox (db_tables d') = map (\<lambda>b. if ob_id b = i then b\<lparr>ob_published := Some (db_now d)\<rparr> else b) (t_outbox (db_tables d))"
    and "d' = d\<lparr>db_tables := (db_tables d)\<lparr>t_outbox := t_outbox (db_tables d')\<rparr>\<rparr>"
  using assms by (auto simp: mark_published_def)

lemma db_wf_outbox:
  assumes "db_wf d" and "map ob_id ob = map ob_id (t_outbox (db_tables d))"
    and "\<And>r b. b \<in> set (t_outbox (db_tables d)) \<Longrightarrow> announces r b \<Longrightarrow> \<exists>c \<in> set ob. announces r c"
  shows "db_wf (d\<lparr>db_tables := (db_tables d)\<lparr>t_outbox := ob\<rparr>\<rparr>)"
proof -
  have "ob_id ` set ob = ob_id ` set (t_outbox (db_tables d))" using assms(2) by (metis set_map)
  then have "\<forall>b \<in> set ob. ob_id b < db_next_outbox d"
    using assms(1) unfolding db_wf_def Let_def by (metis (no_types, lifting) image_iff)
  then show ?thesis using assms unfolding db_wf_def Let_def by (simp add: has_user_def) blast
qed

lemma mark_inv:
  assumes "mark_published (ob_id b) d = Inr d'" and "relay_inv jt d fs" and "delivered b fs"
  shows "relay_inv jt d' fs \<and> outbox_grows jt d d'"
proof -
  let ?f = "\<lambda>c. if ob_id c = ob_id b then c\<lparr>ob_published := Some (db_now d)\<rparr> else c"
  note T' = mark_outbox(1) [OF assms(1)]
  have id: "ob_id (?f c) = ob_id c" and fields: "outbox_fields jt (?f c) = outbox_fields jt c"
    and ann: "announces r (?f c) = announces r c" and same: "delivered (?f c) fs = delivered c fs" for c r
    by (simp_all add: outbox_fields_def announces_def delivered_def)
  have pub: "delivered c fs" if "ob_published (?f c) \<noteq> None" "ob_published c \<noteq> None \<Longrightarrow> delivered c fs" for c
    using that assms(3) delivered_id [of c b] by (cases "ob_id c = ob_id b") auto
  have "db_wf (d\<lparr>db_tables := (db_tables d)\<lparr>t_outbox := t_outbox (db_tables d')\<rparr>\<rparr>)"
  proof (rule db_wf_outbox)
    show "db_wf d" using assms(2) by (simp add: relay_inv_def)
    show "map ob_id (t_outbox (db_tables d')) = map ob_id (t_outbox (db_tables d))" by (simp add: T' id)
    show "\<exists>c \<in> set (t_outbox (db_tables d')). announces r c"
      if "x \<in> set (t_outbox (db_tables d))" "announces r x" for r x
    proof (rule bexI)
      show "announces r (?f x)" using that(2) by (simp only: ann)
      show "?f x \<in> set (t_outbox (db_tables d'))" unfolding T' set_map using that(1) by (rule imageI)
    qed
  qed
  then have "db_wf d'" unfolding mark_outbox(2) [OF assms(1), symmetric] .
  moreover have img: "outbox_fields jt ` set (t_outbox (db_tables d')) = outbox_fields jt ` set (t_outbox (db_tables d))"
    unfolding T' set_map image_image fields ..
  moreover have "\<forall>c \<in> set (t_outbox (db_tables d')). ob_published c \<noteq> None \<longrightarrow> delivered c fs"
    using assms(2) pub unfolding T' set_map ball_simps(9) same relay_inv_def by blast
  moreover have "\<forall>e \<in> set (t_outbox (db_tables d')). \<forall>c \<in> set (t_outbox (db_tables d')).
      ob_id c < ob_id e \<longrightarrow> delivered e fs \<longrightarrow> delivered c fs"
    using assms(2) unfolding T' set_map ball_simps(9) same id relay_inv_def by blast
  ultimately have "relay_inv jt d' fs" using assms(2) unfolding relay_inv_def by (intro conjI) simp_all
  moreover have "outbox_grows jt d d'" unfolding outbox_grows_def img
    unfolding T' set_map ball_simps(9) id by blast
  ultimately show ?thesis ..
qed

lemma unpublished_sorted: "db_wf d \<Longrightarrow> unpublished (db_tables d) = filter (\<lambda>b. ob_published b = None) (t_outbox (db_tables d))"
proof -
  assume "db_wf d"
  then have "sorted (map ob_id (t_outbox (db_tables d)))"
    by (simp add: db_wf_def Let_def strict_sorted_imp_sorted)
  then have "sorted (map ob_id (filter (\<lambda>b. ob_published b = None) (t_outbox (db_tables d))))"
    by (rule sorted_filter)
  then show ?thesis unfolding unpublished_def by (rule sort_key_id_if_sorted)
qed

lemma sorted_wrt_filter_map: "sorted_wrt R (map f xs) \<Longrightarrow> sorted_wrt R (map f (filter P xs))"
  by (induction xs) auto

lemma fetch_ok:
  assumes "relay_inv jt d fs"
  shows "batch_ok jt d fs (take n (unpublished (db_tables d)))"
proof -
  let ?T = "t_outbox (db_tables d)" and ?U = "unpublished (db_tables d)"
  have wf: "db_wf d" using assms by (simp add: relay_inv_def)
  note U = unpublished_sorted [OF wf]
  have srt: "sorted_wrt (<) (map ob_id ?U)" unfolding U
    using wf by (intro sorted_wrt_filter_map) (simp add: db_wf_def Let_def)
  have old: "delivered c fs \<or> ob_id c \<in> ob_id ` set (take n ?U)"
    if b: "b \<in> set (take n ?U)" and c: "c \<in> set ?T" "ob_id c < ob_id b" for b c
  proof (cases "ob_published c")
    case None
    with c(1) have "c \<in> set ?U" by (simp add: U)
    moreover have "c \<notin> set (drop n ?U)"
    proof
      assume "c \<in> set (drop n ?U)"
      have "sorted_wrt (<) (map ob_id (take n ?U @ drop n ?U))" using srt by simp
      then have "\<forall>x \<in> set (take n ?U). \<forall>y \<in> set (drop n ?U). ob_id x < ob_id y"
        unfolding map_append sorted_wrt_append by simp
      with b \<open>c \<in> set (drop n ?U)\<close> have "ob_id b < ob_id c" by blast
      with c(2) show False by simp
    qed
    ultimately have "c \<in> set (take n ?U)" by (metis Un_iff append_take_drop_id set_append)
    then show ?thesis by blast
  next
    case (Some t)
    with assms c(1) show ?thesis by (simp add: relay_inv_def)
  qed
  have "set (take n ?U) \<subseteq> set ?T" using set_take_subset [of n ?U] by (auto simp: U)
  moreover have "sorted_wrt (<) (map ob_id (take n ?U))"
    using srt by (metis sorted_wrt_take take_map)
  ultimately show ?thesis using old unfolding batch_ok_def by blast
qed

text \<open>The head of a batch has all its elders in the stream.\<close>

lemma batch_head:
  assumes "batch_ok jt d fs (b # bs)" and "c \<in> set (t_outbox (db_tables d))" and "ob_id c < ob_id b"
  shows "delivered c fs"
  using assms unfolding batch_ok_def by fastforce

lemma batch_tail:
  assumes ok: "batch_ok jt d fs (b # bs)" and new: "delivered b gs" and sub: "set fs \<subseteq> set gs"
  shows "batch_ok jt d gs bs"
proof -
  have "delivered c gs \<or> ob_id c \<in> ob_id ` set bs"
    if "e \<in> set bs" "c \<in> set (t_outbox (db_tables d))" "ob_id c < ob_id e" for e c
  proof -
    from ok that have "delivered c fs \<or> ob_id c = ob_id b \<or> ob_id c \<in> ob_id ` set bs"
      unfolding batch_ok_def by fastforce
    then show ?thesis using delivered_mono [OF _ sub] new delivered_id [of c b] by blast
  qed
  with ok show ?thesis unfolding batch_ok_def by simp
qed

section \<open>Delivery\<close>

definition relays_inv :: "(json \<Rightarrow> string) \<Rightarrow> ('x \<Rightarrow> stream_view) \<Rightarrow> 'x relays \<Rightarrow> bool" where
  "relays_inv jt sview c \<longleftrightarrow> (let d = rw_db (fst c); fs = map snd (sv_log (sview (rw_x (fst c)))) in
     relay_inv jt d fs \<and> (\<forall>i. phase_ok jt d fs (snd c i)))"

lemma relays_inv_step:
  assumes "relays_inv jt sview (w, q)"
    and "relay_inv jt (rw_db w') (map snd (sv_log (sview (rw_x w'))))"
    and "outbox_grows jt (rw_db w) (rw_db w')"
    and "set (map snd (sv_log (sview (rw_x w)))) \<subseteq> set (map snd (sv_log (sview (rw_x w'))))"
    and "phase_ok jt (rw_db w') (map snd (sv_log (sview (rw_x w')))) p"
  shows "relays_inv jt sview (w', q(i := p))"
  using assms phase_ok_grow [OF _ assms(3,4)] unfolding relays_inv_def Let_def by simp

lemma relay_dbE:
  assumes "relay_db m w = (r, w')"
  obtains q d where "m (rw_db w) = (q, d)" and "w' = w\<lparr>rw_db := d\<rparr>" and "isl r = isl q"
    and "\<forall>a. r = Inr a \<longrightarrow> q = Inr a"
  using assms by (auto simp: relay_db_def split: prod.splits sum.splits)

lemma relay_redisE:
  assumes "relay_redis m w = (r, w')"
  obtains q x where "m (rw_x w) = (q, x)" and "w' = w\<lparr>rw_x := x\<rparr>" and "isl r = isl q"
  using assms by (auto simp: relay_redis_def split: prod.splits sum.splits)

lemma phase_ok_Nil [simp]: "phase_ok jt d fs (Adding [])"
  by simp

text \<open>What each call of a relay keeps.\<close>

lemma relay_fetch_inv:
  assumes "relays_inv jt sview (w, q)"
    and "relay_db (query (\<lambda>T. Some (take batchSize (unpublished T)))) w = (r, w')"
  shows "relays_inv jt sview (w', q(i := Adding (case r of Inl _ \<Rightarrow> [] | Inr bs \<Rightarrow> bs)))"
proof -
  from assms(2) obtain p d where run: "query (\<lambda>T. Some (take batchSize (unpublished T))) (rw_db w) = (p, d)"
    and w': "w' = w\<lparr>rw_db := d\<rparr>" and r: "\<forall>a. r = Inr a \<longrightarrow> p = Inr a" by (rule relay_dbE)
  from run obtain fl where d: "d = rw_db w\<lparr>db_faults := fl\<rparr>"
    and p: "p = Inr (take batchSize (unpublished (db_tables (rw_db w)))) \<or> isl p"
    by (rule queryE) auto
  let ?fs = "map snd (sv_log (sview (rw_x w)))"
  have inv: "relay_inv jt (rw_db w) ?fs" using assms(1) by (simp add: relays_inv_def Let_def)
  then have inv': "relay_inv jt d ?fs" by (simp add: d relay_inv_def)
  have "phase_ok jt d ?fs (Adding (case r of Inl _ \<Rightarrow> [] | Inr bs \<Rightarrow> bs))"
    using fetch_ok [OF inv', of batchSize] p r by (auto simp: d split: sum.splits)
  with inv' show ?thesis
    by (intro relays_inv_step [of jt sview w q]) (use assms(1) w' d in auto)
qed

lemma relay_add_inv:
  assumes lib: "stream_group X Stream grp cons sview" and "relays_inv jt sview (w, q)"
    and "q i = Adding (b # bs)" and "relay_redis (xadd X Stream (outbox_fields jt b)) w = (r, w')"
  shows "relays_inv jt sview (w', q(i := (case r of Inl _ \<Rightarrow> Adding [] | Inr _ \<Rightarrow> Marking b bs)))"
proof -
  from assms(4) obtain p x where run: "xadd X Stream (outbox_fields jt b) (rw_x w) = (p, x)"
    and w': "w' = w\<lparr>rw_x := x\<rparr>" and r: "isl r = isl p" by (rule relay_redisE)
  let ?fs = "map snd (sv_log (sview (rw_x w)))" and ?gs = "map snd (sv_log (sview x))"
  have inv: "relay_inv jt (rw_db w) ?fs" and ph: "batch_ok jt (rw_db w) ?fs (b # bs)"
    using assms(2,3) by (simp_all add: relays_inv_def Let_def) (metis phase_ok.simps(1))
  from ph obtain b' where b': "b' \<in> set (t_outbox (db_tables (rw_db w)))" "outbox_fields jt b' = outbox_fields jt b"
    unfolding batch_ok_def by auto
  have app: "relay_inv jt (rw_db w) (?fs @ [outbox_fields jt b])"
    using relay_inv_append [OF inv b'(1)] batch_head [OF ph] b'(2) fields_id [OF b'(2)] by simp
  from stream_group.add_log [OF lib run] r
  have log: "?gs = ?fs \<and> isl r \<or> ?gs = ?fs @ [outbox_fields jt b]" by simp
  have sub: "set ?fs \<subseteq> set ?gs" using log by (elim disjE conjE) (simp_all only: set_append order_refl Un_upper1)
  have "relay_inv jt (rw_db w) ?gs" using log inv app by metis
  moreover have "phase_ok jt (rw_db w) ?gs (case r of Inl _ \<Rightarrow> Adding [] | Inr _ \<Rightarrow> Marking b bs)"
  proof (cases r)
    case (Inr u)
    with log have gs: "?gs = ?fs @ [outbox_fields jt b]" by simp
    have del: "delivered b ?gs" unfolding gs by (simp add: delivered_def)
    with batch_tail [OF ph del sub] Inr show ?thesis by simp
  qed simp
  ultimately show ?thesis
    by (intro relays_inv_step [of jt sview w q]) (use assms(2) w' sub in auto)
qed

lemma relay_mark_inv:
  assumes "relays_inv jt sview (w, q)"
    and "q i = Marking b bs" and "relay_db (exec_stmt (mark_published (ob_id b))) w = (r, w')"
  shows "relays_inv jt sview (w', q(i := Adding (case r of Inl _ \<Rightarrow> [] | Inr _ \<Rightarrow> bs)))"
proof -
  from assms(3) obtain p d where run: "exec_stmt (mark_published (ob_id b)) (rw_db w) = (p, d)"
    and w': "w' = w\<lparr>rw_db := d\<rparr>" and r: "isl r = isl p" by (rule relay_dbE)
  let ?fs = "map snd (sv_log (sview (rw_x w)))"
  have inv: "relay_inv jt (rw_db w) ?fs" and ph: "phase_ok jt (rw_db w) ?fs (Marking b bs)"
    using assms(1,2) by (simp_all add: relays_inv_def Let_def) (metis phase_ok.simps(2))+
  have inv': "relay_inv jt (rw_db w\<lparr>db_faults := fl\<rparr>) ?fs" for fl using inv by (simp add: relay_inv_def)
  from run have step: "relay_inv jt d ?fs \<and> outbox_grows jt (rw_db w) d"
  proof (cases rule: exec_stmtE)
    case (unchanged e fl)
    then show ?thesis using inv' by simp
  next
    case (ran fl)
    with mark_inv [OF ran(1) inv'] ph show ?thesis by (simp add: outbox_grows_def)
  qed
  have "phase_ok jt d ?fs (Adding (case r of Inl _ \<Rightarrow> [] | Inr _ \<Rightarrow> bs))"
    using ph batch_ok_grow [of jt "rw_db w" ?fs bs d ?fs] step by (auto split: sum.splits)
  with step show ?thesis
    by (intro relays_inv_step [of jt sview w q]) (use assms(1) w' in auto)
qed

lemma relay_step_inv:
  assumes lib: "stream_group X Stream grp cons sview"
    and "relay_step X jt weight c c'" and "relays_inv jt sview c"
  shows "relays_inv jt sview c'"
  using assms(2,3)
proof (cases rule: relay_step.cases)
  case (signup now ph prof st w r d' q)
  let ?fs = "map snd (sv_log (sview (rw_x w)))"
  have inv: "relay_inv jt (rw_db w) ?fs" and ph: "\<forall>i. phase_ok jt (rw_db w) ?fs (q i)"
    using assms(3) signup(1) by (simp_all add: relays_inv_def Let_def)
  note step = CreateUser_outbox [OF signup(3) inv]
  have "phase_ok jt d' ?fs (q i)" for i
    by (rule phase_ok_grow [OF ph [rule_format]]) (use step in auto)
  with step show ?thesis unfolding signup(2) by (simp add: relays_inv_def)
next
  case (fetch w r w' q i)
  then show ?thesis using assms(3) relay_fetch_inv by blast
next
  case (add q i b bs w r w')
  then show ?thesis using assms(3) relay_add_inv [OF lib] by blast
next
  case (mark q i b bs w r w')
  then show ?thesis using assms(3) relay_mark_inv by blast
next
  case (stop w q i)
  then show ?thesis using assms(3) by (auto simp: relays_inv_def Let_def)
qed

lemma relay_steps_inv:
  assumes "stream_group X Stream grp cons sview"
    and "(relay_step X jt weight)\<^sup>*\<^sup>* c c'" and "relays_inv jt sview c"
  shows "relays_inv jt sview c'"
  using assms(2,3) by (induction rule: rtranclp_induct) (auto intro: relay_step_inv [OF assms(1)])

text \<open>
  When registrations run one at a time, the ids of outbox rows follow the commits; then a row is in the stream only if all older
  rows are, and disregarding repetitions entries appear in the order of the ids. With overlapping transactions neither holds: a
  row can be committed, read and appended while one with a smaller id is not committed yet.
\<close>

theorem outbox_order:
  assumes "stream_group X Stream grp cons sview"
    and "relay_inv jt (rw_db w) (map snd (sv_log (sview (rw_x w))))"
    and "(relay_step X jt weight)\<^sup>*\<^sup>* (w, \<lambda>_. Adding []) (w', q)"
  shows "let T = t_outbox (db_tables (rw_db w')); fs = map snd (sv_log (sview (rw_x w'))) in
     (\<forall>b \<in> set T. \<forall>c \<in> set T. ob_id c < ob_id b \<longrightarrow> delivered b fs \<longrightarrow> delivered c fs) \<and>
     (\<exists>ids. first_seen (map entry_id fs) = map FormatInt ids \<and> sorted_wrt (<) ids)"
proof -
  have "relays_inv jt sview (w, \<lambda>_. Adding [])" using assms(2) by (simp add: relays_inv_def)
  from relay_steps_inv [OF assms(1,3) this] show ?thesis
    unfolding relays_inv_def Let_def fst_conv relay_inv_def by (elim conjE) (intro conjI)
qed

section \<open>Overlapping transactions\<close>

text \<open>
  The insertion of an outbox row takes its id from the counter of the table at once, but others see the row only when its
  transaction commits. The third component holds the rows of transactions that are open. A commit makes the row visible, at its
  place in the order of ids, and does anything to the other tables; a rollback drops it, and its id is never used. The relays and
  registrations without overlap go on as before.
\<close>

type_synonym 'x outbox_conf = "'x relay_world \<times> (nat \<Rightarrow> relay_phase) \<times> outbox_row list"

inductive outbox_step ::
  "'x streams \<Rightarrow> (json \<Rightarrow> string) \<Rightarrow> (string \<Rightarrow> string) \<Rightarrow> 'x outbox_conf \<Rightarrow> 'x outbox_conf \<Rightarrow> bool"
  for X jt weight where
  call: "relay_step X jt weight (w, q) (w', q') \<Longrightarrow> outbox_step X jt weight (w, q, opn) (w', q', opn)"
| inserts: "insert_outbox agg payload (rw_db w) = Inr d \<Longrightarrow> outbox_step X jt weight (w, q, opn)
     (w\<lparr>rw_db := (rw_db w)\<lparr>db_next_outbox := db_next_outbox d\<rparr>\<rparr>, q, last (t_outbox (db_tables d)) # opn)"
| commits: "b \<in> set opn \<Longrightarrow> t_outbox T = insort_key ob_id b (t_outbox (db_tables (rw_db w))) \<Longrightarrow>
     outbox_step X jt weight (w, q, opn) (w\<lparr>rw_db := (rw_db w)\<lparr>db_tables := T\<rparr>\<rparr>, q, removeAll b opn)"
| rollback: "outbox_step X jt weight (w, q, opn) (w, q, removeAll b opn)"

lemma relay_outbox_steps:
  assumes "(relay_step X jt weight)\<^sup>*\<^sup>* c c'"
  shows "(outbox_step X jt weight)\<^sup>*\<^sup>* (fst c, snd c, opn) (fst c', snd c', opn)"
  using assms
proof (induction rule: rtranclp_induct)
  case (step c1 c2)
  have "outbox_step X jt weight (fst c1, snd c1, opn) (fst c2, snd c2, opn)"
    using step.hyps(2) by (intro outbox_step.call) simp
  with step.IH show ?case by (rule rtranclp.rtrancl_into_rtrancl)
qed simp

definition tx_inv :: "(json \<Rightarrow> string) \<Rightarrow> idb \<Rightarrow> fields list \<Rightarrow> outbox_row list \<Rightarrow> bool" where
  "tx_inv jt d fs opn \<longleftrightarrow> (let T = t_outbox (db_tables d) in
     distinct (map ob_id (T @ opn)) \<and> (\<forall>b \<in> set (T @ opn). ob_id b < db_next_outbox d) \<and>
     (\<forall>b \<in> set opn. ob_published b = None) \<and> set fs \<subseteq> outbox_fields jt ` set T \<and>
     (\<forall>b \<in> set T. ob_published b \<noteq> None \<longrightarrow> outbox_fields jt b \<in> set fs))"

fun holds_rows :: "(json \<Rightarrow> string) \<Rightarrow> idb \<Rightarrow> fields list \<Rightarrow> relay_phase \<Rightarrow> bool" where
  "holds_rows jt d fs (Adding bs) = (outbox_fields jt ` set bs \<subseteq> outbox_fields jt ` set (t_outbox (db_tables d)))"
| "holds_rows jt d fs (Marking b bs) =
     (outbox_fields jt ` set bs \<subseteq> outbox_fields jt ` set (t_outbox (db_tables d)) \<and> outbox_fields jt b \<in> set fs)"

lemma holds_rows_mono:
  assumes "holds_rows jt d fs p" and "outbox_fields jt ` set (t_outbox (db_tables d)) \<subseteq> outbox_fields jt ` set (t_outbox (db_tables d'))"
    and "set fs \<subseteq> set gs"
  shows "holds_rows jt d' gs p"
  using assms by (cases p) (simp_all, (meson order_trans subsetD)+)

definition outbox_inv :: "(json \<Rightarrow> string) \<Rightarrow> ('x \<Rightarrow> stream_view) \<Rightarrow> 'x outbox_conf \<Rightarrow> bool" where
  "outbox_inv jt sview c \<longleftrightarrow> (case c of (w, q, opn) \<Rightarrow> let d = rw_db w; fs = map snd (sv_log (sview (rw_x w))) in
     tx_inv jt d fs opn \<and> (\<forall>i. holds_rows jt d fs (q i)))"

lemma outbox_inv_update:
  assumes "outbox_inv jt sview (w, q, opn)" and "tx_inv jt (rw_db w') (map snd (sv_log (sview (rw_x w')))) opn'"
    and "outbox_fields jt ` set (t_outbox (db_tables (rw_db w))) \<subseteq> outbox_fields jt ` set (t_outbox (db_tables (rw_db w')))"
    and "set (map snd (sv_log (sview (rw_x w)))) \<subseteq> set (map snd (sv_log (sview (rw_x w'))))"
    and "holds_rows jt (rw_db w') (map snd (sv_log (sview (rw_x w')))) p"
  shows "outbox_inv jt sview (w', q(i := p), opn')"
proof -
  have "holds_rows jt (rw_db w') (map snd (sv_log (sview (rw_x w')))) (q j)" for j
    using assms(1) by (intro holds_rows_mono [OF _ assms(3,4)]) (simp add: outbox_inv_def Let_def)
  with assms(2,5) show ?thesis by (simp add: outbox_inv_def Let_def)
qed

lemma outbox_inv_tables:
  assumes "outbox_inv jt sview (w, q, opn)" and "tx_inv jt d' (map snd (sv_log (sview (rw_x w)))) opn'"
    and "outbox_fields jt ` set (t_outbox (db_tables (rw_db w))) \<subseteq> outbox_fields jt ` set (t_outbox (db_tables d'))"
  shows "outbox_inv jt sview (w\<lparr>rw_db := d'\<rparr>, q, opn')"
  using outbox_inv_update [OF assms(1), of "w\<lparr>rw_db := d'\<rparr>" opn' "q i" i for i] assms holds_rows_mono [OF _ assms(3) order_refl]
  by (fastforce simp: outbox_inv_def Let_def)

lemma tx_inv_mark:
  assumes "tx_inv jt d fs opn" and "mark_published (ob_id b) d = Inr d'" and "outbox_fields jt b \<in> set fs"
  shows "tx_inv jt d' fs opn \<and> outbox_fields jt ` set (t_outbox (db_tables d')) = outbox_fields jt ` set (t_outbox (db_tables d))"
proof -
  let ?T = "t_outbox (db_tables d)" and ?f = "\<lambda>c. if ob_id c = ob_id b then c\<lparr>ob_published := Some (db_now d)\<rparr> else c"
  have T': "t_outbox (db_tables d') = map ?f ?T" using mark_outbox(1) [OF assms(2)] .
  have next': "db_next_outbox d' = db_next_outbox d" using assms(2) by (auto simp: mark_published_def)
  have same: "ob_id (?f c) = ob_id c" "outbox_fields jt (?f c) = outbox_fields jt c" for c by (simp_all add: outbox_fields_def)
  then have img: "outbox_fields jt ` set (t_outbox (db_tables d')) = outbox_fields jt ` set ?T"
    unfolding T' set_map image_image by simp
  have inv: "distinct (map ob_id (?T @ opn))" "\<forall>b \<in> set (?T @ opn). ob_id b < db_next_outbox d" "\<forall>b \<in> set opn. ob_published b = None"
    "set fs \<subseteq> outbox_fields jt ` set ?T" "\<forall>b \<in> set ?T. ob_published b \<noteq> None \<longrightarrow> outbox_fields jt b \<in> set fs"
    using assms(1) unfolding tx_inv_def Let_def by blast+
  from inv(4) assms(3) obtain c where c: "c \<in> set ?T" "outbox_fields jt c = outbox_fields jt b" by (metis imageE subsetD)
  have ids: "map ob_id (map ?f ?T @ opn) = map ob_id (?T @ opn)" by simp
  have mem: "outbox_fields jt e \<in> set fs" if e: "e \<in> set ?T" and pub: "ob_published (?f e) \<noteq> None" for e
  proof (cases "ob_id e = ob_id b")
    case True
    then have "ob_id e = ob_id c" using fields_id [OF c(2)] by simp
    then have "e = c" using inv(1) e c(1) by (auto simp: distinct_map dest: inj_onD)
    with c(2) assms(3) show ?thesis by simp
  qed (use e pub inv(5) in simp)
  have "\<forall>e \<in> set (map ?f ?T). ob_published e \<noteq> None \<longrightarrow> outbox_fields jt e \<in> set fs"
    using mem unfolding set_map ball_simps(9) same by blast
  moreover have "\<forall>e \<in> set (map ?f ?T @ opn). ob_id e < db_next_outbox d"
    using inv(2) unfolding set_append set_map ball_Un ball_simps(9) same by blast
  moreover have "distinct (map ob_id (map ?f ?T @ opn))" using inv(1) unfolding ids .
  ultimately have "tx_inv jt d' fs opn"
    unfolding tx_inv_def Let_def T' next' img [unfolded T'] using inv(3,4) by (intro conjI)
  with img show ?thesis by blast
qed

text \<open>A registration that nobody overlaps with.\<close>

lemma tx_inv_signup:
  assumes "tx_inv jt d fs opn" and "CreateUser weight now ph prof st d = (r, d')"
  shows "tx_inv jt d' fs opn \<and> outbox_fields jt ` set (t_outbox (db_tables d)) \<subseteq> outbox_fields jt ` set (t_outbox (db_tables d'))"
  using assms(2)
proof (cases rule: CreateUserE)
  case none
  then have "db_next_outbox d \<le> db_next_outbox d'" by (simp add: counters_ok_def)
  with assms(1) none(2) show ?thesis by (auto simp: tx_inv_def Let_def intro: less_le_trans)
next
  case (all fl)
  let ?T = "t_outbox (db_tables d)"
  from assms(1) have less: "\<forall>b \<in> set (?T @ opn). ob_id b < db_next_outbox d" unfolding tx_inv_def Let_def by blast
  obtain e where T': "t_outbox (db_tables d') = ?T @ [e]" and e: "ob_id e = db_next_outbox d" "ob_published e = None"
    and next': "db_next_outbox d' = db_next_outbox d + 1"
    by (simp add: all(1) add_account_def Let_def)
  from less have "ob_id e \<notin> ob_id ` set ?T" "ob_id e \<notin> ob_id ` set opn" unfolding e(1) by force+
  with assms(1) less e(2) show ?thesis unfolding tx_inv_def Let_def T' next'
    by (auto simp: e(1) intro: less_imp_le)
qed

text \<open>A transaction takes an id, commits its row, or rolls back.\<close>

lemma tx_inv_insert:
  assumes "tx_inv jt d fs opn" and "ob_id e = db_next_outbox d" "ob_published e = None" "n = db_next_outbox d + 1"
  shows "tx_inv jt (d\<lparr>db_next_outbox := n\<rparr>) fs (e # opn)"
proof -
  let ?T = "t_outbox (db_tables d)"
  from assms(1) have less: "\<forall>b \<in> set (?T @ opn). ob_id b < db_next_outbox d" unfolding tx_inv_def Let_def by blast
  then have "ob_id e \<notin> ob_id ` set ?T" "ob_id e \<notin> ob_id ` set opn" unfolding assms(2) by force+
  with assms less show ?thesis unfolding tx_inv_def Let_def by (auto intro: less_imp_le)
qed

lemma distinct_map_removeAll: "distinct (map f xs) \<Longrightarrow> distinct (map f (removeAll b xs))"
  by (auto simp: distinct_map intro: distinct_removeAll inj_on_subset)

lemma tx_inv_rollback:
  assumes "tx_inv jt d fs opn"
  shows "tx_inv jt d fs (removeAll b opn)"
  using assms distinct_map_removeAll [of ob_id opn b] unfolding tx_inv_def Let_def map_append distinct_append by auto

lemma tx_inv_commit:
  assumes "tx_inv jt d fs opn" and "b \<in> set opn" and T': "t_outbox T = insort_key ob_id b (t_outbox (db_tables d))"
  shows "tx_inv jt (d\<lparr>db_tables := T\<rparr>) fs (removeAll b opn)"
proof -
  let ?T = "t_outbox (db_tables d)"
  from assms(1) have inv: "distinct (map ob_id ?T)" "distinct (map ob_id opn)" "ob_id ` set ?T \<inter> ob_id ` set opn = {}"
    unfolding tx_inv_def Let_def map_append distinct_append set_map by blast+
  have set: "set (t_outbox T) = insert b (set ?T)" by (simp add: T' set_insort_key)
  have "ob_id b \<notin> ob_id ` set ?T" using inv(3) assms(2) by blast
  moreover have "distinct (map ob_id (insort_key ob_id b xs))" if "distinct (map ob_id xs)" "ob_id b \<notin> ob_id ` set xs" for xs
    using that by (induction xs) (auto simp: set_insort_key)
  ultimately have "distinct (map ob_id (t_outbox T))" using inv(1) unfolding T' by blast
  moreover have "ob_id b \<notin> ob_id ` set (removeAll b opn)"
    using inv(2) assms(2) by (auto simp: distinct_map dest: inj_onD)
  then have "ob_id ` set (t_outbox T) \<inter> ob_id ` set (removeAll b opn) = {}" using inv(3) unfolding set by auto
  moreover note distinct_map_removeAll [OF inv(2), of b]
  ultimately have "distinct (map ob_id (t_outbox T @ removeAll b opn))" unfolding map_append distinct_append set_map by blast
  moreover have "\<forall>e \<in> set (t_outbox T @ removeAll b opn). ob_id e < db_next_outbox d" "\<forall>e \<in> set (removeAll b opn). ob_published e = None"
    "ob_published b = None" "set fs \<subseteq> outbox_fields jt ` set ?T" "\<forall>e \<in> set ?T. ob_published e \<noteq> None \<longrightarrow> outbox_fields jt e \<in> set fs"
    using assms(1,2) unfolding tx_inv_def Let_def set_append set by auto
  ultimately show ?thesis unfolding tx_inv_def Let_def using set by auto
qed

lemma relay_outbox_inv:
  assumes lib: "stream_group X Stream grp cons sview" and "outbox_inv jt sview (w, q, opn)"
    and "relay_step X jt weight (w, q) (w', q')"
  shows "outbox_inv jt sview (w', q', opn)"
  using assms(3)
proof (cases rule: relay_step.cases)
  case (signup now ph prof st r d')
  have "tx_inv jt (rw_db w) (map snd (sv_log (sview (rw_x w)))) opn" using assms(2) by (simp add: outbox_inv_def Let_def)
  from tx_inv_signup [OF this signup(3)] outbox_inv_tables [OF assms(2)] show ?thesis unfolding signup(1,2) by blast
next
  case (fetch r i)
  let ?fs = "map snd (sv_log (sview (rw_x w)))"
  from fetch(2) obtain p d where run: "query (\<lambda>T. Some (take batchSize (unpublished T))) (rw_db w) = (p, d)"
    and w': "w' = w\<lparr>rw_db := d\<rparr>" and r: "\<forall>a. r = Inr a \<longrightarrow> p = Inr a" by (rule relay_dbE)
  from run obtain fl where d: "d = rw_db w\<lparr>db_faults := fl\<rparr>"
    and p: "p = Inr (take batchSize (unpublished (db_tables (rw_db w)))) \<or> isl p" by (rule queryE) auto
  have "set (take batchSize (unpublished (db_tables (rw_db w)))) \<subseteq> set (t_outbox (db_tables (rw_db w)))"
    by (rule order_trans [OF set_take_subset]) (auto simp: unpublished_def)
  then have "holds_rows jt d ?fs (Adding (case r of Inl _ \<Rightarrow> [] | Inr bs \<Rightarrow> bs))"
    using p r by (auto simp: d split: sum.splits)
  with assms(2) show ?thesis unfolding fetch(1)
    by (intro outbox_inv_update [OF assms(2)]) (auto simp: w' d outbox_inv_def tx_inv_def Let_def)
next
  case (add i b bs r)
  let ?fs = "map snd (sv_log (sview (rw_x w)))" and ?T = "outbox_fields jt ` set (t_outbox (db_tables (rw_db w)))"
  from add(3) obtain p x where run: "xadd X Stream (outbox_fields jt b) (rw_x w) = (p, x)"
    and w': "w' = w\<lparr>rw_x := x\<rparr>" and r: "isl r = isl p" by (rule relay_redisE)
  have "holds_rows jt (rw_db w) ?fs (q i)" and inv: "tx_inv jt (rw_db w) ?fs opn" using assms(2) by (simp_all add: outbox_inv_def Let_def)
  then have rows: "outbox_fields jt b \<in> ?T" "outbox_fields jt ` set bs \<subseteq> ?T" by (simp_all add: add(2))
  from stream_group.add_log [OF lib run] r
  have log: "map snd (sv_log (sview x)) = ?fs \<and> isl r \<or> map snd (sv_log (sview x)) = ?fs @ [outbox_fields jt b]" by simp
  have tx: "tx_inv jt (rw_db w) (map snd (sv_log (sview x))) opn"
    using log
  proof
    assume gs: "map snd (sv_log (sview x)) = ?fs @ [outbox_fields jt b]"
    show ?thesis unfolding gs using inv rows(1) by (auto simp: tx_inv_def Let_def)
  qed (use inv in simp)
  have sub: "set ?fs \<subseteq> set (map snd (sv_log (sview x)))" using log by (elim disjE conjE) (simp_all only: set_append order_refl Un_upper1)
  have "holds_rows jt (rw_db w) (map snd (sv_log (sview x))) (case r of Inl _ \<Rightarrow> Adding [] | Inr _ \<Rightarrow> Marking b bs)"
    using log rows(2) by (cases r) (auto simp del: set_map)
  then show ?thesis unfolding add(1)
    by (intro outbox_inv_update [OF assms(2)]) (use tx sub in \<open>simp_all add: w'\<close>)
next
  case (mark i b bs r)
  let ?fs = "map snd (sv_log (sview (rw_x w)))"
  from mark(3) obtain p d where run: "exec_stmt (mark_published (ob_id b)) (rw_db w) = (p, d)"
    and w': "w' = w\<lparr>rw_db := d\<rparr>" by (rule relay_dbE)
  have "holds_rows jt (rw_db w) ?fs (q i)" and inv: "tx_inv jt (rw_db w) ?fs opn" using assms(2) by (simp_all add: outbox_inv_def Let_def)
  then have hold: "outbox_fields jt ` set bs \<subseteq> outbox_fields jt ` set (t_outbox (db_tables (rw_db w)))" "outbox_fields jt b \<in> set ?fs"
    by (simp_all add: mark(2))
  have inv': "tx_inv jt (rw_db w\<lparr>db_faults := fl\<rparr>) ?fs opn" for fl using inv by (simp add: tx_inv_def)
  from run have "tx_inv jt d ?fs opn \<and> outbox_fields jt ` set (t_outbox (db_tables d)) = outbox_fields jt ` set (t_outbox (db_tables (rw_db w)))"
  proof (cases rule: exec_stmtE)
    case (unchanged e fl)
    then show ?thesis using inv' by simp
  next
    case (ran fl)
    with tx_inv_mark [OF inv' ran(1) hold(2)] show ?thesis by simp
  qed
  with hold show ?thesis unfolding mark(1)
    by (intro outbox_inv_update [OF assms(2)]) (auto simp: w' split: sum.splits)
next
  case (stop i)
  with assms(2) show ?thesis by (auto simp: outbox_inv_def Let_def)
qed

lemma outbox_step_inv:
  assumes lib: "stream_group X Stream grp cons sview" and "outbox_step X jt weight c c'" and "outbox_inv jt sview c"
  shows "outbox_inv jt sview c'"
  using assms(2)
proof (cases rule: outbox_step.cases)
  case (call w q w' q' opn)
  with relay_outbox_inv [OF lib] assms(3) show ?thesis by simp
next
  case (inserts agg payload w d q opn)
  let ?d = "(rw_db w)\<lparr>db_next_outbox := db_next_outbox d\<rparr>"
  from inserts(3) have e: "ob_id (last (t_outbox (db_tables d))) = db_next_outbox (rw_db w)" "ob_published (last (t_outbox (db_tables d))) = None"
    "db_next_outbox d = db_next_outbox (rw_db w) + 1"
    by (auto simp: insert_outbox_def split: option.splits if_splits)
  have "tx_inv jt (rw_db w) (map snd (sv_log (sview (rw_x w)))) opn" using assms(3) inserts(1) by (simp add: outbox_inv_def Let_def)
  from tx_inv_insert [OF this e] outbox_inv_tables [of jt sview w q opn ?d] assms(3) inserts(1) show ?thesis unfolding inserts(2) by simp
next
  case (commits b opn T w q)
  let ?d = "(rw_db w)\<lparr>db_tables := T\<rparr>"
  have "tx_inv jt (rw_db w) (map snd (sv_log (sview (rw_x w)))) opn" using assms(3) commits(1) by (simp add: outbox_inv_def Let_def)
  note tx = tx_inv_commit [OF this commits(3,4)]
  have "outbox_fields jt ` set (t_outbox (db_tables (rw_db w))) \<subseteq> outbox_fields jt ` set (t_outbox (db_tables ?d))"
    by (auto simp: commits(4) set_insort_key)
  with tx outbox_inv_tables [of jt sview w q opn ?d] assms(3) commits(1) show ?thesis unfolding commits(2) by blast
next
  case (rollback w q opn b)
  then show ?thesis using assms(3) tx_inv_rollback by (auto simp: outbox_inv_def Let_def)
qed

lemma outbox_steps_inv:
  assumes "stream_group X Stream grp cons sview" and "(outbox_step X jt weight)\<^sup>*\<^sup>* c c'" and "outbox_inv jt sview c"
  shows "outbox_inv jt sview c'"
  using assms(2,3) by (induction rule: rtranclp_induct) (auto intro: outbox_step_inv [OF assms(1)])

text \<open>
  C4. At-least-once delivery of the outbox, whatever fails. Start with no open transaction, no relay holding rows, and a
  table and a stream that agree (an empty stream and a table with nothing marked, for instance). Let any number of relays,
  of registrations and of transactions that reserve an outbox id and commit or roll back later, in any order, interleave with errors,
  lost answers and restarts between any two calls. Then every stream entry is a committed row of the table, with its
  contents, and every row that is marked published is in the stream; so a committed row is in the stream, or it is still unmarked and a
  later poll finds it. Nothing is said about the order of the stream, which with overlapping transactions need not be that of
  the ids. The Redis server is any one that satisfies the stream laws.
\<close>

theorem outbox_delivery:
  assumes "stream_group X Stream grp cons sview"
    and "tx_inv jt (rw_db w) (map snd (sv_log (sview (rw_x w)))) []"
    and "(outbox_step X jt weight)\<^sup>*\<^sup>* (w, \<lambda>_. Adding [], []) (w', q, opn)"
  shows "let T = t_outbox (db_tables (rw_db w')); fs = map snd (sv_log (sview (rw_x w'))) in
     set fs \<subseteq> outbox_fields jt ` set T \<and>
     (\<forall>b \<in> set T. outbox_fields jt b \<in> set fs \<or> b \<in> set (unpublished (db_tables (rw_db w')))) \<and>
     distinct (map ob_id T)"
proof -
  have "outbox_inv jt sview (w, \<lambda>_. Adding [], [])" using assms(2) by (simp add: outbox_inv_def)
  from outbox_steps_inv [OF assms(1,3) this] show ?thesis
    by (auto simp: outbox_inv_def tx_inv_def Let_def unpublished_def)
qed

section \<open>Progress without faults\<close>

definition mark_rows :: "datetime \<Rightarrow> int set \<Rightarrow> outbox_row list \<Rightarrow> outbox_row list" where
  "mark_rows t I bs = map (\<lambda>b. if ob_id b \<in> I then b\<lparr>ob_published := Some t\<rparr> else b) bs"

lemma mark_rows_rows: "mark_rows t I (mark_rows t J bs) = mark_rows t (I \<union> J) bs"
  by (auto simp: mark_rows_def)

text \<open>A stream server that is up: every append succeeds.\<close>

definition appends :: "'x streams \<Rightarrow> ('x \<Rightarrow> bool) \<Rightarrow> bool" where
  "appends X up \<longleftrightarrow> (\<forall>x f. up x \<longrightarrow> (\<exists>x'. xadd X Stream f x = (Inr (), x') \<and> up x'))"

lemma publish_rows_ok:
  assumes lib: "stream_group X Stream grp cons sview" and up: "appends X up"
    and "up (rw_x w)" and "db_faults (rw_db w) = []"
  shows "\<exists>x'. publish_rows X jt bs w = (Inr (), w\<lparr>rw_x := x', rw_db := (rw_db w)\<lparr>db_tables :=
       (db_tables (rw_db w))\<lparr>t_outbox := mark_rows (db_now (rw_db w)) (ob_id ` set bs) (t_outbox (db_tables (rw_db w)))\<rparr>\<rparr>\<rparr>) \<and>
     up x' \<and> map snd (sv_log (sview x')) = map snd (sv_log (sview (rw_x w))) @ map (outbox_fields jt) bs \<and>
     sv_given (sview x') = sv_given (sview (rw_x w))"
  using assms(3,4)
proof (induction bs arbitrary: w)
  case Nil
  have "mark_rows t {} bs = bs" for t and bs :: "outbox_row list" by (simp add: mark_rows_def)
  with Nil show ?case by (intro exI [of _ "rw_x w"]) (simp add: ok_def)
next
  case (Cons b bs)
  from up Cons.prems(1) obtain x1 where x1: "xadd X Stream (outbox_fields jt b) (rw_x w) = (Inr (), x1)" "up x1"
    unfolding appends_def by blast
  then have lg: "map snd (sv_log (sview x1)) = map snd (sv_log (sview (rw_x w))) @ [outbox_fields jt b]"
      "sv_given (sview x1) = sv_given (sview (rw_x w))"
    using stream_group.add_ok [OF lib x1(1)] by auto
  define d1 where "d1 = (rw_db w)\<lparr>db_tables := (db_tables (rw_db w))\<lparr>t_outbox :=
    mark_rows (db_now (rw_db w)) {ob_id b} (t_outbox (db_tables (rw_db w)))\<rparr>\<rparr>"
  have mark: "exec_stmt (mark_published (ob_id b)) (rw_db w) = (Inr (), d1)"
    using Cons.prems(2) by (simp add: exec_ok mark_published_def d1_def mark_rows_def)
  have step: "publish_rows X jt (b # bs) w = publish_rows X jt bs (w\<lparr>rw_x := x1, rw_db := d1\<rparr>)"
    by (simp add: and_then_def relay_redis_def relay_db_def x1 mark)
  have now: "db_now d1 = db_now (rw_db w)" "db_faults d1 = []" using Cons.prems(2) by (simp_all add: d1_def)
  have "mark_rows t (ob_id ` set bs) (mark_rows t {ob_id b} T) = mark_rows t (ob_id ` set (b # bs)) T" for t T
    by (simp add: mark_rows_rows)
  then show ?case using Cons.IH [of "w\<lparr>rw_x := x1, rw_db := d1\<rparr>"] x1(2) now lg unfolding step
    by (simp add: d1_def)
qed

lemma unpublished_mark:
  assumes "db_wf d" and "d' = d\<lparr>db_tables := (db_tables d)\<lparr>t_outbox :=
      mark_rows t (ob_id ` set (take n (unpublished (db_tables d)))) (t_outbox (db_tables d))\<rparr>\<rparr>"
  shows "unpublished (db_tables d') = drop n (unpublished (db_tables d)) \<and> db_wf d'"
proof -
  let ?T = "t_outbox (db_tables d)" and ?U = "unpublished (db_tables d)"
  let ?I = "ob_id ` set (take n ?U)"
  let ?m = "\<lambda>b. if ob_id b \<in> ?I then b\<lparr>ob_published := Some t\<rparr> else b"
  note U = unpublished_sorted [OF assms(1)]
  have T': "t_outbox (db_tables d') = map ?m ?T" by (simp add: assms(2) mark_rows_def)
  have wf: "db_wf d'" unfolding assms(2) mark_rows_def
  proof (rule db_wf_outbox [OF assms(1)])
    show "map ob_id (map ?m ?T) = map ob_id ?T" by simp
    show "\<exists>c \<in> set (map ?m ?T). announces r c" if "b \<in> set ?T" "announces r b" for r b
      by (rule bexI [of _ "?m b"]) (use that in \<open>simp_all add: announces_def\<close>)
  qed
  have "filter (\<lambda>b. ob_published b = None) (map ?m ?T) = filter (\<lambda>b. ob_id b \<notin> ?I) ?U"
  proof -
    have "filter (\<lambda>b. ob_published b = None) (map ?m bs) =
      filter (\<lambda>b. ob_id b \<notin> ?I) (filter (\<lambda>b. ob_published b = None) bs)" for bs
      by (induction bs) auto
    then show ?thesis by (simp only: U)
  qed
  also have "\<dots> = drop n ?U"
  proof -
    have "distinct (map ob_id ?U)" using assms(1) unfolding U
      by (simp add: db_wf_def Let_def distinct_map_filter strict_sorted_iff)
    then have "distinct (map ob_id (take n ?U @ drop n ?U))" by simp
    then have disj: "ob_id ` set (take n ?U) \<inter> ob_id ` set (drop n ?U) = {}"
      unfolding map_append distinct_append set_map by blast
    have "filter (\<lambda>b. ob_id b \<notin> ?I) (take n ?U @ drop n ?U) = drop n ?U"
      unfolding filter_append using disj by (auto simp: filter_empty_conv filter_id_conv)
    then show ?thesis by simp
  qed
  finally show ?thesis using wf unpublished_sorted [OF wf] T' by simp
qed

lemma publishBatch_ok:
  assumes lib: "stream_group X Stream grp cons sview" and "appends X up" and "up (rw_x w)"
    and "db_faults (rw_db w) = []" and "db_wf (rw_db w)"
  shows "\<exists>w'. publishBatch X jt w = (Inr (), w') \<and> up (rw_x w') \<and> db_faults (rw_db w') = [] \<and> db_wf (rw_db w') \<and>
     unpublished (db_tables (rw_db w')) = drop batchSize (unpublished (db_tables (rw_db w))) \<and>
     map snd (sv_log (sview (rw_x w'))) = map snd (sv_log (sview (rw_x w))) @
       map (outbox_fields jt) (take batchSize (unpublished (db_tables (rw_db w)))) \<and>
     sv_given (sview (rw_x w')) = sv_given (sview (rw_x w))"
proof -
  let ?bs = "take batchSize (unpublished (db_tables (rw_db w)))"
  have "publishBatch X jt w = publish_rows X jt ?bs w"
    by (simp add: publishBatch_def and_then_def relay_db_def query_ok [OF assms(4)])
  with publish_rows_ok [OF assms(1-4), of jt ?bs] unpublished_mark [OF assms(5) refl, of "db_now (rw_db w)" batchSize]
    assms(4) show ?thesis by auto
qed

lemma relay_ticks:
  assumes "stream_group X Stream grp cons sview" and "appends X up" and "up (rw_x w)"
    and "db_faults (rw_db w) = []" and "db_wf (rw_db w)"
  shows "let w' = relay_Run X jt (replicate k Tick) w; U = unpublished (db_tables (rw_db w)) in
     unpublished (db_tables (rw_db w')) = drop (k * batchSize) U \<and>
     map snd (sv_log (sview (rw_x w'))) =
       map snd (sv_log (sview (rw_x w))) @ map (outbox_fields jt) (take (k * batchSize) U) \<and>
     up (rw_x w') \<and> sv_given (sview (rw_x w')) = sv_given (sview (rw_x w))"
  using assms(3-5)
proof (induction k arbitrary: w)
  case (Suc k)
  from publishBatch_ok [OF assms(1,2) Suc.prems, of jt] obtain w1 where run: "publishBatch X jt w = (Inr (), w1)"
    and inv: "up (rw_x w1)" "db_faults (rw_db w1) = []" "db_wf (rw_db w1)"
    and U: "unpublished (db_tables (rw_db w1)) = drop batchSize (unpublished (db_tables (rw_db w)))"
    and lg: "map snd (sv_log (sview (rw_x w1))) = map snd (sv_log (sview (rw_x w))) @
       map (outbox_fields jt) (take batchSize (unpublished (db_tables (rw_db w))))"
      "sv_given (sview (rw_x w1)) = sv_given (sview (rw_x w))" by blast
  have split: "take batchSize V @ take (k * batchSize) (drop batchSize V) = take (batchSize + k * batchSize) V" for V :: "outbox_row list"
    by (simp add: take_add)
  from Suc.IH [OF inv] show ?case
    by (simp add: Let_def run U lg add.commute flip: split)
qed simp

text \<open>
  C23. Progress of the relay: when the database and the stream server answer, each tick publishes the
  next batch, so \<open>k\<close> ticks append the first \<open>100 k\<close> unpublished rows to the stream, in order, once each,
  and leave the others; enough ticks leave no unpublished row.
\<close>

theorem outbox_drained:
  assumes "stream_group X Stream grp cons sview" and "appends X up" and "up (rw_x w)"
    and "db_faults (rw_db w) = []" and "db_wf (rw_db w)"
  shows "let w' = relay_Run X jt (replicate k Tick) w; U = unpublished (db_tables (rw_db w)) in
     unpublished (db_tables (rw_db w')) = drop (100 * k) U \<and>
     map snd (sv_log (sview (rw_x w'))) =
       map snd (sv_log (sview (rw_x w))) @ map (outbox_fields jt) (take (100 * k) U)"
  using relay_ticks [OF assms, of jt k] by (simp add: batchSize_def mult.commute Let_def)

text \<open>One account whose event waits, and an empty stream.\<close>

definition demo_relay :: "evlog relay_world" where
  "demo_relay = \<lparr>rw_db = account_db ACTIVE,
     rw_x = \<lparr>el_entries = \<lambda>_. [], el_given = 0, el_pending = [], el_faults = []\<rparr>\<rparr>"

lemma demo_relay_wf: "db_wf (rw_db demo_relay)"
  by (simp add: demo_relay_def account_db_wf)

lemma demo_relay_inv: "tx_inv jt (rw_db demo_relay) (map snd (sv_log (el_view Stream (rw_x demo_relay)))) []"
  by (simp add: tx_inv_def demo_relay_def account_db_def empty_db_def add_account_def el_view_def el_messages_def)

lemma el_appends: "appends (el_streams Stream) (\<lambda>x. el_faults x = [])"
  by (auto simp: appends_def el_streams_def el_run_def el_take_def)

text \<open>
  A transaction takes the id 2 and stays open, another takes 3 and commits; the relay publishes 1 and 3; then the first commits and
  is still to be delivered.
\<close>

definition late_row :: "int \<Rightarrow> outbox_row" where
  "late_row i = \<lparr>ob_id = i, ob_aggregate = ''user'', ob_aggregate_id = ''5'', ob_event = ''user.created'', ob_payload = JNull, ob_published = None\<rparr>"

definition add_late :: "int \<Rightarrow> idb \<Rightarrow> idb" where
  "add_late i d = d\<lparr>db_tables := (db_tables d)\<lparr>t_outbox := insort_key ob_id (late_row i) (t_outbox (db_tables d))\<rparr>\<rparr>"

definition overtaken_relay :: "evlog relay_world" where
  "overtaken_relay = relay_Run (el_streams Stream) print_json [Tick, CtxDone]
     (demo_relay\<lparr>rw_db := add_late 3 ((rw_db demo_relay)\<lparr>db_next_outbox := 4\<rparr>)\<rparr>)"

lemma overtaken_steps:
  "(outbox_step (el_streams Stream) print_json id)\<^sup>*\<^sup>* (demo_relay, \<lambda>_. Adding [], [])
     (overtaken_relay\<lparr>rw_db := add_late 2 (rw_db overtaken_relay)\<rparr>, \<lambda>_. Adding [], [])"
proof -
  let ?q = "\<lambda>_ :: nat. Adding []" and ?S = "outbox_step (el_streams Stream) print_json id"
  let ?w = "\<lambda>n. demo_relay\<lparr>rw_db := (rw_db demo_relay)\<lparr>db_next_outbox := n\<rparr>\<rparr>"
  let ?c = "demo_relay\<lparr>rw_db := add_late 3 ((rw_db demo_relay)\<lparr>db_next_outbox := 4\<rparr>)\<rparr>"
  have doc: "parse_doc ''null'' = Some JNull" "fits 64 ''5''" by code_simp+
  have ins: "\<exists>d'. insert_outbox ''5'' ''null'' d = Inr d' \<and> last (t_outbox (db_tables d')) = late_row (db_next_outbox d) \<and>
      db_next_outbox d' = db_next_outbox d + 1" for d
    using doc by (simp add: insert_outbox_def late_row_def)
  have next2: "db_next_outbox (rw_db demo_relay) = 2" by (simp add: demo_relay_def account_db_def)
  have "?S (demo_relay, ?q, []) (?w 3, ?q, [late_row 2])"
    using ins [of "rw_db demo_relay"] outbox_step.inserts [of "''5''" "''null''" demo_relay] next2 by fastforce
  moreover have "?S (?w 3, ?q, [late_row 2]) (?w 4, ?q, [late_row 3, late_row 2])"
    using ins [of "rw_db (?w 3)"] outbox_step.inserts [of "''5''" "''null''" "?w 3"] by fastforce
  moreover have "?S (?w 4, ?q, [late_row 3, late_row 2]) (?c, ?q, [late_row 2])"
    using outbox_step.commits [of "late_row 3" "[late_row 3, late_row 2]" "db_tables (rw_db ?c)" "?w 4"]
    by (simp add: add_late_def late_row_def)
  moreover have "?S\<^sup>*\<^sup>* (?c, ?q, [late_row 2]) (overtaken_relay, ?q, [late_row 2])"
  proof -
    have "?q(0 := Adding []) = ?q" by auto
    then have "(relay_step (el_streams Stream) print_json id)\<^sup>*\<^sup>* (?c, ?q) (overtaken_relay, ?q)"
      unfolding overtaken_relay_def using relay_Run_steps [of "el_streams Stream" print_json id ?c ?q 0] by metis
    from relay_outbox_steps [OF this] show ?thesis by simp
  qed
  moreover have "?S (overtaken_relay, ?q, [late_row 2]) (overtaken_relay\<lparr>rw_db := add_late 2 (rw_db overtaken_relay)\<rparr>, ?q, [])"
    using outbox_step.commits [of "late_row 2" "[late_row 2]" "db_tables (add_late 2 (rw_db overtaken_relay))" overtaken_relay]
    by (simp add: add_late_def)
  ultimately show ?thesis by (meson converse_rtranclp_into_rtranclp rtranclp.rtrancl_into_rtrancl rtranclp_trans)
qed

theorem outbox_delivery_witness:
  "let w = overtaken_relay\<lparr>rw_db := add_late 2 (rw_db overtaken_relay)\<rparr>;
     T = t_outbox (db_tables (rw_db w)); fs = map snd (sv_log (el_view Stream (rw_x w))) in
     map ob_id T = [1, 2, 3] \<and> map entry_id fs = [''1'', ''3''] \<and> set fs \<subseteq> outbox_fields print_json ` set T \<and>
     (\<forall>b \<in> set T. outbox_fields print_json b \<in> set fs \<or> b \<in> set (unpublished (db_tables (rw_db w))))"
proof -
  have "map ob_id (t_outbox (db_tables (add_late 2 (rw_db overtaken_relay)))) = [1, 2, 3]"
    "map entry_id (map snd (sv_log (el_view Stream (rw_x overtaken_relay)))) = [''1'', ''3'']" by code_simp+
  with outbox_delivery [OF evlog_laws demo_relay_inv overtaken_steps] show ?thesis
    unfolding Let_def by simp
qed

theorem outbox_drained_witness:
  "unpublished (db_tables (rw_db demo_relay)) \<noteq> [] \<and>
   unpublished (db_tables (rw_db (relay_Run (el_streams Stream) print_json (replicate 1 Tick) demo_relay))) = []"
proof -
  have faults: "el_faults (rw_x demo_relay) = []" "db_faults (rw_db demo_relay) = []"
    by (simp_all add: demo_relay_def account_db_def empty_db_def)
  have "length (unpublished (db_tables (rw_db demo_relay))) = 1"
    by (simp add: unpublished_sorted [OF demo_relay_wf])
      (simp add: demo_relay_def account_db_def empty_db_def add_account_def)
  then show ?thesis
    using outbox_drained [OF evlog_laws el_appends faults demo_relay_wf, of print_json 1]
    by (auto simp: Let_def)
qed

end
