(* ===== verification/Board_Repo.thy ===== *)
theory Board_Repo
  imports User_Repo
begin

text \<open>
  The board's data: posts (\<^verbatim>\<open>services/board/internal/domain/post.go\<close>), the repository of posts
  (\<^verbatim>\<open>services/board/internal/repo/mysql/post_repo.go\<close>) and the tables its SQL statements work on, with the
  column sizes of the board's migrations. Faults and errors of statements are those of the identity
  database; \<open>weight\<close> is the sort key of the column collation.
\<close>

section \<open>Posts\<close>

datatype post_err = ErrPostNotFound | ErrInvalidPost | ErrNotAuthorized

definition MaxTitleLen :: nat where "MaxTitleLen = 200"
definition MaxContentLen :: nat where "MaxContentLen = 20000"

record post =
  ps_ID :: int
  ps_AuthorID :: string
  ps_Title :: string
  ps_Content :: string
  ps_CreatedAt :: "datetime option"
  ps_AuthorNickname :: string

definition Validate :: "post \<Rightarrow> post_err option" where
  "Validate p =
     (if ps_AuthorID p = [] \<or> ps_Title p = [] \<or> ps_Content p = [] then Some ErrInvalidPost
      else if length (ps_Title p) > MaxTitleLen \<or> length (ps_Content p) > MaxContentLen then Some ErrInvalidPost
      else None)"

section \<open>Tables\<close>

record post_row =
  po_id :: int
  po_author :: string
  po_title :: string
  po_content :: string
  po_created :: datetime

record author_row =
  au_user :: string
  au_nick :: string
  au_updated :: datetime

record board_db =
  bd_posts :: "post_row list"
  bd_authors :: "author_row list"
  bd_next :: int
  bd_now :: datetime
  bd_faults :: "fault list"

definition bd_fault :: "board_db \<Rightarrow> fault \<times> board_db" where
  "bd_fault d = (case bd_faults d of [] \<Rightarrow> (DbOk, d) | f # fs \<Rightarrow> (f, d\<lparr>bd_faults := fs\<rparr>))"

text \<open>A statement that writes, with the id it inserted, and a query.\<close>

definition bd_exec :: "(board_db \<Rightarrow> db_err + int \<times> board_db) \<Rightarrow> (board_db, db_err, int) action" where
  "bd_exec f d = (case bd_fault d of
      (DbFail e, d1) \<Rightarrow> (Inl (ConnLost e), d1)
    | (flt, d1) \<Rightarrow> (case f d1 of
        Inl e \<Rightarrow> (Inl e, d1)
      | Inr (i, d2) \<Rightarrow> ((case flt of DbLost e \<Rightarrow> Inl (ConnLost e) | _ \<Rightarrow> Inr i), d2)))"

definition bd_query :: "(board_db \<Rightarrow> 'a) \<Rightarrow> (board_db, db_err, 'a) action" where
  "bd_query f d = (case bd_fault d of
      (DbOk, d1) \<Rightarrow> (Inr (f d1), d1)
    | (DbFail e, d1) \<Rightarrow> (Inl (ConnLost e), d1)
    | (DbLost e, d1) \<Rightarrow> (Inl (ConnLost e), d1))"

text \<open>\<^verbatim>\<open>VARCHAR(n)\<close> counts characters, \<^verbatim>\<open>TEXT\<close> bytes.\<close>

definition insert_post :: "string \<Rightarrow> string \<Rightarrow> string \<Rightarrow> board_db \<Rightarrow> db_err + int \<times> board_db" where
  "insert_post author title content d =
     (if \<not> fits 64 author \<or> \<not> fits 200 title \<or> length content > 65535 then Inl (MySQLError 1406)
      else Inr (bd_next d, d\<lparr>bd_posts := bd_posts d @
        [\<lparr>po_id = bd_next d, po_author = author, po_title = title, po_content = content, po_created = bd_now d\<rparr>],
        bd_next := bd_next d + 1\<rparr>))"

text \<open>The upsert of an author; the row's time changes only when its name does.\<close>

definition upsert_author ::
  "(string \<Rightarrow> string) \<Rightarrow> string \<Rightarrow> string \<Rightarrow> board_db \<Rightarrow> db_err + int \<times> board_db" where
  "upsert_author weight u nick d =
     (if \<not> fits 64 u \<or> \<not> fits 50 nick then Inl (MySQLError 1406)
      else if list_ex (\<lambda>a. weight (au_user a) = weight u) (bd_authors d)
      then Inr (0, d\<lparr>bd_authors := map (\<lambda>a. if weight (au_user a) = weight u \<and> au_nick a \<noteq> nick
          then a\<lparr>au_nick := nick, au_updated := bd_now d\<rparr> else a) (bd_authors d)\<rparr>)
      else Inr (0, d\<lparr>bd_authors := bd_authors d @ [\<lparr>au_user = u, au_nick = nick, au_updated = bd_now d\<rparr>]\<rparr>))"

text \<open>The left join of a post with the authors: one result per matching author, one without a name if there is none.\<close>

definition post_of_row :: "post_row \<Rightarrow> string \<Rightarrow> post" where
  "post_of_row p nick = \<lparr>ps_ID = po_id p, ps_AuthorID = po_author p, ps_Title = po_title p, ps_Content = po_content p,
     ps_CreatedAt = Some (po_created p), ps_AuthorNickname = nick\<rparr>"

definition left_join :: "(string \<Rightarrow> string) \<Rightarrow> author_row list \<Rightarrow> post_row \<Rightarrow> post list" where
  "left_join weight as p = (case filter (\<lambda>a. weight (au_user a) = weight (po_author p)) as of
      [] \<Rightarrow> [post_of_row p []] | ms \<Rightarrow> map (\<lambda>a. post_of_row p (au_nick a)) ms)"

section \<open>The repository\<close>

datatype board_err = BoardDomain post_err | BoardDb string db_err

definition posts_by_id :: "(string \<Rightarrow> string) \<Rightarrow> int \<Rightarrow> board_db \<Rightarrow> post list" where
  "posts_by_id weight i d = concat (map (left_join weight (bd_authors d)) (filter (\<lambda>p. po_id p = i) (bd_posts d)))"

definition Post_FindByID :: "(string \<Rightarrow> string) \<Rightarrow> int \<Rightarrow> (board_db, board_err, post) action" where
  "Post_FindByID weight i =
     and_then (map_err (BoardDb []) (bd_query (posts_by_id weight i))) (\<lambda>ps.
     case ps of [] \<Rightarrow> fail (BoardDomain ErrPostNotFound) | p # _ \<Rightarrow> ok p)"

definition Post_Create :: "(string \<Rightarrow> string) \<Rightarrow> post \<Rightarrow> (board_db, board_err, post) action" where
  "Post_Create weight p =
     and_then (map_err (BoardDb ''insert post'') (bd_exec (insert_post (ps_AuthorID p) (ps_Title p) (ps_Content p))))
       (\<lambda>i. Post_FindByID weight i)"

definition posts_before :: "(string \<Rightarrow> string) \<Rightarrow> int \<Rightarrow> nat \<Rightarrow> board_db \<Rightarrow> post list" where
  "posts_before weight after limit d = take limit (concat (map (left_join weight (bd_authors d))
     (rev (sort_key po_id (filter (\<lambda>p. po_id p < after) (bd_posts d))))))"

definition Post_List :: "(string \<Rightarrow> string) \<Rightarrow> int \<Rightarrow> nat \<Rightarrow> (board_db, board_err, post list) action" where
  "Post_List weight after limit =
     map_err (BoardDb []) (bd_query (posts_before weight (if after = 0 then max_int64 else after) limit))"

section \<open>The invariant of the tables\<close>

text \<open>Post ids rise and stay between 1 and the counter; an author has one row; the names fit and are not empty.\<close>

definition board_wf :: "(string \<Rightarrow> string) \<Rightarrow> board_db \<Rightarrow> bool" where
  "board_wf weight d \<longleftrightarrow>
     sorted_wrt (<) (map po_id (bd_posts d)) \<and> (\<forall>p \<in> set (bd_posts d). 0 < po_id p \<and> po_id p < bd_next d) \<and>
     0 < bd_next d \<and> distinct (map (\<lambda>a. weight (au_user a)) (bd_authors d))"

lemma board_wf_faults [simp]: "board_wf weight (d\<lparr>bd_faults := fs\<rparr>) = board_wf weight d"
  by (simp add: board_wf_def)

lemma bd_fault_eq: "bd_fault d = (f, d1) \<Longrightarrow> \<exists>fs. d1 = d\<lparr>bd_faults := fs\<rparr>"
  by (cases d) (auto simp: bd_fault_def split: list.splits)

lemma bd_execE:
  assumes "bd_exec f d = (r, d')"
  obtains (unchanged) e fs where "r = Inl e" and "d' = d\<lparr>bd_faults := fs\<rparr>"
      and "f (d\<lparr>bd_faults := fs\<rparr>) = Inl e \<or> (\<exists>x. e = ConnLost x)"
  | (ran) i fs where "f (d\<lparr>bd_faults := fs\<rparr>) = Inr (i, d')" and "r = Inr i \<or> (\<exists>x. r = Inl (ConnLost x))"
proof -
  obtain flt d1 where tk: "bd_fault d = (flt, d1)" by fastforce
  from bd_fault_eq [OF this] obtain fs where "d1 = d\<lparr>bd_faults := fs\<rparr>" by blast
  with assms tk that show ?thesis
    by (auto simp: bd_exec_def split: fault.splits sum.splits prod.splits)
qed

lemma bd_queryE:
  assumes "bd_query f d = (r, d')"
  obtains fs where "d' = d\<lparr>bd_faults := fs\<rparr>" and "r = Inr (f (d\<lparr>bd_faults := fs\<rparr>)) \<or> (\<exists>x. r = Inl (ConnLost x))"
proof -
  obtain flt d1 where tk: "bd_fault d = (flt, d1)" by fastforce
  from bd_fault_eq [OF this] obtain fs where "d1 = d\<lparr>bd_faults := fs\<rparr>" by blast
  with assms tk that show ?thesis by (auto simp: bd_query_def split: fault.splits)
qed

lemma bd_query_ok: "bd_faults d = [] \<Longrightarrow> bd_query f d = (Inr (f d), d)"
  by (simp add: bd_query_def bd_fault_def)

text \<open>With one row per author the join has exactly one result per post.\<close>

definition nickname_of :: "(string \<Rightarrow> string) \<Rightarrow> board_db \<Rightarrow> string \<Rightarrow> string" where
  "nickname_of weight d u = (case find (\<lambda>a. weight (au_user a) = weight u) (bd_authors d) of
      None \<Rightarrow> [] | Some a \<Rightarrow> au_nick a)"

lemma distinct_filter:
  "distinct (map g as) \<Longrightarrow> filter (\<lambda>a. g a = k) as = (case find (\<lambda>a. g a = k) as of None \<Rightarrow> [] | Some a \<Rightarrow> [a])"
proof (induction as)
  case (Cons a as)
  show ?case
  proof (cases "g a = k")
    case True
    with Cons.prems have "filter (\<lambda>x. g x = k) as = []" by (force simp: filter_empty_conv image_iff)
    with True show ?thesis by simp
  qed (use Cons in simp)
qed simp

lemma left_join_one:
  assumes "board_wf weight d"
  shows "left_join weight (bd_authors d) p = [post_of_row p (nickname_of weight d (po_author p))]"
  using distinct_filter [of "\<lambda>a. weight (au_user a)" "bd_authors d" "weight (po_author p)"] assms
  by (simp add: left_join_def nickname_of_def board_wf_def split: option.splits)

definition shown :: "(string \<Rightarrow> string) \<Rightarrow> board_db \<Rightarrow> post_row \<Rightarrow> post" where
  "shown weight d p = post_of_row p (nickname_of weight d (po_author p))"

lemma shown_ID [simp]: "ps_ID (shown weight d p) = po_id p"
  by (simp add: shown_def post_of_row_def)

lemma shown_faults [simp]: "shown weight (d\<lparr>bd_faults := fs\<rparr>) = shown weight d"
  by (simp add: shown_def nickname_of_def fun_eq_iff)

lemma concat_left_join:
  "board_wf weight d \<Longrightarrow> concat (map (left_join weight (bd_authors d)) ps) = map (shown weight d) ps"
  by (induction ps) (simp_all add: left_join_one shown_def)

lemma sorted_posts: "board_wf weight d \<Longrightarrow> sort_key po_id (filter P (bd_posts d)) = filter P (bd_posts d)"
proof -
  assume "board_wf weight d"
  then have "sorted (map po_id (bd_posts d))" by (simp add: board_wf_def strict_sorted_imp_sorted)
  then show ?thesis by (intro sort_key_id_if_sorted sorted_filter)
qed

lemma posts_before_eq:
  "board_wf weight d \<Longrightarrow> posts_before weight after n d =
     map (shown weight d) (take n (rev (filter (\<lambda>p. po_id p < after) (bd_posts d))))"
  by (simp add: posts_before_def sorted_posts concat_left_join take_map)

lemma insert_post_wf:
  assumes "insert_post a t c d = Inr (i, d')" and "board_wf weight d"
  shows "board_wf weight d'"
  using assms by (fastforce simp: insert_post_def board_wf_def sorted_wrt_append split: if_splits)

lemma upsert_author_wf:
  assumes "upsert_author weight u nick d = Inr (i, d')" and "board_wf weight d"
  shows "board_wf weight d' \<and> bd_posts d' = bd_posts d"
proof -
  let ?keys = "\<lambda>d. map (\<lambda>a. weight (au_user a)) (bd_authors d)"
  have same: "(\<lambda>a. weight (au_user a)) \<circ> (\<lambda>a. if P a then a\<lparr>au_nick := nick, au_updated := t\<rparr> else a) =
      (\<lambda>a. weight (au_user a))" for P t by auto
  have "?keys d' = ?keys d \<or> ?keys d' = ?keys d @ [weight u] \<and> weight u \<notin> set (?keys d)"
    using assms(1) by (force simp: upsert_author_def same list_ex_iff split: if_splits)
  moreover have "bd_posts d' = bd_posts d" "bd_next d' = bd_next d"
    using assms(1) by (auto simp: upsert_author_def split: if_splits)
  ultimately show ?thesis using assms(2) unfolding board_wf_def by auto
qed

lemma nickname_upsert:
  assumes "upsert_author weight u nick d = Inr (i, d')"
  shows "nickname_of weight d' v = (if weight v = weight u then nick else nickname_of weight d v)"
proof -
  have upd: "find (\<lambda>a. weight (au_user a) = w) (map (\<lambda>a. if weight (au_user a) = weight u \<and> au_nick a \<noteq> nick
          then a\<lparr>au_nick := nick, au_updated := t\<rparr> else a) as) =
      map_option (\<lambda>a. if w = weight u \<and> au_nick a \<noteq> nick then a\<lparr>au_nick := nick, au_updated := t\<rparr> else a)
        (find (\<lambda>a. weight (au_user a) = w) as)" for w t as
    by (induction as) auto
  have none: "find (\<lambda>a. weight (au_user a) = weight u) as = None \<longleftrightarrow> \<not> list_ex (\<lambda>a. weight (au_user a) = weight u) as" for as
    by (auto simp: find_None_iff list_ex_iff)
  show ?thesis using assms none [of "bd_authors d"]
    by (auto simp: upsert_author_def nickname_of_def upd find_append split: if_splits option.splits)
qed

text \<open>A stored post, and what the repository returns for it.\<close>

lemma Post_FindByID_row:
  assumes "board_wf weight d" and "p \<in> set (bd_posts d)" and "bd_faults d = []"
  shows "Post_FindByID weight (po_id p) d = (Inr (shown weight d p), d)"
proof -
  have "distinct (map po_id (bd_posts d))" using assms(1) by (simp add: board_wf_def strict_sorted_iff)
  then have "filter (\<lambda>q. po_id q = po_id p) (bd_posts d) = [p]"
    using distinct_filter [of po_id "bd_posts d" "po_id p"] find_distinct [OF _ assms(2), of po_id] by simp
  then show ?thesis
    by (simp add: Post_FindByID_def posts_by_id_def concat_left_join [OF assms(1)] left_join_one [OF assms(1)]
        shown_def and_then_def map_err_def bd_query_ok [OF assms(3)] ok_def)
qed

end
