(* ===== verification/Board.thy ===== *)
theory Board
  imports Board_Repo
begin

text \<open>
  The board use case (\<^verbatim>\<open>services/board/internal/usecase/board.go\<close>) over the interface of posts it declares,
  and browsing: a reader who follows the cursor from page to page while others write.
\<close>

section \<open>The use case\<close>

record 'd post_repo =
  pr_Create :: "post \<Rightarrow> ('d, board_err, post) action"
  pr_List :: "int \<Rightarrow> nat \<Rightarrow> ('d, board_err, post list) action"

definition NewPostRepo :: "(string \<Rightarrow> string) \<Rightarrow> board_db post_repo" where
  "NewPostRepo weight = \<lparr>pr_Create = Post_Create weight, pr_List = Post_List weight\<rparr>"

definition defaultPageSize :: int where "defaultPageSize = 20"
definition maxPageSize :: int where "maxPageSize = 100"

definition CreatePost :: "'d post_repo \<Rightarrow> string \<Rightarrow> string \<Rightarrow> string \<Rightarrow> ('d, board_err, post) action" where
  "CreatePost repo authorID title content =
     (let p = \<lparr>ps_ID = 0, ps_AuthorID = authorID, ps_Title = title, ps_Content = content,
               ps_CreatedAt = None, ps_AuthorNickname = []\<rparr> in
      case Validate p of Some e \<Rightarrow> fail (BoardDomain e) | None \<Rightarrow> pr_Create repo p)"

definition page_size :: "int \<Rightarrow> int" where
  "page_size n = (let n1 = (if n \<le> 0 then defaultPageSize else n) in if n1 > maxPageSize then maxPageSize else n1)"

definition ListPosts :: "'d post_repo \<Rightarrow> int \<Rightarrow> int \<Rightarrow> ('d, board_err, post list \<times> int) action" where
  "ListPosts repo after pageSize =
     (let n = page_size pageSize in
      and_then (pr_List repo after (nat n)) (\<lambda>posts.
      ok (posts, if int (length posts) = n then ps_ID (last posts) else 0)))"

lemma page_size_bounds: "1 \<le> page_size n \<and> page_size n \<le> 100"
  by (simp add: page_size_def defaultPageSize_def maxPageSize_def Let_def)

section \<open>The interface\<close>

text \<open>
  What the use case relies on: the posts of the store, oldest first, with rising positive ids; a page
  holds the newest posts before the cursor, as many as asked for; a created post is appended. The
  posts are compared by what their authors wrote, since nicknames arrive later.
\<close>

record entry =
  en_id :: int
  en_author :: string
  en_title :: string
  en_content :: string

definition entry_of :: "post \<Rightarrow> entry" where
  "entry_of p = \<lparr>en_id = ps_ID p, en_author = ps_AuthorID p, en_title = ps_Title p, en_content = ps_Content p\<rparr>"

lemma en_id_entry [simp]: "en_id (entry_of p) = ps_ID p"
  by (simp add: entry_of_def)

definition newest_before :: "int \<Rightarrow> entry list \<Rightarrow> entry list" where
  "newest_before after es = rev (filter (\<lambda>e. en_id e < (if after = 0 then max_int64 else after)) es)"

text \<open>
  Reading page after page until the cursor is 0; between two pages other writers (the relation \<open>W\<close>)
  may take any number of steps.
\<close>

inductive browse :: "'d post_repo \<Rightarrow> ('d \<Rightarrow> 'd \<Rightarrow> bool) \<Rightarrow> int \<Rightarrow> 'd \<Rightarrow> int \<Rightarrow> post list list \<Rightarrow> bool"
  for repo W n where
  last_page: "ListPosts repo after n d = (Inr (ps, 0), d') \<Longrightarrow> browse repo W n d after [ps]"
| next_page: "ListPosts repo after n d = (Inr (ps, nx), d') \<Longrightarrow> nx \<noteq> 0 \<Longrightarrow> W\<^sup>*\<^sup>* d' d'' \<Longrightarrow>
     browse repo W n d'' nx pss \<Longrightarrow> browse repo W n d after (ps # pss)"

lemma filter_below_nth:
  fixes f :: "'a \<Rightarrow> int"
  assumes "sorted_wrt (>) (map f es)" and "k < length es"
  shows "filter (\<lambda>e. f e < f (es ! k)) es = drop (Suc k) es"
proof -
  have split: "sorted_wrt (>) (map f (take (Suc k) es @ drop (Suc k) es))" using assms(1) by simp
  have at: "es ! k \<in> set (take (Suc k) es)" using assms(2) by (simp add: take_Suc_conv_app_nth)
  have low: "f e < f (es ! k)" if "e \<in> set (drop (Suc k) es)" for e
    using split at that unfolding map_append sorted_wrt_append by auto
  have "sorted_wrt (>) (map f (take k es @ [es ! k]))"
    using split assms(2) by (simp add: sorted_wrt_append take_Suc_conv_app_nth)
  then have "\<not> f e < f (es ! k)" if "e \<in> set (take (Suc k) es)" for e
    using that assms(2) unfolding map_append sorted_wrt_append by (auto simp: take_Suc_conv_app_nth)
  then have "filter (\<lambda>e. f e < f (es ! k)) (take (Suc k) es @ drop (Suc k) es) = drop (Suc k) es"
    unfolding filter_append using low by (auto simp: filter_empty_conv filter_id_conv)
  then show ?thesis by simp
qed

locale post_store =
  fixes repo :: "'d post_repo" and good ready :: "'d \<Rightarrow> bool" and entries :: "'d \<Rightarrow> entry list"
  assumes ids_rise: "good d \<Longrightarrow> sorted_wrt (<) (map en_id (entries d))"
    and ids_pos: "good d \<Longrightarrow> e \<in> set (entries d) \<Longrightarrow> 0 < en_id e"
    and list_page: "good d \<Longrightarrow> pr_List repo after n d = (r, d') \<Longrightarrow> good d' \<and> entries d' = entries d \<and>
      (\<forall>ps. r = Inr ps \<longrightarrow> map entry_of ps = take n (newest_before after (entries d)))"
    and list_ready: "ready d \<Longrightarrow> \<exists>ps d'. pr_List repo after n d = (Inr ps, d') \<and> ready d'"
    and create_post: "good d \<Longrightarrow> pr_Create repo p d = (rc, d') \<Longrightarrow> good d' \<and>
      (isl rc \<and> entries d' = entries d \<or>
       (\<exists>i. entries d' = entries d @ [\<lparr>en_id = i, en_author = ps_AuthorID p, en_title = ps_Title p, en_content = ps_Content p\<rparr>] \<and>
         (\<forall>q. rc = Inr q \<longrightarrow> entry_of q = \<lparr>en_id = i, en_author = ps_AuthorID p, en_title = ps_Title p, en_content = ps_Content p\<rparr>)))"
begin

text \<open>The cursor of the next page: the last id when the page is full.\<close>

lemma ListPosts_page:
  assumes "good d" and "ListPosts repo after n d = (Inr (ps, next), d')"
  shows "good d' \<and> entries d' = entries d \<and>
     map entry_of ps = take (nat (page_size n)) (newest_before after (entries d)) \<and>
     next = (if int (length ps) = page_size n then ps_ID (last ps) else 0)"
proof -
  from assms(2) have "pr_List repo after (nat (page_size n)) d = (Inr ps, d')"
    and "next = (if int (length ps) = page_size n then ps_ID (last ps) else 0)"
    by (auto simp: ListPosts_def Let_def ok_def elim!: and_then_InrE)
  with list_page [OF assms(1)] show ?thesis by blast
qed

lemma before_desc: "good d \<Longrightarrow> sorted_wrt (>) (map en_id (newest_before after (entries d)))"
  using ids_rise [of d] unfolding newest_before_def
  by (simp add: rev_map [symmetric] sorted_wrt_rev) (simp add: sorted_wrt_map sorted_wrt_filter)

text \<open>The posts of the next page are the rest of those before the cursor, whatever was written meanwhile.\<close>

lemma before_next:
  assumes "good d" and "good d''" and "entries d'' = entries d @ new"
    and "0 < k" and "k \<le> length (newest_before after (entries d))"
    and "nx = en_id (newest_before after (entries d) ! (k - 1))"
  shows "nx \<noteq> 0 \<and> newest_before nx (entries d'') = drop k (newest_before after (entries d))"
proof -
  let ?L = "newest_before after (entries d)" and ?cap = "if after = 0 then max_int64 else after"
  have mem: "?L ! (k - 1) \<in> set ?L" using assms(4,5) by simp
  then have old: "?L ! (k - 1) \<in> set (entries d)" and cap: "nx < ?cap"
    using assms(6) by (auto simp: newest_before_def split: if_splits)
  have pos: "0 < nx" using ids_pos [OF assms(1) old] assms(6) by simp
  have above: "nx < en_id e" if "e \<in> set new" for e
    using ids_rise [OF assms(2)] that old assms(6) unfolding assms(3) map_append sorted_wrt_append by auto
  have "newest_before nx (entries d'') = rev (filter (\<lambda>e. en_id e < nx) (entries d @ new))"
    using pos by (simp add: newest_before_def assms(3))
  also have "filter (\<lambda>e. en_id e < nx) (entries d @ new) = filter (\<lambda>e. en_id e < nx) (entries d)"
    using above by (fastforce simp: filter_empty_conv)
  also have "rev (filter (\<lambda>e. en_id e < nx) (entries d)) = filter (\<lambda>e. en_id e < nx) ?L"
    using cap by (auto simp: newest_before_def rev_filter filter_filter intro!: arg_cong [where f = rev] filter_cong)
  also have "\<dots> = drop k ?L"
    using filter_below_nth [OF before_desc [OF assms(1)], of "k - 1" after] assms(4-6) by simp
  finally show ?thesis using pos by simp
qed

text \<open>A full page ends with its last id, and a page that is not full is the last.\<close>

lemma page_next:
  assumes "good d" and "ListPosts repo after n d = (Inr (ps, nx), d')"
  shows "if nat (page_size n) \<le> length (newest_before after (entries d))
     then nx = en_id (newest_before after (entries d) ! (nat (page_size n) - 1)) \<and> nx \<noteq> 0
     else nx = 0"
proof -
  let ?L = "newest_before after (entries d)" and ?n = "nat (page_size n)"
  have n: "0 < ?n" using page_size_bounds [of n] by simp
  note pg = ListPosts_page [OF assms]
  then have len: "length ps = min ?n (length ?L)" by (metis length_map length_take min.commute)
  show ?thesis
  proof (cases "?n \<le> length ?L")
    case True
    have "en_id (entry_of (last ps)) = en_id (last (take ?n ?L))"
      using pg len True n by (metis last_map length_greater_0_conv min.absorb1)
    moreover have "last (take ?n ?L) = ?L ! (?n - 1)"
      using True n by (subst last_conv_nth) (auto simp: min_def)
    ultimately have "nx = en_id (?L ! (?n - 1))" using pg len True n by simp
    with before_next [OF assms(1,1), of "[]" ?n after nx] True n show ?thesis by simp
  next
    case False
    then have "int (length ps) \<noteq> page_size n" using len n by linarith
    then show ?thesis using pg False by simp
  qed
qed

lemma browse_before:
  assumes "browse repo W n d after pss" and "good d"
    and "\<And>x y. W x y \<Longrightarrow> good x \<Longrightarrow> good y \<and> (\<exists>new. entries y = entries x @ new)"
  shows "map entry_of (concat pss) = newest_before after (entries d)"
  using assms(1,2)
proof (induction rule: browse.induct)
  case (last_page after d ps d')
  from page_next [OF last_page.prems last_page.hyps] have "length (newest_before after (entries d)) < nat (page_size n)"
    by (auto split: if_splits)
  then show ?case using ListPosts_page [OF last_page.prems last_page.hyps] by simp
next
  case (next_page after d ps nx d' d'' pss)
  let ?n = "nat (page_size n)" and ?L = "newest_before after (entries d)"
  note pg = ListPosts_page [OF next_page.prems next_page.hyps(1)]
  have later: "good d'' \<and> (\<exists>new. entries d'' = entries d' @ new)"
    using next_page.hyps(3) pg by (induction rule: rtranclp_induct) (use assms(3) in \<open>auto dest!: assms(3)\<close>)
  then obtain new where new: "good d''" "entries d'' = entries d @ new" using pg by auto
  from page_next [OF next_page.prems next_page.hyps(1)] next_page.hyps(2)
  have full: "?n \<le> length ?L" "nx = en_id (?L ! (?n - 1))" by (auto split: if_splits)
  have "0 < ?n" using page_size_bounds [of n] by simp
  with before_next [OF next_page.prems new(1,2)] full have "newest_before nx (entries d'') = drop ?n ?L" by blast
  then show ?case using next_page.IH [OF new(1)] pg by simp
qed

text \<open>Without writers and faults the reader gets to the end, after as many full pages as there are.\<close>

lemma browse_ends:
  assumes "good d" and "ready d"
  shows "\<exists>pss. browse repo W n d after pss \<and>
     length pss = length (newest_before after (entries d)) div nat (page_size n) + 1"
  using assms
proof (induction "length (newest_before after (entries d))" arbitrary: d after rule: less_induct)
  case less
  let ?n = "nat (page_size n)" and ?L = "newest_before after (entries d)"
  have n: "0 < ?n" using page_size_bounds [of n] by simp
  from list_ready [OF less.prems(2), of after ?n] obtain qs d' where l: "pr_List repo after ?n d = (Inr qs, d')" "ready d'"
    by blast
  then obtain ps nx where run: "ListPosts repo after n d = (Inr (ps, nx), d')"
    by (simp add: ListPosts_def Let_def and_then_def ok_def)
  note pg = ListPosts_page [OF less.prems(1) run]
  show ?case
  proof (cases "?n \<le> length ?L")
    case False
    then have "nx = 0" using page_next [OF less.prems(1) run] by simp
    with run False show ?thesis by (intro exI [of _ "[ps]"]) (auto intro: browse.last_page)
  next
    case True
    then have nx: "nx = en_id (?L ! (?n - 1))" "nx \<noteq> 0" using page_next [OF less.prems(1) run] by simp_all
    have rest: "newest_before nx (entries d') = drop ?n ?L"
      using before_next [OF less.prems(1), of d' "[]" ?n after nx] pg True n nx(1) by simp
    then have "length (newest_before nx (entries d')) < length ?L" using n True by simp
    from less.hyps [OF this] pg l(2) obtain pss where "browse repo W n d' nx pss"
      and len: "length pss = length (drop ?n ?L) div ?n + 1" unfolding rest by blast
    then have "browse repo W n d after (ps # pss)" using run nx(2) by (blast intro: browse.next_page)
    moreover have "length ?L div ?n = Suc ((length ?L - ?n) div ?n)"
      using n True by (simp add: le_div_geq)
    ultimately show ?thesis using len by (intro exI [of _ "ps # pss"]) simp
  qed
qed

end

section \<open>MySQL as the store\<close>

definition row_entry :: "post_row \<Rightarrow> entry" where
  "row_entry p = \<lparr>en_id = po_id p, en_author = po_author p, en_title = po_title p, en_content = po_content p\<rparr>"

abbreviation board_entries :: "board_db \<Rightarrow> entry list" where
  "board_entries d \<equiv> map row_entry (bd_posts d)"

lemma row_entry_id [simp]: "en_id (row_entry p) = po_id p"
  by (simp add: row_entry_def)

lemma entry_shown [simp]: "entry_of (shown weight d p) = row_entry p"
  by (simp add: entry_of_def shown_def post_of_row_def row_entry_def)

lemma Post_FindByID_entry:
  assumes "Post_FindByID weight i d = (r, d')" and "board_wf weight d"
  shows "board_wf weight d' \<and> bd_posts d' = bd_posts d \<and>
     (\<forall>q. r = Inr q \<longrightarrow> (\<exists>p \<in> set (bd_posts d). po_id p = i \<and> entry_of q = row_entry p))"
proof -
  obtain s d1 where run: "bd_query (posts_by_id weight i) d = (s, d1)" by fastforce
  from run obtain fs where d1: "d1 = d\<lparr>bd_faults := fs\<rparr>"
    and s: "s = Inr (posts_by_id weight i (d\<lparr>bd_faults := fs\<rparr>)) \<or> isl s" by (rule bd_queryE) auto
  have ps: "posts_by_id weight i (d\<lparr>bd_faults := fs\<rparr>) = map (shown weight d) (filter (\<lambda>p. po_id p = i) (bd_posts d))"
    using concat_left_join [OF assms(2)] by (simp add: posts_by_id_def)
  have "d' = d1" "r = Inr q \<Longrightarrow> q \<in> set (posts_by_id weight i (d\<lparr>bd_faults := fs\<rparr>))" for q
    using assms(1) s by (auto simp: Post_FindByID_def and_then_def map_err_def run ok_def fail_def split: sum.splits list.splits)
  then show ?thesis using d1 assms(2) by (fastforce simp: ps)
qed

text \<open>What the statements do to the entries.\<close>

lemma mysql_list_page:
  assumes wf: "board_wf weight d" and run: "pr_List (NewPostRepo weight) after n d = (r, d')"
  shows "board_wf weight d' \<and> board_entries d' = board_entries d \<and>
      (\<forall>ps. r = Inr ps \<longrightarrow> map entry_of ps = take n (newest_before after (board_entries d)))"
proof -
  let ?a = "if after = 0 then max_int64 else after"
  from run obtain s where q: "bd_query (posts_before weight ?a n) d = (s, d')" and s: "\<forall>ps. r = Inr ps \<longrightarrow> s = Inr ps"
    by (auto simp: NewPostRepo_def Post_List_def elim!: map_errE)
  from q obtain fs where d': "d' = d\<lparr>bd_faults := fs\<rparr>"
    and res: "s = Inr (posts_before weight ?a n (d\<lparr>bd_faults := fs\<rparr>)) \<or> isl s" by (rule bd_queryE) auto
  have "map entry_of (posts_before weight ?a n (d\<lparr>bd_faults := fs\<rparr>)) = take n (newest_before after (board_entries d))"
    using wf by (simp add: posts_before_eq newest_before_def filter_map comp_def take_map rev_map)
  then show ?thesis using wf d' res s by auto
qed

lemma mysql_create_post:
  assumes wf: "board_wf weight d" and run: "pr_Create (NewPostRepo weight) p d = (rc, d')"
  shows "board_wf weight d' \<and> (isl rc \<and> board_entries d' = board_entries d \<or>
      (\<exists>i. board_entries d' = board_entries d @
          [\<lparr>en_id = i, en_author = ps_AuthorID p, en_title = ps_Title p, en_content = ps_Content p\<rparr>] \<and>
        (\<forall>q. rc = Inr q \<longrightarrow>
          entry_of q = \<lparr>en_id = i, en_author = ps_AuthorID p, en_title = ps_Title p, en_content = ps_Content p\<rparr>)))"
proof -
  let ?ins = "insert_post (ps_AuthorID p) (ps_Title p) (ps_Content p)"
  obtain s d1 where ins: "bd_exec ?ins d = (s, d1)" by fastforce
  have cont: "case s of Inl e \<Rightarrow> isl rc \<and> d' = d1 | Inr i \<Rightarrow> Post_FindByID weight i d1 = (rc, d')"
    using run by (auto simp: NewPostRepo_def Post_Create_def and_then_def map_err_def ins split: sum.splits)
  from ins show ?thesis
  proof (cases rule: bd_execE)
    case (unchanged e fs)
    with cont wf show ?thesis by simp
  next
    case (ran i fs)
    have wf1: "board_wf weight d1" using insert_post_wf [OF ran(1)] wf by simp
    have d1: "i = bd_next d" "bd_posts d1 = bd_posts d @ [\<lparr>po_id = bd_next d, po_author = ps_AuthorID p,
        po_title = ps_Title p, po_content = ps_Content p, po_created = bd_now d\<rparr>]"
      using ran(1) by (auto simp: insert_post_def split: if_splits)
    have only: "row_entry x = \<lparr>en_id = i, en_author = ps_AuthorID p, en_title = ps_Title p, en_content = ps_Content p\<rparr>"
      if "x \<in> set (bd_posts d1)" "po_id x = i" for x
      using that wf unfolding d1 board_wf_def by (auto simp: row_entry_def)
    have "board_wf weight d' \<and> bd_posts d' = bd_posts d1 \<and>
      (\<forall>q. rc = Inr q \<longrightarrow> (\<exists>x \<in> set (bd_posts d1). po_id x = i \<and> entry_of q = row_entry x))"
      using cont ran(2) wf1 Post_FindByID_entry [where d = d1] by (auto split: sum.splits)
    then show ?thesis using only by (fastforce simp: d1 row_entry_def)
  qed
qed

interpretation mysql_posts: post_store "NewPostRepo weight" "board_wf weight" "\<lambda>d. bd_faults d = []" board_entries
proof
  fix d d' :: board_db
  show "0 < en_id e" if "board_wf weight d" "e \<in> set (board_entries d)" for e
    using that by (auto simp: board_wf_def)
  show "sorted_wrt (<) (map en_id (board_entries d))" if "board_wf weight d"
    using that by (simp add: board_wf_def comp_def)
  show "\<exists>ps d'. pr_List (NewPostRepo weight) after n d = (Inr ps, d') \<and> bd_faults d' = []" if "bd_faults d = []" for after n
    using that by (simp add: NewPostRepo_def Post_List_def map_err_def bd_query_ok)
qed (rule mysql_list_page mysql_create_post; assumption)+

text \<open>What else writes to the board's tables: posts of others, and nicknames that arrive.\<close>

inductive board_write :: "(string \<Rightarrow> string) \<Rightarrow> board_db \<Rightarrow> board_db \<Rightarrow> bool" for weight where
  posted: "CreatePost (NewPostRepo weight) a t c d = (r, d') \<Longrightarrow> board_write weight d d'"
| named: "bd_exec (upsert_author weight u nick) d = (r, d') \<Longrightarrow> board_write weight d d'"

lemma CreatePost_cases:
  assumes "CreatePost repo a t c d = (r, d')"
  obtains (invalid) "r = Inl (BoardDomain ErrInvalidPost)" and "d' = d"
      and "a = [] \<or> t = [] \<or> c = [] \<or> length t > MaxTitleLen \<or> length c > MaxContentLen"
  | (valid) p where "pr_Create repo p d = (r, d')" and "ps_AuthorID p = a" and "ps_Title p = t" and "ps_Content p = c"
      and "a \<noteq> [] \<and> t \<noteq> [] \<and> c \<noteq> [] \<and> length t \<le> MaxTitleLen \<and> length c \<le> MaxContentLen"
  using assms by (force simp: CreatePost_def Let_def Validate_def fail_def split: if_splits)

lemma board_write_grows:
  assumes "board_write weight d d'" and "board_wf weight d"
  shows "board_wf weight d' \<and> (\<exists>new. board_entries d' = board_entries d @ new)"
  using assms(1)
proof (cases rule: board_write.cases)
  case (posted a t c r)
  then show ?thesis
  proof (cases rule: CreatePost_cases)
    case (valid p)
    with mysql_posts.create_post [OF assms(2) valid(1)] show ?thesis by auto
  qed (use assms(2) in simp)
next
  case (named u nick r)
  then show ?thesis
    by (cases rule: bd_execE) (use assms(2) upsert_author_wf in \<open>fastforce+\<close>)
qed

section \<open>Properties\<close>

lemma newest_all:
  assumes "board_wf weight d" and "bd_next d \<le> max_int64"
  shows "newest_before 0 (board_entries d) = rev (board_entries d)"
proof -
  have "en_id e < max_int64" if "e \<in> set (board_entries d)" for e
    using that assms by (fastforce simp: board_wf_def)
  then show ?thesis by (simp add: newest_before_def del: set_map)
qed

text \<open>What the board shows: every post with the nickname of its author, newest first.\<close>

definition feed :: "(string \<Rightarrow> string) \<Rightarrow> board_db \<Rightarrow> post list" where
  "feed weight d = rev (map (shown weight d) (bd_posts d))"

definition demo_board :: board_db where
  "demo_board = \<lparr>bd_posts = map (\<lambda>i. \<lparr>po_id = i, po_author = ''1'', po_title = ''t'', po_content = ''c'', po_created = demo_day\<rparr>)
     [1, 2, 4], bd_authors = [\<lparr>au_user = ''1'', au_nick = ''ann'', au_updated = demo_day\<rparr>], bd_next = 5,
     bd_now = demo_day, bd_faults = []\<rparr>"

lemma demo_board_wf: "board_wf (\<lambda>x. x) demo_board" "bd_next demo_board < max_int64" "bd_faults demo_board = []"
  by (simp_all add: demo_board_def board_wf_def max_int64_def)

text \<open>
  C10. Browsing shows every post exactly once: a reader who starts without a cursor and follows the
  returned cursors until the end sees exactly the posts that were there when the first page was read,
  newest first, none twice and none missing, whatever page size was asked for and whatever posts and
  nicknames others wrote between the pages. No page has more than 100 posts.
\<close>

theorem browse_complete:
  assumes "board_wf weight d" and "bd_next d \<le> max_int64"
    and "browse (NewPostRepo weight) (board_write weight) n d 0 pages"
  shows "map entry_of (concat pages) = rev (board_entries d) \<and> (\<forall>ps \<in> set pages. length ps \<le> 100)"
proof
  show "map entry_of (concat pages) = rev (board_entries d)"
    using mysql_posts.browse_before [OF assms(3,1) board_write_grows] newest_all [OF assms(1,2)] by simp
  have "good \<Longrightarrow> \<forall>ps \<in> set pages. length ps \<le> 100" if "good = board_wf weight d" for good
    using assms(3) unfolding that
  proof (induction rule: browse.induct)
    case (last_page after d ps d')
    from mysql_posts.ListPosts_page [OF last_page.prems last_page.hyps] page_size_bounds [of n]
    have "length (map entry_of ps) \<le> 100" by (simp del: length_map) linarith
    then show ?case by simp
  next
    case (next_page after d ps nx d' d'' pss)
    note pg = mysql_posts.ListPosts_page [OF next_page.prems next_page.hyps(1)]
    with page_size_bounds [of n] have "length (map entry_of ps) \<le> 100" by (simp del: length_map) linarith
    moreover have "board_wf weight d''"
      using next_page.hyps(3) pg by (induction rule: rtranclp_induct) (auto dest: board_write_grows)
    ultimately show ?case using next_page.IH by simp
  qed
  with assms(1) show "\<forall>ps \<in> set pages. length ps \<le> 100" by blast
qed

text \<open>
  C30. Browsing ends: when the database answers, the reader gets the end cursor after one page more
  than there are full pages before the starting cursor.
\<close>

theorem browse_terminates:
  assumes "board_wf weight d" and "bd_faults d = []" and "bd_next d \<le> max_int64"
  shows "\<exists>pages. browse (NewPostRepo weight) (board_write weight) n d 0 pages \<and>
     length pages = length (bd_posts d) div nat (page_size n) + 1"
  using mysql_posts.browse_ends [OF assms(1,2), of "board_write weight" n 0] newest_all [OF assms(1,3)] by simp

theorem browse_terminates_witness:
  "\<exists>pages. browse (NewPostRepo (\<lambda>x. x)) (board_write (\<lambda>x. x)) 2 demo_board 0 pages \<and> length pages = 2"
proof -
  have pages: "length (bd_posts demo_board) div nat (page_size 2) + 1 = 2"
    by (simp add: page_size_def maxPageSize_def demo_board_def)
  show ?thesis
    using browse_terminates [OF demo_board_wf(1,3) less_imp_le [OF demo_board_wf(2)], of 2] unfolding pages .
qed

theorem browse_complete_witness:
  "\<exists>pages. browse (NewPostRepo (\<lambda>x. x)) (board_write (\<lambda>x. x)) 2 demo_board 0 pages \<and>
     map ps_ID (concat pages) = [4, 2, 1]"
proof -
  obtain pages where b: "browse (NewPostRepo (\<lambda>x. x)) (board_write (\<lambda>x. x)) 2 demo_board 0 pages"
    using mysql_posts.browse_ends [OF demo_board_wf(1,3), of "board_write (\<lambda>x. x)" 2 0] by blast
  have "map en_id (map entry_of (concat pages)) = map en_id (rev (board_entries demo_board))"
    using browse_complete [OF demo_board_wf(1) less_imp_le [OF demo_board_wf(2)] b] by simp
  then have "map ps_ID (concat pages) = [4, 2, 1]" by (simp add: comp_def demo_board_def)
  with b show ?thesis by (intro exI conjI)
qed

text \<open>
  C11. Listing equals its reference: the feed of a board is all its posts, newest first, each with the nickname that
  the read model has for its author (or none). When the database answers, \<open>ListPosts\<close> returns the first posts of the
  feed below the cursor, twenty when no size is asked for and never more than a hundred, and as the next cursor the
  id of the last of them, or 0 when the page is not full; it changes nothing. So the join, the order and the limit of
  the SQL statement compute this slice of the feed.
\<close>

theorem list_posts_reference:
  assumes "board_wf weight d" and "bd_faults d = []"
  shows "ListPosts (NewPostRepo weight) after n d =
    (let size = (if n \<le> 0 then 20 else if n > 100 then 100 else nat n);
         ps = take size (filter (\<lambda>p. after = 0 \<and> ps_ID p < max_int64 \<or> after \<noteq> 0 \<and> ps_ID p < after) (feed weight d))
     in (Inr (ps, if length ps = size then ps_ID (last ps) else 0), d))"
proof -
  let ?size = "if n \<le> 0 then 20 else if n > 100 then 100 else nat n" and ?cap = "if after = 0 then max_int64 else after"
  have size: "page_size n = int ?size"
    by (simp add: page_size_def defaultPageSize_def maxPageSize_def)
  have "posts_before weight ?cap ?size d = take ?size (filter (\<lambda>p. ps_ID p < ?cap) (feed weight d))"
    by (simp add: posts_before_eq [OF assms(1)] feed_def rev_filter rev_map filter_map comp_def take_map)
  moreover have "(\<lambda>p. ps_ID p < ?cap) = (\<lambda>p. after = 0 \<and> ps_ID p < max_int64 \<or> after \<noteq> 0 \<and> ps_ID p < after)"
    by auto
  ultimately have page: "pr_List (NewPostRepo weight) after ?size d =
      (Inr (take ?size (filter (\<lambda>p. after = 0 \<and> ps_ID p < max_int64 \<or> after \<noteq> 0 \<and> ps_ID p < after) (feed weight d))), d)"
    by (simp add: NewPostRepo_def Post_List_def map_err_def bd_query_ok [OF assms(2)])
  show ?thesis unfolding ListPosts_def size Let_def nat_int and_then_def page by (simp add: ok_def)
qed

theorem list_posts_reference_witness:
  "ListPosts (NewPostRepo (\<lambda>x. x)) 4 1 demo_board =
     (Inr ([\<lparr>ps_ID = 2, ps_AuthorID = ''1'', ps_Title = ''t'', ps_Content = ''c'', ps_CreatedAt = Some demo_day,
       ps_AuthorNickname = ''ann''\<rparr>], 2), demo_board)"
  unfolding list_posts_reference [OF demo_board_wf(1,3)]
  by (simp add: feed_def demo_board_def shown_def post_of_row_def nickname_of_def)

text \<open>
  C29. Posting, whatever the database does: an empty field, a title of more than 200 bytes or a
  content of more than 20000 bytes is refused without touching the database; otherwise either the
  call fails and no post was added, or one post was added with a new id, and what the call returns,
  if it returns a post, is that post with the author it was given.
\<close>

theorem create_post_outcome:
  assumes "board_wf weight d" and "CreatePost (NewPostRepo weight) a t c d = (r, d')"
  shows "if a = [] \<or> t = [] \<or> c = [] \<or> length t > 200 \<or> length c > 20000
     then r = Inl (BoardDomain ErrInvalidPost) \<and> d' = d
     else board_wf weight d' \<and> (isl r \<and> board_entries d' = board_entries d \<or>
       (\<exists>i. board_entries d' = board_entries d @ [\<lparr>en_id = i, en_author = a, en_title = t, en_content = c\<rparr>] \<and>
         (\<forall>q. r = Inr q \<longrightarrow> entry_of q = \<lparr>en_id = i, en_author = a, en_title = t, en_content = c\<rparr>)))"
  using assms(2)
proof (cases rule: CreatePost_cases)
  case invalid
  then show ?thesis by (auto simp: MaxTitleLen_def MaxContentLen_def)
next
  case (valid p)
  with mysql_posts.create_post [OF assms(1) valid(1)] show ?thesis
    by (simp add: MaxTitleLen_def MaxContentLen_def)
qed

theorem create_post_outcome_witness:
  "board_entries (snd (CreatePost (NewPostRepo (\<lambda>x. x)) ''1'' [] ''c'' demo_board)) = board_entries demo_board \<and>
   fst (CreatePost (NewPostRepo (\<lambda>x. x)) ''1'' [] ''c'' demo_board) = Inl (BoardDomain ErrInvalidPost)"
  using create_post_outcome [OF demo_board_wf(1) surjective_pairing, of "''1''" "[]" "''c''"] by simp

text \<open>
  A new post is stored and comes first: when the database answers, a post within the limits by
  an author id of at most 64 characters is always accepted, and the first page read after it, of
  whatever size, starts with it.
\<close>

lemma fits_bytes: "length s \<le> n \<Longrightarrow> fits n s"
  unfolding fits_def char_count_def by (rule le_trans [OF length_filter_le])

theorem create_post_listed:
  assumes "board_wf weight d" and "bd_faults d = []" and "bd_next d < max_int64"
    and "a \<noteq> [] \<and> t \<noteq> [] \<and> c \<noteq> []" and "length t \<le> 200" and "length c \<le> 20000" and "fits 64 a"
  shows "\<exists>p d' ps nx. CreatePost (NewPostRepo weight) a t c d = (Inr p, d') \<and>
     ps_ID p = bd_next d \<and> ps_AuthorID p = a \<and> ps_Title p = t \<and> ps_Content p = c \<and>
     ListPosts (NewPostRepo weight) 0 n d' = (Inr (p # ps, nx), d')"
proof -
  let ?row = "\<lparr>po_id = bd_next d, po_author = a, po_title = t, po_content = c, po_created = bd_now d\<rparr>"
  define d' where "d' = d\<lparr>bd_posts := bd_posts d @ [?row], bd_next := bd_next d + 1\<rparr>"
  have ins: "insert_post a t c d = Inr (bd_next d, d')"
    using assms(5-7) by (simp add: insert_post_def fits_bytes d'_def)
  have wf: "board_wf weight d'" by (rule insert_post_wf [OF ins assms(1)])
  have up: "bd_faults d' = []" using assms(2) by (simp add: d'_def)
  have "Post_FindByID weight (po_id ?row) d' = (Inr (shown weight d' ?row), d')"
    by (rule Post_FindByID_row [OF wf _ up]) (simp add: d'_def)
  then have create: "CreatePost (NewPostRepo weight) a t c d = (Inr (shown weight d' ?row), d')"
    using assms(2,4-6) ins
    by (simp add: CreatePost_def Validate_def MaxTitleLen_def MaxContentLen_def NewPostRepo_def Post_Create_def
        and_then_def map_err_def bd_exec_def bd_fault_def Let_def)
  have "filter (\<lambda>p. po_id p < max_int64) (bd_posts d') = filter (\<lambda>p. po_id p < max_int64) (bd_posts d) @ [?row]"
    using assms(3) by (simp add: d'_def)
  then obtain ps where "posts_before weight max_int64 (nat (page_size n)) d' = shown weight d' ?row # ps"
    using page_size_bounds [of n] by (auto simp: posts_before_eq [OF wf] take_Cons' split: if_splits)
  then show ?thesis using create
    by (auto simp: ListPosts_def NewPostRepo_def Post_List_def map_err_def and_then_def bd_query_ok [OF up] ok_def Let_def
        shown_def post_of_row_def)
qed

theorem create_post_listed_witness:
  "\<exists>p d' ps nx. CreatePost (NewPostRepo (\<lambda>x. x)) ''1'' ''hi'' ''yo'' demo_board = (Inr p, d') \<and> ps_ID p = 5 \<and>
     ListPosts (NewPostRepo (\<lambda>x. x)) 0 10 d' = (Inr (p # ps, nx), d')"
  using create_post_listed [OF demo_board_wf(1,3,2), of "''1''" "''hi''" "''yo''" 10]
  by (auto simp: fits_bytes demo_board_def)

end
