(* ===== verification/Consumer.thy ===== *)
theory Consumer
  imports Board Event_Stream
begin

text \<open>
  The board's event consumer (\<^verbatim>\<open>services/board/internal/consumer/consumer.go\<close>): it reads the identity
  events of its consumer group and keeps the read model of authors. The handler, the loop with its
  cursor, and a step relation in which entries arrive, posts are written and the consumer stops
  between any two calls.
\<close>

section \<open>Handling an event\<close>

definition cons_stream :: string where "cons_stream = ''events:user''"
definition cons_group :: string where "cons_group = ''board''"

datatype cons_err = ConsJson | ConsMissing | ConsDb db_err

text \<open>The name of the consumer within its group: the host name, if there is one.\<close>

definition consumer_name :: "string \<Rightarrow> string" where
  "consumer_name host = (if host = [] then ''board-consumer'' else host)"

text \<open>A field of an entry that is not there is the empty string; of equal names the last counts.\<close>

definition entry_value :: "string \<Rightarrow> fields \<Rightarrow> string" where
  "entry_value k f = (case map_of (rev f) k of Some v \<Rightarrow> v | None \<Rightarrow> [])"

definition author_event :: "string \<Rightarrow> cons_err + string \<times> string" where
  "author_event payload = (case parse_doc payload of
      Some (JObj ms) \<Rightarrow> (case (number_field ''user_id'' ms, string_field ''nickname'' ms) of
          (Some u, Some n) \<Rightarrow> if u = [] \<or> n = [] then Inl ConsMissing else Inr (u, n)
        | _ \<Rightarrow> Inl ConsJson)
    | Some JNull \<Rightarrow> Inl ConsMissing
    | _ \<Rightarrow> Inl ConsJson)"

definition upsertAuthor :: "(string \<Rightarrow> string) \<Rightarrow> string \<Rightarrow> (board_db, cons_err, unit) action" where
  "upsertAuthor weight payload = (case author_event payload of
      Inl e \<Rightarrow> fail e
    | Inr (u, n) \<Rightarrow> and_then (map_err ConsDb (bd_exec (upsert_author weight u n))) (\<lambda>_. ok ()))"

definition cons_handle :: "(string \<Rightarrow> string) \<Rightarrow> fields \<Rightarrow> (board_db, cons_err, unit) action" where
  "cons_handle weight f =
     (if entry_value ''event_type'' f = ''user.created'' then upsertAuthor weight (entry_value ''payload'' f)
      else ok ())"

section \<open>The loop\<close>

record 'x cons_world =
  cw_db :: board_db
  cw_x :: 'x

definition contains :: "string \<Rightarrow> string \<Rightarrow> bool" where
  "contains s p = list_ex (\<lambda>i. take (length p) (drop i s) = p) [0..<Suc (length s)]"

text \<open>One batch: what fails is left unacknowledged, and an error of the acknowledgement is dropped.\<close>

fun cons_batch :: "'x streams \<Rightarrow> (string \<Rightarrow> string) \<Rightarrow> message list \<Rightarrow> 'x cons_world \<Rightarrow> 'x cons_world" where
  "cons_batch X weight [] w = w"
| "cons_batch X weight (msg # ms) w = (case cons_handle weight (snd msg) (cw_db w) of
      (Inl e, d) \<Rightarrow> cons_batch X weight ms (w\<lparr>cw_db := d\<rparr>)
    | (Inr _, d) \<Rightarrow> cons_batch X weight ms
        (w\<lparr>cw_db := d, cw_x := snd (xack X cons_stream cons_group (fst msg) (cw_x w))\<rparr>))"

definition next_cursor :: "string \<Rightarrow> string + message list option \<Rightarrow> string" where
  "next_cursor cursor r = (case r of
      Inl e \<Rightarrow> cursor
    | Inr None \<Rightarrow> ''>''
    | Inr (Some ms) \<Rightarrow> if ms = [] \<and> cursor = ''0'' then ''>'' else cursor)"

definition read_batch :: "string + message list option \<Rightarrow> message list" where
  "read_batch r = (case r of Inr (Some ms) \<Rightarrow> ms | _ \<Rightarrow> [])"

definition cons_round ::
  "'x streams \<Rightarrow> (string \<Rightarrow> string) \<Rightarrow> string \<Rightarrow> string \<times> 'x cons_world \<Rightarrow> string \<times> 'x cons_world" where
  "cons_round X weight name cw = (case cw of (cursor, w) \<Rightarrow>
     case xread_group X cons_stream cons_group name cursor 10 (cw_x w) of (r, x) \<Rightarrow>
       (next_cursor cursor r, cons_batch X weight (read_batch r) (w\<lparr>cw_x := x\<rparr>)))"

fun cons_rounds ::
  "'x streams \<Rightarrow> (string \<Rightarrow> string) \<Rightarrow> string \<Rightarrow> nat \<Rightarrow> string \<times> 'x cons_world \<Rightarrow> string \<times> 'x cons_world" where
  "cons_rounds X weight name 0 cw = cw"
| "cons_rounds X weight name (Suc k) cw = cons_rounds X weight name k (cons_round X weight name cw)"

text \<open>\<^verbatim>\<open>Run\<close> until the context is cancelled, after \<open>k\<close> rounds.\<close>

definition cons_Run ::
  "'x streams \<Rightarrow> (string \<Rightarrow> string) \<Rightarrow> string \<Rightarrow> nat \<Rightarrow> 'x cons_world \<Rightarrow> 'x cons_world" where
  "cons_Run X weight name k w = (case xgroup_create X cons_stream cons_group (cw_x w) of
      (Inl e, x) \<Rightarrow> if contains e ''BUSYGROUP'' then snd (cons_rounds X weight name k (''0'', w\<lparr>cw_x := x\<rparr>)) else w\<lparr>cw_x := x\<rparr>
    | (Inr _, x) \<Rightarrow> snd (cons_rounds X weight name k (''0'', w\<lparr>cw_x := x\<rparr>)))"

section \<open>Interleaving\<close>

datatype cons_phase = Handling "message list" | Acking message "message list"

type_synonym 'x cons_conf = "'x cons_world \<times> string \<times> cons_phase"

text \<open>\<open>Ev\<close> is the set of entries that producers append.\<close>

inductive cons_step ::
  "'x streams \<Rightarrow> (string \<Rightarrow> string) \<Rightarrow> string \<Rightarrow> fields set \<Rightarrow> 'x cons_conf \<Rightarrow> 'x cons_conf \<Rightarrow> bool"
  for X weight name Ev where
  starts: "xgroup_create X cons_stream cons_group (cw_x w) = (r, x) \<Longrightarrow>
     cons_step X weight name Ev (w, c, p) (w\<lparr>cw_x := x\<rparr>, ''0'', Handling [])"
| reads: "xread_group X cons_stream cons_group name c 10 (cw_x w) = (r, x) \<Longrightarrow>
     cons_step X weight name Ev (w, c, Handling []) (w\<lparr>cw_x := x\<rparr>, next_cursor c r, Handling (read_batch r))"
| handles: "cons_handle weight (snd msg) (cw_db w) = (r, d) \<Longrightarrow>
     cons_step X weight name Ev (w, c, Handling (msg # ms))
       (w\<lparr>cw_db := d\<rparr>, c, (case r of Inl _ \<Rightarrow> Handling ms | Inr _ \<Rightarrow> Acking msg ms))"
| acks: "xack X cons_stream cons_group (fst msg) (cw_x w) = (r, x) \<Longrightarrow>
     cons_step X weight name Ev (w, c, Acking msg ms) (w\<lparr>cw_x := x\<rparr>, c, Handling ms)"
| restarts: "cons_step X weight name Ev (w, c, p) (w, ''0'', Handling [])"
| produced: "f \<in> Ev \<Longrightarrow> xadd X cons_stream f (cw_x w) = (r, x) \<Longrightarrow>
     cons_step X weight name Ev (w, c, p) (w\<lparr>cw_x := x\<rparr>, c, p)"
| posted: "CreatePost (NewPostRepo weight) a t b (cw_db w) = (r, d) \<Longrightarrow>
     cons_step X weight name Ev (w, c, p) (w\<lparr>cw_db := d\<rparr>, c, p)"

text \<open>The loop without interruption is a sequence of steps.\<close>

lemma cons_batch_steps:
  "(cons_step X weight name Ev)\<^sup>*\<^sup>* (w, c, Handling ms) (cons_batch X weight ms w, c, Handling [])"
proof (induction ms arbitrary: w)
  case (Cons msg ms)
  obtain r d where run: "cons_handle weight (snd msg) (cw_db w) = (r, d)" by fastforce
  note h = cons_step.handles [OF run, of X name Ev c ms]
  show ?case
  proof (cases r)
    case (Inl e)
    with h Cons.IH [of "w\<lparr>cw_db := d\<rparr>"] run show ?thesis by (simp add: converse_rtranclp_into_rtranclp)
  next
    case (Inr u)
    let ?w = "w\<lparr>cw_db := d, cw_x := snd (xack X cons_stream cons_group (fst msg) (cw_x w))\<rparr>"
    have "cons_step X weight name Ev (w\<lparr>cw_db := d\<rparr>, c, Acking msg ms) (?w, c, Handling ms)"
      using cons_step.acks [of X msg "w\<lparr>cw_db := d\<rparr>" _ _ weight name Ev c ms, OF prod.collapse [symmetric]] by simp
    from converse_rtranclp_into_rtranclp [OF this Cons.IH [of ?w]] h run Inr
    show ?thesis by (simp add: converse_rtranclp_into_rtranclp)
  qed
qed simp

lemma cons_rounds_steps:
  "cons_rounds X weight name k (c, w) = (c', w') \<Longrightarrow>
     (cons_step X weight name Ev)\<^sup>*\<^sup>* (w, c, Handling []) (w', c', Handling [])"
proof (induction k arbitrary: c w)
  case (Suc k)
  obtain r x where run: "xread_group X cons_stream cons_group name c 10 (cw_x w) = (r, x)" by fastforce
  let ?w = "cons_batch X weight (read_batch r) (w\<lparr>cw_x := x\<rparr>)"
  have "(cons_step X weight name Ev)\<^sup>*\<^sup>* (w, c, Handling []) (?w, next_cursor c r, Handling [])"
    by (rule converse_rtranclp_into_rtranclp [OF cons_step.reads [OF run] cons_batch_steps])
  moreover have "(cons_step X weight name Ev)\<^sup>*\<^sup>* (?w, next_cursor c r, Handling []) (w', c', Handling [])"
    using Suc by (simp add: cons_round_def run)
  ultimately show ?case by (rule rtranclp_trans)
qed simp

section \<open>What was acknowledged was done\<close>

definition recorded :: "(string \<Rightarrow> string) \<Rightarrow> board_db \<Rightarrow> fields \<Rightarrow> bool" where
  "recorded weight d f \<longleftrightarrow> entry_value ''event_type'' f = ''user.created'' \<longrightarrow>
     (\<exists>u n. author_event (entry_value ''payload'' f) = Inr (u, n) \<and> nickname_of weight d u = n)"

text \<open>Producers that never give one user two names.\<close>

definition names_agree :: "(string \<Rightarrow> string) \<Rightarrow> fields set \<Rightarrow> bool" where
  "names_agree weight Ev \<longleftrightarrow> (\<forall>f \<in> Ev. \<forall>g \<in> Ev. \<forall>u n v m.
     author_event (entry_value ''payload'' f) = Inr (u, n) \<longrightarrow> author_event (entry_value ''payload'' g) = Inr (v, m) \<longrightarrow>
     weight u = weight v \<longrightarrow> n = m)"

lemma cons_handleE:
  assumes "cons_handle weight f d = (r, d')"
  obtains (idle) fs where "d' = d\<lparr>bd_faults := fs\<rparr>"
      and "\<not> isl r \<longrightarrow> entry_value ''event_type'' f \<noteq> ''user.created''"
  | (stored) u n i fs where "entry_value ''event_type'' f = ''user.created''"
      and "author_event (entry_value ''payload'' f) = Inr (u, n)"
      and "upsert_author weight u n (d\<lparr>bd_faults := fs\<rparr>) = Inr (i, d')"
proof (cases "entry_value ''event_type'' f = ''user.created''")
  case False
  then have "d' = d\<lparr>bd_faults := bd_faults d\<rparr>" using assms by (simp add: cons_handle_def ok_def)
  with False that(1) show thesis by blast
next
  case True
  show thesis
  proof (cases "author_event (entry_value ''payload'' f)")
    case (Inl e)
    then have "d' = d\<lparr>bd_faults := bd_faults d\<rparr>" "isl r"
      using assms True by (auto simp: cons_handle_def upsertAuthor_def fail_def)
    then show thesis using that(1) by blast
  next
    case (Inr un)
    obtain u n where un: "un = (u, n)" by fastforce
    obtain s d1 where run: "bd_exec (upsert_author weight u n) d = (s, d1)" by fastforce
    have r: "d' = d1" "isl r = isl s" using assms True Inr un run
      by (auto simp: cons_handle_def upsertAuthor_def and_then_def map_err_def ok_def split: sum.splits)
    from run show thesis
    proof (cases rule: bd_execE)
      case (unchanged e fs)
      with r show thesis using that(1) by simp
    next
      case (ran i fs)
      with r True Inr un show thesis using that(2) by simp
    qed
  qed
qed

lemma nickname_faults [simp]: "nickname_of weight (d\<lparr>bd_faults := fs\<rparr>) = nickname_of weight d"
  by (simp add: nickname_of_def fun_eq_iff)

lemma recorded_faults [simp]: "recorded weight (d\<lparr>bd_faults := fs\<rparr>) f = recorded weight d f"
  by (simp add: recorded_def)

lemma handle_records:
  assumes "cons_handle weight f d = (r, d')" and "names_agree weight Ev" and "f \<in> Ev"
  shows "(\<not> isl r \<longrightarrow> recorded weight d' f) \<and> (\<forall>g \<in> Ev. recorded weight d g \<longrightarrow> recorded weight d' g)"
  using assms(1)
proof (cases rule: cons_handleE)
  case (idle fs)
  then show ?thesis by (auto simp: recorded_def)
next
  case (stored u n i fs)
  note nick = nickname_upsert [OF stored(3)]
  have "recorded weight d' g" if "g \<in> Ev" "recorded weight d g" for g
    using that assms(2,3) stored(2) nick unfolding recorded_def names_agree_def nickname_faults by metis
  then show ?thesis using stored(2) nick by (auto simp: recorded_def)
qed

lemma CreatePost_authors:
  assumes "CreatePost (NewPostRepo weight) a t b d = (r, d')"
  shows "bd_authors d' = bd_authors d"
  using assms
proof (cases rule: CreatePost_cases)
  case (valid p)
  let ?ins = "insert_post (ps_AuthorID p) (ps_Title p) (ps_Content p)"
  have find: "bd_authors d2 = bd_authors d1" if "Post_FindByID weight i d1 = (q, d2)" for i q d1 d2
    using that by (auto simp: Post_FindByID_def ok_def fail_def split: list.splits elim!: and_thenE map_errE bd_queryE)
  have ins: "bd_authors d2 = bd_authors d1" if "?ins d1 = Inr (i, d2)" for i d1 d2
    using that by (auto simp: insert_post_def split: if_splits)
  obtain s d1 where run: "bd_exec ?ins d = (s, d1)" by fastforce
  have "bd_authors d1 = bd_authors d" using run by (rule bd_execE) (use ins in force)+
  moreover have "case s of Inl e \<Rightarrow> d' = d1 | Inr i \<Rightarrow> Post_FindByID weight i d1 = (r, d')"
    using valid(1) by (auto simp: NewPostRepo_def Post_Create_def and_then_def map_err_def run split: sum.splits)
  ultimately show ?thesis using find by (auto split: sum.splits)
qed simp

lemma recorded_authors: "bd_authors d' = bd_authors d \<Longrightarrow> recorded weight d' f = recorded weight d f"
  by (simp add: recorded_def nickname_of_def)

text \<open>
  The invariant: entries come from the producers; an entry given to the consumer is pending or was
  recorded; the entries in hand are entries of the stream, the one to be acknowledged was recorded.
\<close>

definition cons_inv :: "(string \<Rightarrow> string) \<Rightarrow> fields set \<Rightarrow> stream_view \<Rightarrow> board_db \<Rightarrow> bool" where
  "cons_inv weight Ev v d \<longleftrightarrow> snd ` set (sv_log v) \<subseteq> Ev \<and>
     (\<forall>e \<in> set (take (sv_given v) (sv_log v)). fst e \<in> set (sv_pending v) \<or> recorded weight d (snd e))"

fun in_hand :: "(string \<Rightarrow> string) \<Rightarrow> stream_view \<Rightarrow> board_db \<Rightarrow> cons_phase \<Rightarrow> bool" where
  "in_hand weight v d (Handling ms) = (set ms \<subseteq> set (sv_log v))"
| "in_hand weight v d (Acking msg ms) =
     (set (msg # ms) \<subseteq> set (sv_log v) \<and> recorded weight d (snd msg))"

lemma cons_inv_db:
  assumes "cons_inv weight Ev v d" and "\<forall>g \<in> Ev. recorded weight d g \<longrightarrow> recorded weight d' g"
  shows "cons_inv weight Ev v d'"
proof -
  have "fst e \<in> set (sv_pending v) \<or> recorded weight d' (snd e)" if e: "e \<in> set (take (sv_given v) (sv_log v))" for e
  proof -
    have "snd e \<in> Ev" using assms(1) in_set_takeD [OF e] by (auto simp: cons_inv_def)
    moreover have "fst e \<in> set (sv_pending v) \<or> recorded weight d (snd e)" using assms(1) e by (simp add: cons_inv_def)
    ultimately show ?thesis using assms(2) by blast
  qed
  then show ?thesis using assms(1) by (simp add: cons_inv_def)
qed

lemma in_hand_db:
  assumes "in_hand weight v d p" and "snd ` set (sv_log v) \<subseteq> Ev"
    and "\<forall>g \<in> Ev. recorded weight d g \<longrightarrow> recorded weight d' g"
  shows "in_hand weight v d' p"
  using assms by (cases p) auto

lemma cons_inv_give:
  assumes "cons_inv weight Ev v d" and "sv_given v \<le> length (sv_log v)"
  shows "cons_inv weight Ev (view_give n v) d"
proof -
  let ?ms = "take n (drop (sv_given v) (sv_log v))"
  have "take (sv_given v + length ?ms) (sv_log v) = take (sv_given v) (sv_log v) @ ?ms"
    by (simp add: take_add min_def)
  then show ?thesis using assms(1) unfolding cons_inv_def view_give_def by (auto simp: Let_def)
qed

lemma cons_inv_ack:
  assumes "cons_inv weight Ev v d" and "distinct (map fst (sv_log v))" and "msg \<in> set (sv_log v)"
    and "recorded weight d (snd msg)"
  shows "cons_inv weight Ev (view_ack (fst msg) v) d"
proof -
  have "fst e \<in> set (sv_pending v) - {fst msg} \<or> recorded weight d (snd e)"
    if e: "e \<in> set (take (sv_given v) (sv_log v))" for e
  proof (cases "fst e = fst msg")
    case True
    have "e = msg" using assms(2,3) in_set_takeD [OF e] True by (metis eq_key_imp_eq_value prod.collapse)
    with assms(4) show ?thesis by simp
  next
    case False
    with assms(1) e show ?thesis by (auto simp: cons_inv_def)
  qed
  then show ?thesis using assms(1) by (simp add: cons_inv_def view_ack_def)
qed

lemma cons_inv_add:
  assumes "cons_inv weight Ev v d" and "sv_given v \<le> length (sv_log v)" and "f \<in> Ev"
  shows "cons_inv weight Ev (v\<lparr>sv_log := sv_log v @ [(i, f)]\<rparr>) d"
  using assms unfolding cons_inv_def by simp

lemma in_hand_log:
  assumes "in_hand weight v d p" and "set (sv_log v) \<subseteq> set (sv_log v')"
  shows "in_hand weight v' d p"
  using assms by (cases p) auto

text \<open>The invariant of a configuration, over any server that keeps the laws.\<close>

definition cons_conf_inv ::
  "(string \<Rightarrow> string) \<Rightarrow> fields set \<Rightarrow> ('x \<Rightarrow> stream_view) \<Rightarrow> 'x cons_conf \<Rightarrow> bool" where
  "cons_conf_inv weight Ev sview cf \<longleftrightarrow> (case cf of (w, c, p) \<Rightarrow>
     (c = ''0'' \<or> c = ''>'') \<and> cons_inv weight Ev (sview (cw_x w)) (cw_db w) \<and> in_hand weight (sview (cw_x w)) (cw_db w) p)"

locale cons_server = stream_group X cons_stream cons_group name sview
  for X :: "'x streams" and name :: string and sview :: "'x \<Rightarrow> stream_view" +
  fixes weight :: "string \<Rightarrow> string" and Ev :: "fields set"
  assumes agree: "names_agree weight Ev"
begin

lemma read_keeps:
  assumes "xread_group X cons_stream cons_group name c 10 x = (r, x')" and "c = ''0'' \<or> c = ''>''"
    and "cons_inv weight Ev (sview x) d"
  shows "cons_inv weight Ev (sview x') d \<and> sv_log (sview x') = sv_log (sview x) \<and>
     set (read_batch r) \<subseteq> set (sv_log (sview x))"
proof -
  have give: "sv_log (view_give n v) = sv_log v" for n v by (simp add: view_give_def Let_def)
  have new: "set (view_new n v) \<subseteq> set (sv_log v)" for n v
    unfolding view_new_def by (meson order_trans set_drop_subset set_take_subset)
  have pend: "set (view_pending n v) \<subseteq> set (sv_log v)" for n v
    unfolding view_pending_def by (auto dest: in_set_takeD)
  show ?thesis
  proof (cases r)
    case (Inl e)
    with assms read_new_err [of 10 x e x'] read_pending_err [of 10 x e x'] cons_inv_give [OF assms(3) given_le]
    show ?thesis by (auto simp: read_batch_def give)
  next
    case (Inr ro)
    with assms read_new [of 10 x ro x'] read_pending [of 10 x ro x'] cons_inv_give [OF assms(3) given_le]
      new [of 10 "sview x"] pend [of 10 "sview x"]
    show ?thesis by (auto simp: read_batch_def give split: if_splits)
  qed
qed

lemma ack_keeps:
  assumes "xack X cons_stream cons_group (fst msg) x = (r, x')" and "cons_inv weight Ev (sview x) d"
    and "msg \<in> set (slog x)" and "recorded weight d (snd msg)"
  shows "cons_inv weight Ev (sview x') d \<and> slog x' = slog x"
  using assms(1,2) ack_ok [of "fst msg" x _ x'] ack_err [of "fst msg" x _ x']
    cons_inv_ack [OF assms(2) ids_distinct assms(3,4)]
  by (cases r) (auto simp: view_ack_def)

lemma add_keeps:
  assumes "xadd X cons_stream f x = (r, x')" and "cons_inv weight Ev (sview x) d" and "f \<in> Ev"
  shows "cons_inv weight Ev (sview x') d \<and> set (slog x) \<subseteq> set (slog x')"
  using assms(1,2) add_ok [of f x _ x'] add_err [of f x _ x'] cons_inv_add [OF assms(2) given_le assms(3)]
  by (cases r) auto

lemma create_keeps:
  assumes "xgroup_create X cons_stream cons_group x = (r, x')" and "cons_inv weight Ev (sview x) d"
  shows "cons_inv weight Ev (sview x') d"
  using assms create_ok [of x _ x'] create_err [of x _ x'] by (cases r) (auto simp: cons_inv_def)

lemma cons_step_inv:
  assumes "cons_step X weight name Ev cf cf'" and "cons_conf_inv weight Ev sview cf"
  shows "cons_conf_inv weight Ev sview cf'"
  using assms
proof (induction rule: cons_step.induct)
  case (starts w r x c p)
  then show ?case using create_keeps [OF starts.hyps] by (simp add: cons_conf_inv_def)
next
  case (reads c w r x)
  have "next_cursor c r = ''0'' \<or> next_cursor c r = ''>''"
    using reads.prems by (auto simp: next_cursor_def cons_conf_inv_def split: sum.splits option.splits)
  then show ?case using reads.prems read_keeps [OF reads.hyps, of "cw_db w"] by (simp add: cons_conf_inv_def)
next
  case (handles msg w r d c ms)
  let ?v = "sview (cw_x w)"
  have sub: "snd ` set (sv_log ?v) \<subseteq> Ev" and mem: "set (msg # ms) \<subseteq> set (sv_log ?v)"
    using handles.prems by (simp_all add: cons_conf_inv_def cons_inv_def)
  then have "snd msg \<in> Ev" by auto
  note rec = handle_records [OF handles.hyps agree this]
  have "cons_inv weight Ev ?v d" using handles.prems rec by (auto simp: cons_conf_inv_def intro: cons_inv_db)
  then show ?case using handles.prems mem rec by (auto simp: cons_conf_inv_def split: sum.splits)
next
  case (acks msg w r x c ms)
  then show ?case using ack_keeps [OF acks.hyps, of "cw_db w"] by (simp add: cons_conf_inv_def)
next
  case (restarts w c p)
  then show ?case by (simp add: cons_conf_inv_def)
next
  case (produced f w r x c p)
  then show ?case using add_keeps [OF produced.hyps(2) _ produced.hyps(1), of "cw_db w"]
    by (auto simp: cons_conf_inv_def intro: in_hand_log)
next
  case (posted a t b w r d c p)
  note same = recorded_authors [OF CreatePost_authors [OF posted.hyps], where weight = weight]
  from posted.prems have sub: "snd ` set (sv_log (sview (cw_x w))) \<subseteq> Ev" by (simp add: cons_conf_inv_def cons_inv_def)
  show ?case using posted.prems same
    by (auto simp: cons_conf_inv_def intro: cons_inv_db in_hand_db [OF _ sub])
qed

lemma cons_steps_inv:
  "(cons_step X weight name Ev)\<^sup>*\<^sup>* cf cf' \<Longrightarrow> cons_conf_inv weight Ev sview cf \<Longrightarrow> cons_conf_inv weight Ev sview cf'"
  by (induction rule: rtranclp_induct) (auto intro: cons_step_inv)

text \<open>From a fresh group on, what was given and is not pending is recorded.\<close>

lemma settled_recorded:
  assumes "snd ` set (sv_log (sview (cw_x w))) \<subseteq> Ev" and "sv_given (sview (cw_x w)) = 0"
    and "(cons_step X weight name Ev)\<^sup>*\<^sup>* (w, ''0'', Handling []) (w', c, p)"
    and "(i, f) \<in> set (take (sv_given (sview (cw_x w'))) (sv_log (sview (cw_x w'))))"
    and "i \<notin> set (sv_pending (sview (cw_x w')))"
  shows "recorded weight (cw_db w') f"
proof -
  have "cons_conf_inv weight Ev sview (w, ''0'', Handling [])"
    using assms(1,2) by (simp add: cons_conf_inv_def cons_inv_def)
  from cons_steps_inv [OF assms(3) this] assms(4,5) show ?thesis
    by (fastforce simp: cons_conf_inv_def cons_inv_def)
qed

end

text \<open>
  The events of a service in which an account has one nickname: the payload is the document that a
  registration writes, with its two members in any order, since a JSON column of MySQL does not keep the order of
  the members of an object. On them the consumer runs over the log of \<open>Event_Stream\<close>.
\<close>

fun same_object :: "json \<Rightarrow> json \<Rightarrow> bool" where
  "same_object (JObj ms) (JObj ms') = (distinct (map fst ms) \<and> set ms = set ms')"
| "same_object j j' = (j = j')"

lemma same_object_two:
  assumes "same_object j (JObj [a, b])" and "fst a \<noteq> fst b"
  shows "j = JObj [a, b] \<or> j = JObj [b, a]"
proof -
  from assms(1) obtain ms where j: "j = JObj ms" and ms: "distinct (map fst ms)" "set ms = {a, b}" by (cases j) auto
  have "a \<noteq> b" using assms(2) by auto
  moreover have "distinct ms" using ms(1) by (simp add: distinct_map)
  ultimately have "length ms = 2" using ms(2) distinct_card [of ms] by simp
  then obtain x y where "ms = [x, y]" by (auto simp: length_Suc_conv eval_nat_numeral)
  with ms(2) \<open>a \<noteq> b\<close> \<open>distinct ms\<close> j show ?thesis by (auto simp: doubleton_eq_iff)
qed

definition registrations :: "(int \<Rightarrow> string) \<Rightarrow> fields set" where
  "registrations nick = {f. \<exists>u j. parse_doc (entry_value ''payload'' f) = Some j \<and>
     same_object j (JObj [(''nickname'', JStr (nick u)), (''user_id'', JNum (FormatInt u))])}"

lemma author_event_document:
  assumes "parse_doc payload = Some j" and "same_object j (JObj [(''nickname'', JStr n), (''user_id'', JNum (FormatInt u))])"
  shows "author_event payload = (if n = [] then Inl ConsMissing else Inr (FormatInt u, n))"
proof -
  have names: "fold_name ''user_id'' \<noteq> fold_name ''nickname''" by code_simp
  from same_object_two [OF assms(2)] show ?thesis using assms(1) names
    by (auto simp: author_event_def number_field_def string_field_def field_match_def)
qed

lemma registrations_agree:
  assumes "inj_on weight (range FormatInt)"
  shows "names_agree weight (registrations nick)"
  using assms unfolding names_agree_def registrations_def inj_on_def
  by (clarsimp simp: author_event_document split: if_splits) (metis rangeI)

interpretation registered: cons_server "el_streams cons_stream" name "el_view cons_stream" "\<lambda>x. x" "registrations nick"
  for name nick
  by (intro cons_server.intro cons_server_axioms.intro evlog_laws registrations_agree) (simp add: inj_on_def)

text \<open>
  C8. No event is lost: let entries of producers that agree on names arrive, posts be written, the consumer
  start, read, handle, acknowledge, fail and restart between any two calls, over any server
  that keeps the stream laws, starting before anything was given to the group. Then every entry that the
  group was given is still pending for the consumer, or its effect is in the read model: if it announces a user, then
  its payload was well formed and the board shows that user's nickname.
\<close>

theorem consumer_no_loss:
  assumes "stream_group X cons_stream cons_group name sview" and "names_agree weight Ev"
    and "snd ` set (sv_log (sview (cw_x w))) \<subseteq> Ev" and "sv_given (sview (cw_x w)) = 0"
    and "(cons_step X weight name Ev)\<^sup>*\<^sup>* (w, ''0'', Handling []) (w', c, p)"
    and "(i, f) \<in> set (take (sv_given (sview (cw_x w'))) (sv_log (sview (cw_x w'))))"
    and "i \<notin> set (sv_pending (sview (cw_x w')))"
    and "entry_value ''event_type'' f = ''user.created''"
  shows "\<exists>u n. author_event (entry_value ''payload'' f) = Inr (u, n) \<and> nickname_of weight (cw_db w') u = n"
proof -
  have srv: "cons_server X name sview weight Ev"
    using assms(1,2) by (intro cons_server.intro cons_server_axioms.intro)
  from cons_server.settled_recorded [OF srv assms(3-7)] assms(8) show ?thesis by (simp add: recorded_def)
qed

section \<open>A malformed event stops the consumer\<close>

lemma cons_batch_pending:
  assumes lib: "stream_group X cons_stream cons_group name sview"
    and "set ms \<subseteq> set (sv_log (sview (cw_x w)))" and "(i, f) \<in> set (sv_log (sview (cw_x w)))"
    and "i \<in> set (sv_pending (sview (cw_x w)))"
    and "entry_value ''event_type'' f = ''user.created''" and "author_event (entry_value ''payload'' f) = Inl e"
  shows "let v = sview (cw_x w); v' = sview (cw_x (cons_batch X weight ms w)) in
     sv_log v' = sv_log v \<and> sv_given v' = sv_given v \<and> i \<in> set (sv_pending v')"
  using assms(2-4)
proof (induction ms arbitrary: w)
  case (Cons msg ms)
  obtain r d where run: "cons_handle weight (snd msg) (cw_db w) = (r, d)" by fastforce
  show ?case
  proof (cases r)
    case (Inl x)
    with run Cons.IH [of "w\<lparr>cw_db := d\<rparr>"] Cons.prems show ?thesis by simp
  next
    case (Inr u)
    have "snd msg \<noteq> f" using run Inr assms(5,6) by (auto simp: cons_handle_def upsertAuthor_def fail_def)
    moreover have "distinct (map fst (sv_log (sview (cw_x w))))" using stream_group.ids_distinct [OF lib] .
    ultimately have other: "fst msg \<noteq> i" using Cons.prems(1,2)
      by (metis eq_key_imp_eq_value insert_subset list.simps(15) prod.collapse)
    obtain q x where ack: "xack X cons_stream cons_group (fst msg) (cw_x w) = (q, x)" by fastforce
    have v: "sview x = sview (cw_x w) \<or> sview x = view_ack (fst msg) (sview (cw_x w))"
      using ack stream_group.ack_ok [OF lib, of "fst msg" "cw_x w" _ x] stream_group.ack_err [OF lib, of "fst msg" "cw_x w" _ x]
      by (cases q) auto
    then have keep: "sv_log (sview x) = sv_log (sview (cw_x w))" "sv_given (sview x) = sv_given (sview (cw_x w))"
      "i \<in> set (sv_pending (sview x))" using other Cons.prems(3) by (auto simp: view_ack_def)
    show ?thesis using Cons.IH [of "w\<lparr>cw_db := d, cw_x := x\<rparr>"] Cons.prems keep run Inr ack by simp
  qed
qed simp

text \<open>
  C32. A pending event that cannot be parsed stops the consumer: when it starts with such an entry
  among its pending ones, it reads the backlog forever; however many rounds it makes, the cursor never
  moves to new entries and the group is given no entry that it was not given before.
\<close>

theorem poison_event_stalls:
  assumes "stream_group X cons_stream cons_group name sview"
    and "(i, f) \<in> set (sv_log (sview (cw_x w)))" and "i \<in> set (sv_pending (sview (cw_x w)))"
    and "entry_value ''event_type'' f = ''user.created''" and "author_event (entry_value ''payload'' f) = Inl e"
  shows "case cons_rounds X weight name k (''0'', w) of (c, w') \<Rightarrow>
     c = ''0'' \<and> sv_given (sview (cw_x w')) = sv_given (sview (cw_x w)) \<and> i \<in> set (sv_pending (sview (cw_x w')))"
  using assms(2,3)
proof (induction k arbitrary: w)
  case (Suc k)
  let ?v = "sview (cw_x w)"
  obtain r x where run: "xread_group X cons_stream cons_group name ''0'' 10 (cw_x w) = (r, x)" by fastforce
  have x: "sview x = ?v \<and> (r = Inr (Some (view_pending 10 ?v)) \<or> isl r)"
    using run stream_group.read_pending [OF assms(1), of 10 "cw_x w" _ x]
      stream_group.read_pending_err [OF assms(1), of 10 "cw_x w" _ x] by (cases r) auto
  have "(i, f) \<in> set (filter (\<lambda>m. fst m \<in> set (sv_pending ?v)) (sv_log ?v))" using Suc.prems by simp
  then have "view_pending 10 ?v \<noteq> []" unfolding view_pending_def by (metis empty_iff empty_set numeral_eq_Suc take_eq_Nil zero_neq_numeral)
  then have c: "next_cursor ''0'' r = ''0''" using x by (auto simp: next_cursor_def split: sum.splits)
  have sub: "set (read_batch r) \<subseteq> set (sv_log (sview x))"
    using x by (auto simp: read_batch_def view_pending_def dest: in_set_takeD split: sum.splits option.splits)
  let ?w = "cons_batch X weight (read_batch r) (w\<lparr>cw_x := x\<rparr>)"
  have inv: "sv_log (sview (cw_x ?w)) = sv_log ?v \<and> sv_given (sview (cw_x ?w)) = sv_given ?v \<and> i \<in> set (sv_pending (sview (cw_x ?w)))"
    using cons_batch_pending [OF assms(1), of "read_batch r" "w\<lparr>cw_x := x\<rparr>" i f e weight] sub x Suc.prems assms(4,5)
    by (simp add: Let_def)
  then show ?case using Suc.IH [of ?w] Suc.prems by (simp add: cons_round_def run c)
qed simp

section \<open>Catching up\<close>

text \<open>A server that answers, and entries that the handler accepts.\<close>

definition serves :: "'x streams \<Rightarrow> string \<Rightarrow> ('x \<Rightarrow> bool) \<Rightarrow> bool" where
  "serves X name up \<longleftrightarrow> (\<forall>x. up x \<longrightarrow>
     (\<forall>c n. c = ''0'' \<or> c = ''>'' \<longrightarrow> (\<exists>r x'. xread_group X cons_stream cons_group name c n x = (Inr r, x') \<and> up x')) \<and>
     (\<forall>i. \<exists>x'. xack X cons_stream cons_group i x = (Inr (), x') \<and> up x'))"

definition acceptable :: "fields \<Rightarrow> bool" where
  "acceptable f \<longleftrightarrow> entry_value ''event_type'' f = ''user.created'' \<longrightarrow>
     (case author_event (entry_value ''payload'' f) of Inl e \<Rightarrow> False | Inr (u, n) \<Rightarrow> fits 64 u \<and> fits 50 n)"

lemma handle_ok:
  assumes "acceptable f" and "bd_faults d = []"
  shows "\<exists>d'. cons_handle weight f d = (Inr (), d') \<and> bd_faults d' = []"
  using assms
  by (auto simp: acceptable_def cons_handle_def upsertAuthor_def and_then_def map_err_def ok_def bd_exec_def
      bd_fault_def upsert_author_def split: sum.splits)

lemma removeAll_filter: "filter (\<lambda>i. i \<notin> S) (removeAll a xs) = filter (\<lambda>i. i \<notin> insert a S) xs"
  by (induction xs) auto

lemma cons_batch_ok:
  assumes lib: "stream_group X cons_stream cons_group name sview" and srv: "serves X name up"
    and "up (cw_x w)" and "bd_faults (cw_db w) = []" and "\<forall>m \<in> set ms. acceptable (snd m)"
  shows "let w' = cons_batch X weight ms w; v = sview (cw_x w) in up (cw_x w') \<and> bd_faults (cw_db w') = [] \<and>
     sview (cw_x w') = v\<lparr>sv_pending := filter (\<lambda>i. i \<notin> fst ` set ms) (sv_pending v)\<rparr>"
  using assms(3-5)
proof (induction ms arbitrary: w)
  case (Cons msg ms)
  from handle_ok [of "snd msg" "cw_db w" weight] Cons.prems obtain d
    where run: "cons_handle weight (snd msg) (cw_db w) = (Inr (), d)" "bd_faults d = []" by auto
  from srv Cons.prems(1) obtain x where ack: "xack X cons_stream cons_group (fst msg) (cw_x w) = (Inr (), x)" "up x"
    unfolding serves_def by blast
  have v: "sview x = view_ack (fst msg) (sview (cw_x w))" using stream_group.ack_ok [OF lib ack(1)] .
  show ?case using Cons.IH [of "w\<lparr>cw_db := d, cw_x := x\<rparr>"] Cons.prems run ack v
    by (simp add: Let_def view_ack_def removeAll_filter)
qed (simp add: Let_def)

definition backlog :: "stream_view \<Rightarrow> message list" where
  "backlog v = filter (\<lambda>m. fst m \<in> set (sv_pending v)) (sv_log v)"

definition cons_debt :: "string \<Rightarrow> stream_view \<Rightarrow> nat" where
  "cons_debt c v = (if c = ''0'' then Suc (length (backlog v)) else 0) + (length (sv_log v) - sv_given v)"

lemma filter_minus_take:
  assumes "distinct (map fst xs)"
  shows "filter (\<lambda>m. P m \<and> fst m \<notin> fst ` set (take k (filter P xs))) xs = drop k (filter P xs)"
proof -
  let ?F = "filter P xs"
  have "distinct (map fst (take k ?F @ drop k ?F))" using assms by (simp add: distinct_map_filter)
  then have "fst ` set (take k ?F) \<inter> fst ` set (drop k ?F) = {}"
    unfolding map_append distinct_append set_map by blast
  then have "filter (\<lambda>m. fst m \<notin> fst ` set (take k ?F)) (take k ?F @ drop k ?F) = drop k ?F"
    unfolding filter_append by (auto simp: filter_empty_conv filter_id_conv)
  then show ?thesis by (simp add: conj_commute)
qed

text \<open>One round pays at least one unit of the debt.\<close>

lemma no_backlog:
  assumes "stream_group X cons_stream cons_group name sview" and "backlog (sview x) = []"
  shows "sv_pending (sview x) = []"
proof (rule ccontr)
  assume "sv_pending (sview x) \<noteq> []"
  then obtain i where i: "i \<in> set (sv_pending (sview x))" by (cases "sv_pending (sview x)") auto
  with stream_group.pending_given [OF assms(1), of x]
  have "i \<in> set (map fst (take (sv_given (sview x)) (sv_log (sview x))))" by blast
  then obtain m where "m \<in> set (sv_log (sview x))" "fst m = i" by (auto dest: in_set_takeD)
  then have "m \<in> set (backlog (sview x))" using i by (simp add: backlog_def)
  with assms(2) show False by simp
qed

lemma cons_round_debt:
  assumes lib: "stream_group X cons_stream cons_group name sview" and srv: "serves X name up"
    and up: "up (cw_x w)" and ok: "bd_faults (cw_db w) = []" and acc: "\<forall>m \<in> set (sv_log (sview (cw_x w))). acceptable (snd m)"
    and c: "c = ''0'' \<or> c = ''>'' \<and> sv_pending (sview (cw_x w)) = []"
  shows "case cons_round X weight name (c, w) of (c', w') \<Rightarrow> up (cw_x w') \<and> bd_faults (cw_db w') = [] \<and>
     sv_log (sview (cw_x w')) = sv_log (sview (cw_x w)) \<and> (c' = ''0'' \<or> c' = ''>'' \<and> sv_pending (sview (cw_x w')) = []) \<and>
     cons_debt c' (sview (cw_x w')) \<le> cons_debt c (sview (cw_x w)) - 1"
proof -
  let ?v = "sview (cw_x w)"
  from srv up c obtain ro x where run: "xread_group X cons_stream cons_group name c 10 (cw_x w) = (Inr ro, x)" "up x"
    unfolding serves_def by metis
  let ?ms = "read_batch (Inr ro :: string + message list option)"
  have round: "cons_round X weight name (c, w) = (next_cursor c (Inr ro), cons_batch X weight ?ms (w\<lparr>cw_x := x\<rparr>))"
    by (simp add: cons_round_def run(1))
  have batch: "let w' = cons_batch X weight ?ms (w\<lparr>cw_x := x\<rparr>) in up (cw_x w') \<and> bd_faults (cw_db w') = [] \<and>
     sview (cw_x w') = (sview x)\<lparr>sv_pending := filter (\<lambda>i. i \<notin> fst ` set ?ms) (sv_pending (sview x))\<rparr>"
    if sub: "set ?ms \<subseteq> set (sv_log ?v)"
  proof -
    have "\<forall>m \<in> set ?ms. acceptable (snd m)" using acc sub by blast
    with cons_batch_ok [OF lib srv, of "w\<lparr>cw_x := x\<rparr>" ?ms weight] run(2) ok show ?thesis by (simp add: Let_def)
  qed
  show ?thesis
  proof (cases "c = ''0''")
    case True
    have x: "sview x = ?v" "ro = Some (view_pending 10 ?v)"
      using stream_group.read_pending [OF lib] run(1) True by blast+
    have ms: "?ms = take 10 (backlog ?v)" by (simp add: read_batch_def x view_pending_def backlog_def)
    have left: "backlog (?v\<lparr>sv_pending := filter (\<lambda>i. i \<notin> fst ` set ?ms) (sv_pending ?v)\<rparr>) = drop 10 (backlog ?v)"
      unfolding ms using filter_minus_take [OF stream_group.ids_distinct [OF lib], where k = 10] by (simp add: backlog_def)
    have sub: "set ?ms \<subseteq> set (sv_log ?v)" unfolding ms backlog_def by (auto dest: in_set_takeD)
    have "sv_pending ?v = []" if "backlog ?v = []" by (rule no_backlog [OF lib that])
    moreover have "next_cursor c (Inr ro) = (if backlog ?v = [] then ''>'' else ''0'')"
      using True ms by (simp add: next_cursor_def x read_batch_def)
    moreover have "Suc (length (backlog ?v) - 10) \<le> length (backlog ?v)" if "backlog ?v \<noteq> []"
      using that by (cases "backlog ?v") auto
    moreover note batch [OF sub] left ms x True
    ultimately show ?thesis unfolding round by (cases "backlog ?v = []") (auto simp: cons_debt_def Let_def)
  next
    case False
    with c have gt: "c = ''>''" "sv_pending ?v = []" by auto
    have x: "sview x = view_give 10 ?v" "ro = (if view_new 10 ?v = [] then None else Some (view_new 10 ?v))"
      using stream_group.read_new [OF lib] run(1) gt(1) by blast+
    have ms: "?ms = view_new 10 ?v" by (simp add: read_batch_def x)
    have sub: "set ?ms \<subseteq> set (sv_log ?v)" unfolding ms view_new_def by (meson order_trans set_drop_subset set_take_subset)
    have "next_cursor ''>'' (Inr ro) = ''>''" by (simp add: next_cursor_def split: option.splits)
    moreover have "filter (\<lambda>i. i \<notin> fst ` set ?ms) (sv_pending (sview x)) = []"
      using gt(2) unfolding ms x(1) by (force simp: view_give_def view_new_def Let_def filter_empty_conv)
    ultimately show ?thesis using batch [OF sub] gt stream_group.given_le [OF lib, of "cw_x w"]
      unfolding round by (auto simp: cons_debt_def Let_def x view_give_def)
  qed
qed

lemma cons_rounds_paid:
  assumes "stream_group X cons_stream cons_group name sview" and "serves X name up"
    and "up (cw_x w)" and "bd_faults (cw_db w) = []" and "\<forall>m \<in> set (sv_log (sview (cw_x w))). acceptable (snd m)"
    and "length (sv_log (sview (cw_x w))) < k"
  shows "let v = sview (cw_x (snd (cons_rounds X weight name k (''0'', w)))) in
     sv_log v = sv_log (sview (cw_x w)) \<and> sv_given v = length (sv_log (sview (cw_x w))) \<and> sv_pending v = []"
proof -
  have paid: "let v = sview (cw_x (snd (cons_rounds X weight name k (c, w)))) in
      sv_log v = sv_log (sview (cw_x w)) \<and> sv_given v = length (sv_log (sview (cw_x w))) \<and> sv_pending v = []"
    if "up (cw_x w)" "bd_faults (cw_db w) = []" "\<forall>m \<in> set (sv_log (sview (cw_x w))). acceptable (snd m)"
      "c = ''0'' \<or> c = ''>'' \<and> sv_pending (sview (cw_x w)) = []" "cons_debt c (sview (cw_x w)) \<le> k" for c w
    using that
  proof (induction k arbitrary: c w)
    case 0
    then show ?case using stream_group.given_le [OF assms(1), of "cw_x w"]
      by (auto simp: cons_debt_def split: if_splits)
  next
    case (Suc k)
    obtain c1 w1 where one: "cons_round X weight name (c, w) = (c1, w1)" by fastforce
    note step = cons_round_debt [OF assms(1,2) Suc.prems(1-4), of weight, unfolded one prod.case]
    then have "cons_debt c1 (sview (cw_x w1)) \<le> k" using Suc.prems(5) by linarith
    with step Suc.prems(3) Suc.IH [of w1 c1] show ?case by (simp add: one Let_def)
  qed
  let ?v = "sview (cw_x w)"
  have "length (backlog ?v) \<le> sv_given ?v"
  proof -
    have given: "\<forall>m \<in> set (drop (sv_given ?v) (sv_log ?v)). fst m \<notin> set (sv_pending ?v)"
    proof -
      have "distinct (map fst (take (sv_given ?v) (sv_log ?v) @ drop (sv_given ?v) (sv_log ?v)))"
        using stream_group.ids_distinct [OF assms(1)] by simp
      then show ?thesis using stream_group.pending_given [OF assms(1), of "cw_x w"]
        unfolding map_append distinct_append set_map by blast
    qed
    have "backlog ?v = filter (\<lambda>m. fst m \<in> set (sv_pending ?v)) (take (sv_given ?v) (sv_log ?v) @ drop (sv_given ?v) (sv_log ?v))"
      by (simp add: backlog_def)
    also have "\<dots> = filter (\<lambda>m. fst m \<in> set (sv_pending ?v)) (take (sv_given ?v) (sv_log ?v))"
      unfolding filter_append using given by (simp add: filter_empty_conv)
    finally show ?thesis by (metis length_filter_le length_take min.bounded_iff)
  qed
  then have "cons_debt ''0'' ?v \<le> k"
    using assms(6) stream_group.given_le [OF assms(1), of "cw_x w"] by (simp add: cons_debt_def)
  then show ?thesis using paid assms(3-5) by blast
qed

text \<open>
  C31. The consumer catches up. When the server and the database answer, every entry of the stream is acceptable (it announces no user,
  or its payload has a user id and a nickname that fit their columns; a malformed entry stalls the consumer, as shown above), no
  two entries give one user different names, and what was acknowledged before is in the read model, then after at most as many
  rounds as there are entries, and one, every entry of the stream was given to the consumer and acknowledged, nothing is
  pending, and every entry has taken effect: the board shows the nickname of every user that the stream announces.
\<close>

theorem consumer_catches_up:
  assumes "stream_group X cons_stream cons_group name sview" and "serves X name up"
    and "up (cw_x w)" and "bd_faults (cw_db w) = []" and "\<forall>m \<in> set (sv_log (sview (cw_x w))). acceptable (snd m)"
    and "names_agree weight (snd ` set (sv_log (sview (cw_x w))))"
    and "\<forall>m \<in> set (take (sv_given (sview (cw_x w))) (sv_log (sview (cw_x w)))).
      fst m \<in> set (sv_pending (sview (cw_x w))) \<or> recorded weight (cw_db w) (snd m)"
    and "length (sv_log (sview (cw_x w))) < k"
  shows "let w' = snd (cons_rounds X weight name k (''0'', w)); v = sview (cw_x w') in
     sv_log v = sv_log (sview (cw_x w)) \<and> sv_given v = length (sv_log v) \<and> sv_pending v = [] \<and>
     (\<forall>(i, f) \<in> set (sv_log v). entry_value ''event_type'' f = ''user.created'' \<longrightarrow>
        (\<exists>u n. author_event (entry_value ''payload'' f) = Inr (u, n) \<and> nickname_of weight (cw_db w') u = n))"
proof -
  let ?Ev = "snd ` set (sv_log (sview (cw_x w)))"
  obtain c' w' where run: "cons_rounds X weight name k (''0'', w) = (c', w')" by fastforce
  have srv: "cons_server X name sview weight ?Ev" using assms(1,6) by (intro cons_server.intro cons_server_axioms.intro)
  have "cons_conf_inv weight ?Ev sview (w, ''0'', Handling [])"
    using assms(7) by (simp add: cons_conf_inv_def cons_inv_def)
  from cons_server.cons_steps_inv [OF srv cons_rounds_steps [OF run] this]
  have "cons_inv weight ?Ev (sview (cw_x w')) (cw_db w')" by (simp add: cons_conf_inv_def)
  with cons_rounds_paid [OF assms(1-5,8), of weight] show ?thesis
    by (fastforce simp: run Let_def cons_inv_def recorded_def)
qed

section \<open>Concrete streams\<close>

definition demo_event :: "string \<Rightarrow> fields" where
  "demo_event payload = [(''event_type'', ''user.created''), (''payload'', payload)]"

definition demo_stream :: "fields list \<Rightarrow> nat list \<Rightarrow> evlog" where
  "demo_stream fs pend = \<lparr>el_entries = (\<lambda>_. [])(cons_stream := fs), el_given = length pend, el_pending = pend, el_faults = []\<rparr>"

definition demo_consumer :: "evlog cons_world" where
  "demo_consumer = \<lparr>cw_db = demo_board\<lparr>bd_authors := []\<rparr>, cw_x = demo_stream [demo_event (created_payload 1 ''ann'')] []\<rparr>"

lemma demo_event_values [simp]:
  "entry_value ''event_type'' (demo_event p) = ''user.created''" "entry_value ''payload'' (demo_event p) = p"
  by (simp_all add: entry_value_def demo_event_def)

lemma demo_event_author: "author_event (created_payload 1 ''ann'') = Inr (FormatInt 1, ''ann'')"
  using author_event_document [OF created_payload_doc, of "''ann''" 1] by simp

lemma el_serves: "serves (el_streams cons_stream) name (\<lambda>x. el_faults x = [])"
  by (auto simp: serves_def el_streams_def el_run_def el_take_def Let_def)

lemma demo_log: "sv_log (el_view cons_stream (demo_stream [f] p)) = [(FormatInt 0, f)]"
  by (simp add: demo_stream_def el_view_def el_messages_def Let_def)

lemma demo_acceptable: "acceptable (demo_event (created_payload 1 ''ann''))"
proof -
  have "fits 64 (FormatInt 1)" "fits 50 ''ann''" by code_simp+
  then show ?thesis by (simp add: acceptable_def demo_event_author)
qed

lemma demo_paid:
  "let v = el_view cons_stream (cw_x (snd (cons_rounds (el_streams cons_stream) weight name 2 (''0'', demo_consumer)))) in
     sv_log v = [(FormatInt 0, demo_event (created_payload 1 ''ann''))] \<and> sv_given v = 1 \<and> sv_pending v = []"
  using cons_rounds_paid [OF evlog_laws el_serves, of demo_consumer 2 weight name]
  by (simp add: demo_consumer_def demo_log demo_acceptable Let_def) (simp add: demo_stream_def demo_board_def)

theorem consumer_catches_up_witness:
  "let w' = snd (cons_rounds (el_streams cons_stream) (\<lambda>x. x) ''h'' 2 (''0'', demo_consumer)) in
     sv_given (el_view cons_stream (cw_x w')) = 1 \<and> nickname_of (\<lambda>x. x) (cw_db w') (FormatInt 1) = ''ann''"
proof -
  let ?f = "demo_event (created_payload 1 ''ann'')" and ?w = demo_consumer
  have x: "sv_log (el_view cons_stream (cw_x ?w)) = [(FormatInt 0, ?f)]" "sv_given (el_view cons_stream (cw_x ?w)) = 0"
    by (simp_all add: demo_consumer_def demo_log) (simp add: demo_stream_def el_view_def Let_def)
  have ok: "el_faults (cw_x ?w) = []" "bd_faults (cw_db ?w) = []"
    by (simp_all add: demo_consumer_def demo_stream_def demo_board_def)
  have "names_agree (\<lambda>x. x) {?f}" by (simp add: names_agree_def demo_event_author)
  with consumer_catches_up [OF evlog_laws el_serves ok, of "\<lambda>x. x" 2 "''h''"] x
  have res: "let w' = snd (cons_rounds (el_streams cons_stream) (\<lambda>x. x) ''h'' 2 (''0'', ?w)); v = el_view cons_stream (cw_x w') in
     sv_log v = [(FormatInt 0, ?f)] \<and> sv_given v = length (sv_log v) \<and> sv_pending v = [] \<and>
     (\<forall>(i, f) \<in> set (sv_log v). entry_value ''event_type'' f = ''user.created'' \<longrightarrow>
        (\<exists>u n. author_event (entry_value ''payload'' f) = Inr (u, n) \<and> nickname_of (\<lambda>x. x) (cw_db w') u = n))"
    by (simp only: demo_acceptable list.set ball_simps image_insert image_empty snd_conv take_0 list.size)
  then have log: "sv_log (el_view cons_stream (cw_x (snd (cons_rounds (el_streams cons_stream) (\<lambda>x. x) ''h'' 2 (''0'', ?w))))) = [(FormatInt 0, ?f)]"
    by (simp only: Let_def)
  from res show ?thesis unfolding Let_def log by (auto simp: demo_event_author)
qed

theorem consumer_no_loss_witness:
  "nickname_of (\<lambda>x. x) (cw_db (snd (cons_rounds (el_streams cons_stream) (\<lambda>x. x) ''h'' 2 (''0'', demo_consumer)))) (FormatInt 1) = ''ann''"
proof -
  let ?f = "demo_event (created_payload 1 ''ann'')"
  obtain c w where run: "cons_rounds (el_streams cons_stream) (\<lambda>x. x) ''h'' 2 (''0'', demo_consumer) = (c, w)" by fastforce
  have agree: "names_agree (\<lambda>x. x) {?f}" by (simp add: names_agree_def demo_event_author)
  have start: "snd ` set (sv_log (el_view cons_stream (cw_x demo_consumer))) \<subseteq> {?f}"
    "sv_given (el_view cons_stream (cw_x demo_consumer)) = 0"
    by (simp_all add: demo_consumer_def demo_log) (simp add: demo_stream_def el_view_def Let_def)
  have "\<exists>u n. author_event (entry_value ''payload'' ?f) = Inr (u, n) \<and> nickname_of (\<lambda>x. x) (cw_db w) u = n"
    by (rule consumer_no_loss [OF evlog_laws agree start cons_rounds_steps [OF run], of "FormatInt 0"])
      (use demo_paid [of "\<lambda>x. x" "''h''"] in \<open>simp_all add: run Let_def\<close>)
  then show ?thesis by (simp add: demo_event_author run)
qed

theorem poison_event_stalls_witness:
  "fst (cons_rounds (el_streams cons_stream) (\<lambda>x. x) ''h'' 50
     (''0'', demo_consumer\<lparr>cw_x := demo_stream [demo_event ''x'', demo_event (created_payload 1 ''ann'')] [0]\<rparr>)) = ''0''"
proof -
  have bad: "author_event (entry_value ''payload'' (demo_event ''x'')) = Inl ConsJson" by code_simp
  let ?w = "demo_consumer\<lparr>cw_x := demo_stream [demo_event ''x'', demo_event (created_payload 1 ''ann'')] [0]\<rparr>"
  have "(FormatInt 0, demo_event ''x'') \<in> set (sv_log (el_view cons_stream (cw_x ?w)))"
    "FormatInt 0 \<in> set (sv_pending (el_view cons_stream (cw_x ?w)))"
    by (simp_all add: demo_stream_def el_view_def el_messages_def Let_def)
  from poison_event_stalls [OF evlog_laws this _ bad, of "\<lambda>x. x" "''h''" 50] show ?thesis
    by (auto split: prod.splits)
qed

end
