(* ===== verification/Signup_Events.thy ===== *)
theory Signup_Events
  imports Identity_Grpc Outbox Consumer
begin

text \<open>
  From a call of the identity API to a nickname on the board: what the calls keep of the outbox table, and
  what relay and consumer make of it when nothing fails.
\<close>

section \<open>The outbox of the identity service\<close>

text \<open>
  Before a relay has run: every row waits, it announces the account of a profile, and what it says
  is acceptable to the consumer.
\<close>

definition account_doc :: "profile_row \<Rightarrow> json" where
  "account_doc p = JObj [(''nickname'', JStr (pr_nick p)), (''user_id'', JNum (FormatInt (pr_user p)))]"

definition announced :: "idb \<Rightarrow> bool" where
  "announced d \<longleftrightarrow> (\<forall>b \<in> set (t_outbox (db_tables d)). ob_published b = None \<and> ob_event b = ''user.created'' \<and>
     (\<exists>p \<in> set (t_profiles (db_tables d)). ob_aggregate_id b = FormatInt (pr_user p) \<and> ob_payload b = account_doc p \<and>
        pr_nick p \<noteq> [] \<and> fits 50 (pr_nick p) \<and> fits 64 (FormatInt (pr_user p))))"

definition same_news :: "idb \<Rightarrow> idb \<Rightarrow> bool" where
  "same_news d d' \<longleftrightarrow> t_profiles (db_tables d') = t_profiles (db_tables d) \<and> t_outbox (db_tables d') = t_outbox (db_tables d)"

lemma announced_same: "announced d \<Longrightarrow> same_news d d' \<Longrightarrow> announced d'"
  by (simp add: announced_def same_news_def)

lemma query_news: "query q d = (r, d') \<Longrightarrow> same_news d d'"
  by (erule queryE) (simp_all add: same_news_def)

lemma reads_news:
  "FindByCredential weight ty x d = (ru, d') \<Longrightarrow> same_news d d'"
  "FindByID i d = (ru, d') \<Longrightarrow> same_news d d'"
  "GetProfile i d = (rp, d') \<Longrightarrow> same_news d d'"
  by (auto simp: FindByCredential_def FindByID_def GetProfile_def ok_def dest: query_news elim!: and_thenE map_errE)

lemma known_news: "IsDeviceKnown weight i fp d = (rb, d') \<Longrightarrow> same_news d d'"
  by (cases "query (\<lambda>T. if device_known weight T i fp then Some () else None) d")
    (auto simp: IsDeviceKnown_def dest: query_news split: sum.splits db_err.splits)

lemma writes_news:
  "UpdateStatus i st d = (rn, d') \<Longrightarrow> same_news d d'"
  "TouchLastLogin i d = (rn, d') \<Longrightarrow> same_news d d'"
  "UpsertDevice weight i fp nm d = (rn, d') \<Longrightarrow> same_news d d'"
  by (auto simp: UpdateStatus_def TouchLastLogin_def UpsertDevice_def update_users_def upsert_device_def same_news_def
      elim!: map_errE exec_stmtE split: if_splits)

text \<open>A registration adds a profile and its announcement.\<close>

lemma CreateUser_announced:
  assumes "CreateUser weight now ph prof st d = (r, d')" and "announced d" and "p_Nickname prof \<noteq> []"
  shows "announced d'"
  using assms(1)
proof (cases rule: CreateUserE)
  case none
  with assms(2) show ?thesis by (simp add: announced_def)
next
  case (all fs)
  then show ?thesis using assms(2,3)
    by (auto simp: announced_def add_account_def Let_def account_doc_def)
qed

abbreviation news_inv :: "idb \<Rightarrow> bool" where
  "news_inv d \<equiv> db_wf d \<and> announced d"

interpretation news: repo_kept "mysql_repo weight now" news_inv "\<lambda>_ _. True" for weight now
proof
  note wf = mysql.find_cred [of _ weight now] mysql.find_id [of _ weight now] mysql.get_profile [of _ weight now]
    mysql.touch [of _ weight now] mysql.upsert_dev [of _ weight now] mysql.is_known [of _ weight now]
  have repo: "repo_FindByCredential (mysql_repo weight now) = FindByCredential weight"
    "repo_FindByID (mysql_repo weight now) = FindByID" "repo_GetProfile (mysql_repo weight now) = GetProfile"
    "repo_TouchLastLogin (mysql_repo weight now) = TouchLastLogin"
    "repo_UpsertDevice (mysql_repo weight now) = UpsertDevice weight"
    "repo_IsDeviceKnown (mysql_repo weight now) = IsDeviceKnown weight" for weight now
    by (simp_all add: mysql_repo_def)
  note news = announced_same [OF _ reads_news(1)] announced_same [OF _ reads_news(2)] announced_same [OF _ reads_news(3)]
    announced_same [OF _ known_news] announced_same [OF _ writes_news(2)] announced_same [OF _ writes_news(3)]
  fix ph i fp nm
  show "op_keeps news_inv (\<lambda>_ _. True) (repo_FindByCredential (mysql_repo weight now) AuthTypePhone ph)"
    by (rule op_keepsI) (use wf(1) news(1) in \<open>auto simp: repo\<close>)
  show "op_keeps news_inv (\<lambda>_ _. True) (repo_FindByID (mysql_repo weight now) i)"
    by (rule op_keepsI) (use wf(2) news(2) in \<open>auto simp: repo\<close>)
  show "op_keeps news_inv (\<lambda>_ _. True) (repo_GetProfile (mysql_repo weight now) i)"
    by (rule op_keepsI) (use wf(3) news(3) in \<open>auto simp: repo\<close>)
  show "op_keeps news_inv (\<lambda>_ _. True) (repo_TouchLastLogin (mysql_repo weight now) i)"
    by (rule op_keepsI) (use wf(4) news(5) in \<open>auto simp: repo\<close>)
  show "op_keeps news_inv (\<lambda>_ _. True) (repo_UpsertDevice (mysql_repo weight now) i fp nm)"
    by (rule op_keepsI) (use wf(5) news(6) in \<open>auto simp: repo\<close>)
  show "op_keeps news_inv (\<lambda>_ _. True) (repo_IsDeviceKnown (mysql_repo weight now) i fp)"
    by (rule op_keepsI) (use wf(6) news(4) in \<open>auto simp: repo\<close>)
qed (simp_all add: reflp_def transp_def)

section \<open>Calls of the API\<close>

text \<open>
  Any RPC with any values of the clock and the random sources, with Redis in between in any state, and
  any faults of the database to come.
\<close>

inductive identity_step :: "(string \<Rightarrow> string) \<Rightarrow> ('s, idb) world \<Rightarrow> ('s, idb) world \<Rightarrow> bool" for weight where
  rpc: "a_repo (a :: ('s, idb, rsa_pub) auth) = mysql_repo weight now \<Longrightarrow>
     identity_step weight w (snd (identity_serve quote a env req w))"
| redis: "identity_step weight w (w\<lparr>w_redis := s\<rparr>)"
| faults: "identity_step weight w (w\<lparr>w_db := (w_db w)\<lparr>db_faults := fs\<rparr>\<rparr>)"

lemma CreateUser_news:
  assumes "p_Nickname prof \<noteq> []"
  shows "op_keeps news_inv (\<lambda>_ _. True) (repo_CreateUser (mysql_repo weight now) ph prof st)"
proof (rule op_keepsI)
  fix d r d'
  assume inv: "news_inv d" and run: "repo_CreateUser (mysql_repo weight now) ph prof st d = (r, d')"
  have "db_wf d'" using mysql.create [OF conjunct1 [OF inv] run] by blast
  moreover have "CreateUser weight now ph prof st d = (r, d')" using run by (simp add: mysql_repo_def)
  ultimately show "news_inv d' \<and> True" using CreateUser_announced inv assms by blast
qed

lemma UpdateStatus_news:
  assumes "news_inv d" and "repo_FindByID (mysql_repo weight now) i d = (Inr found, d1)"
    and "repo_UpdateStatus (mysql_repo weight now) j st d1 = (r, d2)"
  shows "news_inv d2 \<and> True"
proof -
  have wf: "db_wf d1" using mysql.find_id [OF conjunct1 [OF assms(1)] assms(2)] by blast
  have "same_news d d1" "same_news d1 d2"
    using assms(2,3) reads_news(2) writes_news(1) by (auto simp: mysql_repo_def)
  then have "announced d2" using assms(1) announced_same by blast
  with mysql.update_status [OF wf assms(3)] show ?thesis by blast
qed

lemma handler_news:
  fixes f :: "'a \<Rightarrow> identity_resp"
  assumes "news_inv (w_db w)" and "db_keeps news_inv (\<lambda>_ _. True) m"
  shows "news_inv (w_db (snd (and_then (map_err (mapErr quote) m) (\<lambda>x. ok (f x)) w)))"
proof -
  have "db_keeps news_inv (\<lambda>_ _. True) (and_then (map_err (mapErr quote) m) (\<lambda>x. ok (f x)))"
    by (intro keeps_intros news.refl news.trans assms(2))
  from db_keeps_snd [OF this assms(1)] show ?thesis by blast
qed

lemma serve_news:
  assumes inv: "news_inv (w_db w)" and a: "a_repo a = mysql_repo weight now"
  shows "news_inv (w_db (snd (identity_serve quote a env req w)))"
proof (cases req)
  case (RequestOtpRequest phone)
  have split: "(\<lambda>(x, y). ok (RequestOtpResponse x y)) = (\<lambda>p. ok (RequestOtpResponse (fst p) (snd p)))" by auto
  from RequestOtpRequest show ?thesis using handler_news [OF inv news.keeps_RequestOtp [where a = a], where f = "\<lambda>p. RequestOtpResponse (fst p) (snd p)"] inv
    by (auto simp: identity_serve_def h_RequestOtp_def fail_def split)
next
  case (VerifyOtpRequest phone code fp nm)
  then show ?thesis using handler_news [OF inv news.keeps_VerifyOtp [OF a]] inv
    by (auto simp: identity_serve_def h_VerifyOtp_def fail_def)
next
  case (CompleteSignupRequest flow nick img fp nm)
  then show ?thesis using handler_news [OF inv news.keeps_CompleteSignup [OF a CreateUser_news]] inv
    by (auto simp: identity_serve_def h_CompleteSignup_def fail_def)
next
  case (CompleteReactivationRequest flow consent fp nm)
  then show ?thesis using handler_news [OF inv news.keeps_CompleteReactivation [OF a UpdateStatus_news]] inv
    by (auto simp: identity_serve_def h_CompleteReactivation_def fail_def)
next
  case (VerifyDeviceRequest flow month fp nm)
  then show ?thesis using handler_news [OF inv news.keeps_VerifyDevice [OF a]] inv
    by (auto simp: identity_serve_def h_VerifyDevice_def fail_def)
next
  case (IssueTokenRequest grant refresh)
  then show ?thesis using handler_news [OF inv news.keeps_Refresh [OF a]] inv
    by (auto simp: identity_serve_def h_IssueToken_def)
qed

lemma identity_steps_news:
  assumes "(identity_step weight)\<^sup>*\<^sup>* w w'" and "news_inv (w_db w)"
  shows "news_inv (w_db w')"
  using assms
proof (induction rule: rtranclp_induct)
  case (step w1 w2)
  from step(2) show ?case
  proof cases
    case (rpc a now quote env req)
    with serve_news step.IH [OF step.prems] show ?thesis by blast
  next
    case (faults fs)
    have "db_wf (w_db w2) \<longleftrightarrow> db_wf (w_db w1)" by (simp add: faults db_wf_def)
    with step.IH [OF step.prems] show ?thesis by (simp add: faults announced_def)
  qed (use step in simp)
qed

section \<open>From the outbox to the read model\<close>

lemma same_stream: "cons_stream = Stream"
  by (simp add: cons_stream_def Stream_def)

lemma outbox_values:
  "entry_value ''event_type'' (outbox_fields jt b) = ob_event b"
  "entry_value ''payload'' (outbox_fields jt b) = jt (ob_payload b)"
  by (simp_all add: entry_value_def outbox_fields_def)

definition nick_in :: "idb \<Rightarrow> int \<Rightarrow> string" where
  "nick_in d u = (case find (\<lambda>p. pr_user p = u) (t_profiles (db_tables d)) of None \<Rightarrow> [] | Some p \<Rightarrow> pr_nick p)"

lemma profile_unique:
  assumes "db_wf d" and "p \<in> set (t_profiles (db_tables d))" and "q \<in> set (t_profiles (db_tables d))"
    and "pr_user p = pr_user q"
  shows "p = q"
  using assms inj_onD [of pr_user "set (t_profiles (db_tables d))" p q]
  by (simp add: db_wf_def Let_def distinct_map)

lemma nick_in_profile:
  assumes "db_wf d" and "p \<in> set (t_profiles (db_tables d))"
  shows "nick_in d (pr_user p) = pr_nick p"
proof (cases "find (\<lambda>q. pr_user q = pr_user p) (t_profiles (db_tables d))")
  case None
  with assms(2) show ?thesis by (auto simp: find_None_iff)
next
  case (Some q)
  then have "q \<in> set (t_profiles (db_tables d))" "pr_user q = pr_user p" by (auto simp: find_Some_iff)
  with profile_unique [OF assms(1)] assms(2) have "q = p" by blast
  with Some show ?thesis by (simp add: nick_in_def)
qed

text \<open>Every profile has a waiting row, and every row is an event that the consumer takes.\<close>

lemma profile_row_waits:
  assumes "news_inv d" and p: "p \<in> set (t_profiles (db_tables d))"
  obtains b where "b \<in> set (t_outbox (db_tables d))" and "ob_event b = ''user.created''" and "ob_payload b = account_doc p"
    and "pr_nick p \<noteq> []"
proof -
  let ?T = "db_tables d"
  from assms(1) p have "has_user ?T (pr_user p)" by (simp add: db_wf_def Let_def)
  then obtain r where r: "r \<in> set (t_users ?T)" "ur_id r = pr_user p" by (auto simp: has_user_iff)
  with assms(1) obtain b where b: "b \<in> set (t_outbox ?T)" "announces r b" by (auto simp: db_wf_def Let_def)
  with assms(1) obtain q where q: "q \<in> set (t_profiles ?T)" "ob_aggregate_id b = FormatInt (pr_user q)"
    "ob_payload b = account_doc q" "ob_event b = ''user.created''" "pr_nick q \<noteq> []" unfolding announced_def by blast
  with b(2) r(2) have "pr_user q = pr_user p" by (simp add: announces_def)
  with profile_unique q(1) p assms(1) have "q = p" by blast
  with q b(1) that show thesis by blast
qed

lemma account_event:
  assumes "\<And>p. \<exists>j. parse_doc (jt (account_doc p)) = Some j \<and> same_object j (account_doc p)"
  shows "author_event (jt (account_doc p)) = (if pr_nick p = [] then Inl ConsMissing else Inr (FormatInt (pr_user p), pr_nick p))"
  using assms [of p] author_event_document [of "jt (account_doc p)" _ "pr_nick p" "pr_user p"] by (auto simp: account_doc_def)

lemma row_acceptable:
  assumes "announced d" and "b \<in> set (t_outbox (db_tables d))" and jt: "\<And>p. \<exists>j. parse_doc (jt (account_doc p)) = Some j \<and> same_object j (account_doc p)"
  shows "acceptable (outbox_fields jt b)"
proof -
  from assms(1,2) obtain p where p: "ob_payload b = account_doc p" "pr_nick p \<noteq> []" "fits 50 (pr_nick p)"
    "fits 64 (FormatInt (pr_user p))" unfolding announced_def by blast
  with account_event [OF jt, of p] show ?thesis by (simp add: acceptable_def outbox_values)
qed

lemma row_registration:
  assumes "news_inv d" and "b \<in> set (t_outbox (db_tables d))" and jt: "\<And>p. \<exists>j. parse_doc (jt (account_doc p)) = Some j \<and> same_object j (account_doc p)"
  shows "outbox_fields jt b \<in> registrations (nick_in d)"
proof -
  from assms(1,2) obtain p where p: "p \<in> set (t_profiles (db_tables d))" "ob_payload b = account_doc p"
    unfolding announced_def by blast
  from jt [of p] obtain j where "parse_doc (jt (ob_payload b)) = Some j"
    "same_object j (JObj [(''nickname'', JStr (nick_in d (pr_user p))), (''user_id'', JNum (FormatInt (pr_user p)))])"
    using p nick_in_profile [of d p] assms(1) by (auto simp: account_doc_def)
  then show ?thesis unfolding registrations_def mem_Collect_eq outbox_values by blast
qed

text \<open>The relay puts the rows on the stream, as many as its ticks reach.\<close>

lemma relay_empties_outbox:
  assumes "stream_group X Stream grp name sview" and "appends X up" and "up x" and "sv_log (sview x) = []"
    and "news_inv d" and "length (t_outbox (db_tables d)) \<le> 100 * k"
  shows "let w' = relay_Run X jt (replicate k Tick) \<lparr>rw_db = d\<lparr>db_faults := []\<rparr>, rw_x = x\<rparr> in
     up (rw_x w') \<and> sv_given (sview (rw_x w')) = 0 \<and>
     map snd (sv_log (sview (rw_x w'))) = map (outbox_fields jt) (unpublished (db_tables d)) \<and>
     set (unpublished (db_tables d)) = set (t_outbox (db_tables d))"
proof -
  let ?w = "\<lparr>rw_db = d\<lparr>db_faults := []\<rparr>, rw_x = x\<rparr>"
  have wf: "db_wf (rw_db ?w)" using assms(5) by (simp add: db_wf_def)
  have "filter (\<lambda>b. ob_published b = None) (t_outbox (db_tables d)) = t_outbox (db_tables d)"
    using assms(5) by (auto simp: announced_def filter_id_conv)
  then have U: "set (unpublished (db_tables d)) = set (t_outbox (db_tables d))"
    "length (unpublished (db_tables d)) = length (t_outbox (db_tables d))" by (simp_all add: unpublished_def)
  have "sv_given (sview x) = 0" using stream_group.given_le [OF assms(1), of x] assms(4) by simp
  with relay_ticks [OF assms(1,2), of ?w jt k] assms(3,4,6) wf U show ?thesis
    by (simp add: Let_def batchSize_def mult.commute)
qed

text \<open>The board's tables after the relay has run for \<open>k\<close> ticks and then the consumer for \<open>m\<close> rounds.\<close>

definition board_after ::
  "'x streams \<Rightarrow> (json \<Rightarrow> string) \<Rightarrow> (string \<Rightarrow> string) \<Rightarrow> string \<Rightarrow> nat \<Rightarrow> nat \<Rightarrow> idb \<Rightarrow> 'x \<Rightarrow> board_db \<Rightarrow> board_db" where
  "board_after X jt weight name k m d x b =
     (let relayed = relay_Run X jt (replicate k Tick) \<lparr>rw_db = d\<lparr>db_faults := []\<rparr>, rw_x = x\<rparr> in
      cw_db (snd (cons_rounds X weight name m (''0'', \<lparr>cw_db = b, cw_x = rw_x relayed\<rparr>))))"

lemma consumed_recorded:
  assumes lib: "stream_group X cons_stream cons_group name sview" and "serves X name up" and "up x"
    and "sv_given (sview x) = 0" and "bd_faults b = []" and "inj_on weight (range FormatInt)"
    and "\<forall>f \<in> snd ` set (sv_log (sview x)). acceptable f \<and> f \<in> registrations nick"
    and "length (sv_log (sview x)) < m" and "f \<in> snd ` set (sv_log (sview x))"
  shows "recorded weight (cw_db (snd (cons_rounds X weight name m (''0'', \<lparr>cw_db = b, cw_x = x\<rparr>)))) f"
proof -
  let ?w = "\<lparr>cw_db = b, cw_x = x\<rparr>"
  have srv: "cons_server X name sview weight (registrations nick)"
    by (intro cons_server.intro cons_server_axioms.intro lib registrations_agree assms(6))
  obtain c w2 where run: "cons_rounds X weight name m (''0'', ?w) = (c, w2)" by fastforce
  have acc: "\<forall>e \<in> set (sv_log (sview (cw_x ?w))). acceptable (snd e)" using assms(7) by auto
  have fin: "sv_log (sview (cw_x w2)) = sv_log (sview x)" "sv_given (sview (cw_x w2)) = length (sv_log (sview x))"
    "sv_pending (sview (cw_x w2)) = []"
    using cons_rounds_paid [OF lib assms(2) _ _ acc, of m weight] assms(3,5,8) run by (auto simp: Let_def)
  from assms(9) obtain i where "(i, f) \<in> set (sv_log (sview x))" by auto
  with fin have given: "(i, f) \<in> set (take (sv_given (sview (cw_x w2))) (sv_log (sview (cw_x w2))))"
    "i \<notin> set (sv_pending (sview (cw_x w2)))" by simp_all
  have "snd ` set (sv_log (sview (cw_x ?w))) \<subseteq> registrations nick" using assms(7) by auto
  from cons_server.settled_recorded [OF srv this _ cons_rounds_steps [OF run] given] assms(4) run show ?thesis by simp
qed

lemma nickname_arrives:
  assumes lib: "stream_group X Stream cons_group name sview" and up: "appends X up" "serves X name up" "up x"
    and log: "sv_log (sview x) = []" and inv: "news_inv d" and faults: "bd_faults b = []"
    and weight: "inj_on weight (range FormatInt)" and jt: "\<And>p. \<exists>j. parse_doc (jt (account_doc p)) = Some j \<and> same_object j (account_doc p)"
    and k: "length (t_outbox (db_tables d)) \<le> 100 * k" and m: "length (t_outbox (db_tables d)) < m"
    and p: "p \<in> set (t_profiles (db_tables d))"
  shows "nickname_of weight (board_after X jt weight name k m d x b) (FormatInt (pr_user p)) = pr_nick p"
proof -
  let ?U = "unpublished (db_tables d)"
  define x' where "x' = rw_x (relay_Run X jt (replicate k Tick) \<lparr>rw_db = d\<lparr>db_faults := []\<rparr>, rw_x = x\<rparr>)"
  have x': "up x'" "sv_given (sview x') = 0" "map snd (sv_log (sview x')) = map (outbox_fields jt) ?U"
    "set ?U = set (t_outbox (db_tables d))"
    using relay_empties_outbox [OF lib up(1,3) log inv k, of jt] by (simp_all add: x'_def Let_def)
  have fs: "snd ` set (sv_log (sview x')) = outbox_fields jt ` set (t_outbox (db_tables d))"
    using arg_cong [OF x'(3), of set] x'(4) by simp
  have len: "length (sv_log (sview x')) < m"
  proof -
    have "length (filter (\<lambda>b. ob_published b = None) (t_outbox (db_tables d))) < m" using m le_less_trans [OF length_filter_le] by blast
    then show ?thesis using arg_cong [OF x'(3), of length] by (simp add: unpublished_def)
  qed
  have lib': "stream_group X cons_stream cons_group name sview" using lib by (simp add: same_stream)
  from profile_row_waits [OF inv p] obtain b' where b': "b' \<in> set (t_outbox (db_tables d))"
    "ob_event b' = ''user.created''" "ob_payload b' = account_doc p" "pr_nick p \<noteq> []" by blast
  have "recorded weight (cw_db (snd (cons_rounds X weight name m (''0'', \<lparr>cw_db = b, cw_x = x'\<rparr>)))) (outbox_fields jt b')"
  proof (rule consumed_recorded [OF lib' up(2) x'(1,2) faults weight _ len])
    show "\<forall>f \<in> snd ` set (sv_log (sview x')). acceptable f \<and> f \<in> registrations (nick_in d)"
      unfolding fs using row_acceptable [OF conjunct2 [OF inv]] row_registration [OF inv] jt by blast
    show "outbox_fields jt b' \<in> snd ` set (sv_log (sview x'))" unfolding fs using b'(1) by blast
  qed
  then show ?thesis
    using account_event [OF jt, of p] b'
    by (simp add: recorded_def outbox_values board_after_def Let_def flip: x'_def)
qed

end
