(* ===== verification/Jwks.thy ===== *)
theory Jwks
  imports Token
begin

text \<open>
  The stateless token verifier of the resource servers (\<^verbatim>\<open>pkg/jwks/verifier.go\<close>): the key cache with its
  counters, the fetch of the identity provider's key set, and the check of a token. The HTTP client, the
  circuit breaker and the clock are parameters that work on a world \<open>'w\<close>; the locale \<open>jwks_env\<close> states what
  the verifier relies on. Times and durations count nanoseconds; the zero time is \<open>None\<close>. The functions
  are those of one caller; \<open>Jwks_Concurrent\<close> interleaves many. The client and the callback of \<^verbatim>\<open>Options\<close>, and \<^verbatim>\<open>breakerSettings\<close>,
  belong to the parameters.
\<close>

section \<open>Configuration\<close>

datatype verify_err = ErrInvalidToken | ErrUnknownKey

record ver_claims =
  c_Subject :: string
  c_Status :: string

record options =
  o_RefreshCooldown :: duration
  o_CacheTTL :: duration
  o_BreakerTimeout :: duration

text \<open>\<^verbatim>\<open>New\<close>: an option that is not positive keeps its default. \<open>None\<close> is a call without options.\<close>

definition new_options :: "options option \<Rightarrow> options" where
  "new_options opt = (let o1 = \<lparr>o_RefreshCooldown = 10 * Second, o_CacheTTL = 5 * Minute, o_BreakerTimeout = 60 * Second\<rparr> in
     case opt of None \<Rightarrow> o1 | Some p \<Rightarrow>
       \<lparr>o_RefreshCooldown = (if o_RefreshCooldown p > 0 then o_RefreshCooldown p else o_RefreshCooldown o1),
        o_CacheTTL = (if o_CacheTTL p > 0 then o_CacheTTL p else o_CacheTTL o1),
        o_BreakerTimeout = (if o_BreakerTimeout p > 0 then o_BreakerTimeout p else o_BreakerTimeout o1)\<rparr>)"

record verifier =
  v_jwksURL :: string
  v_issuer :: string
  v_audience :: string
  v_opts :: options

record cache =
  k_keys :: "string \<rightharpoonup> rsa_pub"
  k_fetchedAt :: "int option"
  k_lastMissRefresh :: "int option"
  k_fetchAttempts :: "64 word"
  k_fetchSuccesses :: "64 word"
  k_fetchFailures :: "64 word"

definition New :: "string \<Rightarrow> string \<Rightarrow> string \<Rightarrow> options option \<Rightarrow> verifier \<times> cache" where
  "New url iss aud opt = (\<lparr>v_jwksURL = url, v_issuer = iss, v_audience = aud, v_opts = new_options opt\<rparr>,
     \<lparr>k_keys = Map.empty, k_fetchedAt = None, k_lastMissRefresh = None,
      k_fetchAttempts = 0, k_fetchSuccesses = 0, k_fetchFailures = 0\<rparr>)"

text \<open>\<^verbatim>\<open>time.Since\<close> saturates; the zero time is further away than a duration can say.\<close>

definition Since :: "int \<Rightarrow> int option \<Rightarrow> duration" where
  "Since now t = (case t of None \<Rightarrow> max_int64 | Some s \<Rightarrow> max min_int64 (min max_int64 (now - s)))"

section \<open>The environment\<close>

type_synonym keymap = "string \<rightharpoonup> rsa_pub"

record 'w env =
  http_Do :: "string \<Rightarrow> ('w, string, http_response) action"
  brk_Execute :: "('w, string, keymap) action \<Rightarrow> ('w, string, keymap) action"
  brk_State :: "'w \<Rightarrow> string"
  time_Now :: "'w \<Rightarrow> int \<times> 'w"

record 'w vworld =
  vw_cache :: cache
  vw_env :: 'w

section \<open>Fetching the key set\<close>

record jwk =
  jwk_kty :: string
  jwk_kid :: string
  jwk_n :: string
  jwk_e :: string

definition jwk_of :: "json \<Rightarrow> jwk option" where
  "jwk_of v = (case v of
      JObj ms \<Rightarrow> (case (string_field ''kty'' ms, string_field ''kid'' ms, string_field ''n'' ms, string_field ''e'' ms) of
        (Some t, Some k, Some n, Some e) \<Rightarrow> Some \<lparr>jwk_kty = t, jwk_kid = k, jwk_n = n, jwk_e = e\<rparr> | _ \<Rightarrow> None)
    | JNull \<Rightarrow> Some \<lparr>jwk_kty = [], jwk_kid = [], jwk_n = [], jwk_e = []\<rparr>
    | _ \<Rightarrow> None)"

text \<open>
  The member \<^verbatim>\<open>keys\<close> of the document. When a document has it more than once, the last one counts; Go decodes it over the elements
  of the one before, so that fields left out in the later one would keep earlier values. The identity service writes one.
\<close>

definition keys_field :: "(string \<times> json) list \<Rightarrow> jwk list option" where
  "keys_field ms = fold (\<lambda>m acc. case (acc, snd m) of
      (None, _) \<Rightarrow> None
    | (Some a, JNull) \<Rightarrow> Some []
    | (Some a, JArr vs) \<Rightarrow> all_some (map jwk_of vs)
    | _ \<Rightarrow> None) (filter (field_match ''keys'') ms) (Some [])"

definition decode_set :: "string \<Rightarrow> jwk list option" where
  "decode_set body = (case decode_first body of
      Some (JObj ms) \<Rightarrow> keys_field ms | Some JNull \<Rightarrow> Some [] | _ \<Rightarrow> None)"

text \<open>\<^verbatim>\<open>big.Int.Int64\<close>: the low 64 bits as a signed number.\<close>

definition big_Int64 :: "nat \<Rightarrow> int" where
  "big_Int64 n = sint (word_of_nat n :: 64 word)"

definition rsa_key :: "jwk \<Rightarrow> (string \<times> rsa_pub) option" where
  "rsa_key k =
     (if jwk_kty k \<noteq> ''RSA'' \<or> jwk_kid k = [] then None
      else case (DecodeString (jwk_n k), DecodeString (jwk_e k)) of
        (Some n, Some e) \<Rightarrow> Some (jwk_kid k, \<lparr>rsa_N = SetBytes n, rsa_E = big_Int64 (SetBytes e)\<rparr>)
      | _ \<Rightarrow> None)"

definition collect_keys :: "jwk list \<Rightarrow> keymap" where
  "collect_keys ks = fold (\<lambda>k m. case rsa_key k of None \<Rightarrow> m | Some (kid, pk) \<Rightarrow> m(kid \<mapsto> pk)) ks Map.empty"

definition usable :: "jwk list \<Rightarrow> bool" where
  "usable ks = list_ex (\<lambda>k. rsa_key k \<noteq> None) ks"

definition fetchJWKS :: "'w env \<Rightarrow> string \<Rightarrow> ('w, string, keymap) action" where
  "fetchJWKS E url = and_then (http_Do E url) (\<lambda>resp.
     if resp_status resp \<noteq> 200 then fail (''jwks fetch: status '' @ FormatInt (resp_status resp))
     else case decode_set (resp_body resp) of
       None \<Rightarrow> fail ''decode error''
     | Some ks \<Rightarrow> if usable ks then ok (collect_keys ks) else fail ''jwks contains no usable RSA keys'')"

section \<open>The cache\<close>

definition on_env :: "('w, 'e, 'a) action \<Rightarrow> ('w vworld, 'e, 'a) action" where
  "on_env m w = (case m (vw_env w) of (r, x) \<Rightarrow> (r, w\<lparr>vw_env := x\<rparr>))"

definition Now :: "'w env \<Rightarrow> ('w vworld, 'e, int) action" where
  "Now E w = (case time_Now E (vw_env w) of (t, x) \<Rightarrow> (Inr t, w\<lparr>vw_env := x\<rparr>))"

definition set_cache :: "(cache \<Rightarrow> cache) \<Rightarrow> ('w vworld, 'e, unit) action" where
  "set_cache f w = (Inr (), w\<lparr>vw_cache := f (vw_cache w)\<rparr>)"

definition jwks_refresh :: "verifier \<Rightarrow> 'w env \<Rightarrow> ('w vworld, string, unit) action" where
  "jwks_refresh v E =
     and_then (set_cache (\<lambda>k. k\<lparr>k_fetchAttempts := k_fetchAttempts k + 1\<rparr>)) (\<lambda>_ w.
     case on_env (brk_Execute E (fetchJWKS E (v_jwksURL v))) w of
       (Inl e, w1) \<Rightarrow> (Inl e, w1\<lparr>vw_cache := (vw_cache w1)\<lparr>k_fetchFailures := k_fetchFailures (vw_cache w1) + 1\<rparr>\<rparr>)
     | (Inr keys, w1) \<Rightarrow>
         and_then (set_cache (\<lambda>k. k\<lparr>k_fetchSuccesses := k_fetchSuccesses k + 1\<rparr>)) (\<lambda>_.
         and_then (Now E) (\<lambda>t.
         set_cache (\<lambda>k. k\<lparr>k_keys := keys, k_fetchedAt := Some t\<rparr>))) w1)"

definition refreshIfStale :: "verifier \<Rightarrow> 'w env \<Rightarrow> ('w vworld, 'e, unit) action" where
  "refreshIfStale v E = and_then (Now E) (\<lambda>t w.
     if Since t (k_fetchedAt (vw_cache w)) > o_CacheTTL (v_opts v) then ignore (jwks_refresh v E) w else (Inr (), w))"

text \<open>Whether a miss may refetch, at a reading of the clock.\<close>

definition miss_allowed :: "duration \<Rightarrow> int \<Rightarrow> int option \<Rightarrow> bool" where
  "miss_allowed cooldown t lastMiss \<longleftrightarrow> \<not> Since t lastMiss < cooldown"

definition lookup_key :: "string \<Rightarrow> ('w vworld, verify_err, rsa_pub) action" where
  "lookup_key kid w = (case k_keys (vw_cache w) kid of None \<Rightarrow> Inl ErrUnknownKey | Some key \<Rightarrow> Inr key, w)"

definition keyFor :: "verifier \<Rightarrow> 'w env \<Rightarrow> string \<Rightarrow> ('w vworld, verify_err, rsa_pub) action" where
  "keyFor v E kid w = (case k_keys (vw_cache w) kid of
      Some key \<Rightarrow> (Inr key, w)
    | None \<Rightarrow>
        and_then (Now E) (\<lambda>t1 w1.
          if \<not> miss_allowed (o_RefreshCooldown (v_opts v)) t1 (k_lastMissRefresh (vw_cache w1)) then (Inl ErrUnknownKey, w1)
          else and_then (Now E) (\<lambda>t2.
               and_then (set_cache (\<lambda>k. k\<lparr>k_lastMissRefresh := Some t2\<rparr>)) (\<lambda>_.
               and_then (map_err (\<lambda>_. ErrUnknownKey) (jwks_refresh v E)) (\<lambda>_.
               lookup_key kid))) w1) w)"

section \<open>Verify and Stats\<close>

definition header_kid :: "claims \<Rightarrow> string" where
  "header_kid h = (case map_of h ''kid'' of Some (JStr k) \<Rightarrow> k | _ \<Rightarrow> [])"

definition finish_claims :: "claims \<Rightarrow> verify_err + ver_claims" where
  "finish_claims c = (case GetSubject c of
      None \<Rightarrow> Inl ErrInvalidToken
    | Some sub \<Rightarrow> if sub = [] then Inl ErrInvalidToken
        else Inr \<lparr>c_Subject = sub, c_Status = (case map_of c ''status'' of Some (JStr s) \<Rightarrow> s | _ \<Rightarrow> [])\<rparr>)"

definition Verify :: "'sk jwt_lib \<Rightarrow> verifier \<Rightarrow> 'w env \<Rightarrow> string \<Rightarrow> ('w vworld, verify_err, ver_claims) action" where
  "Verify J v E tokenStr =
     and_then (refreshIfStale v E) (\<lambda>_.
     case jwt_header J [''RS256''] tokenStr of
       Inl _ \<Rightarrow> fail ErrInvalidToken
     | Inr h \<Rightarrow>
         if header_kid h = [] then fail ErrUnknownKey
         else and_then (keyFor v E (header_kid h)) (\<lambda>pk.
              and_then (Now E) (\<lambda>t.
              case jwt_check J \<lparr>want_iss = v_issuer v, want_aud = v_audience v\<rparr> (t div 10 ^ 9) tokenStr pk of
                Inl _ \<Rightarrow> fail ErrInvalidToken
              | Inr c \<Rightarrow> lift_res (finish_claims c))))"

record stats =
  st_KeyCount :: nat
  st_LastSuccessfulFetch :: "int option"
  st_FetchAttempts :: "64 word"
  st_FetchSuccesses :: "64 word"
  st_FetchFailures :: "64 word"
  st_BreakerState :: string

definition Stats :: "'w env \<Rightarrow> 'w vworld \<Rightarrow> stats" where
  "Stats E w = \<lparr>st_KeyCount = card (dom (k_keys (vw_cache w))), st_LastSuccessfulFetch = k_fetchedAt (vw_cache w),
     st_FetchAttempts = k_fetchAttempts (vw_cache w), st_FetchSuccesses = k_fetchSuccesses (vw_cache w),
     st_FetchFailures = k_fetchFailures (vw_cache w), st_BreakerState = brk_State E (vw_env w)\<rparr>"

section \<open>What the verifier relies on\<close>

text \<open>
  The breaker reports a success only with the result of a call it made; every key set that the identity
  provider serves holds published keys only.
\<close>

locale jwks_env =
  fixes E :: "'w env" and url :: string and Published :: "rsa_pub set"
  assumes exec_runs: "brk_Execute E f x = (Inr a, x') \<Longrightarrow> \<exists>x1 x2. f x1 = (Inr a, x2)"
    and served: "http_Do E url x = (Inr r, x') \<Longrightarrow> resp_status r = 200 \<Longrightarrow> decode_set (resp_body r) = Some ks \<Longrightarrow>
      ran (collect_keys ks) \<subseteq> Published"
begin

lemma fetch_published:
  "fetchJWKS E url x = (Inr keys, x') \<Longrightarrow> ran keys \<subseteq> Published"
  using served by (fastforce simp: fetchJWKS_def ok_def fail_def elim!: and_then_InrE split: if_splits option.splits)

end

text \<open>What every operation keeps: the counters balance, the keys were published, failure changes no key.\<close>

definition balanced :: "cache \<Rightarrow> bool" where
  "balanced k \<longleftrightarrow> k_fetchAttempts k = k_fetchSuccesses k + k_fetchFailures k"

lemma jwks_refreshE:
  assumes "jwks_refresh v E w = (r, w')"
  obtains (failed) e x where "brk_Execute E (fetchJWKS E (v_jwksURL v)) (vw_env w) = (Inl e, x)" and "r = Inl e"
      and "k_keys (vw_cache w') = k_keys (vw_cache w)" and "k_fetchedAt (vw_cache w') = k_fetchedAt (vw_cache w)"
      and "k_lastMissRefresh (vw_cache w') = k_lastMissRefresh (vw_cache w)"
      and "balanced (vw_cache w') = balanced (vw_cache w)"
  | (fetched) keys x t where "brk_Execute E (fetchJWKS E (v_jwksURL v)) (vw_env w) = (Inr keys, x)" and "r = Inr ()"
      and "k_keys (vw_cache w') = keys" and "k_fetchedAt (vw_cache w') = Some t"
      and "k_lastMissRefresh (vw_cache w') = k_lastMissRefresh (vw_cache w)"
      and "balanced (vw_cache w') = balanced (vw_cache w)"
proof -
  obtain q x where ex: "brk_Execute E (fetchJWKS E (v_jwksURL v)) (vw_env w) = (q, x)" by fastforce
  obtain t y where now: "time_Now E x = (t, y)" by fastforce
  show thesis
  proof (cases q)
    case (Inl e)
    show thesis by (rule failed) (use assms ex Inl in \<open>auto simp: jwks_refresh_def set_cache_def and_then_def on_env_def balanced_def\<close>)
  next
    case (Inr keys)
    show thesis by (rule fetched [of keys x t])
      (use assms ex Inr now in \<open>auto simp: jwks_refresh_def set_cache_def and_then_def on_env_def Now_def balanced_def\<close>)
  qed
qed

text \<open>The cache after an operation that may have refreshed it.\<close>

definition refreshed :: "verifier \<Rightarrow> 'w env \<Rightarrow> cache \<Rightarrow> cache \<Rightarrow> bool" where
  "refreshed v E k k' \<longleftrightarrow> balanced k' = balanced k \<and>
     (k_keys k' = k_keys k \<or> (\<exists>x x'. brk_Execute E (fetchJWKS E (v_jwksURL v)) x = (Inr (k_keys k'), x')))"

lemma refreshed_refl [simp]: "refreshed v E k k"
  by (simp add: refreshed_def)

lemma refreshed_trans: "refreshed v E k k1 \<Longrightarrow> refreshed v E k1 k2 \<Longrightarrow> refreshed v E k k2"
  by (auto simp: refreshed_def)

lemma Now_bind: "time_Now E (vw_env w) = (t, x) \<Longrightarrow> and_then (Now E) f w = f t (w\<lparr>vw_env := x\<rparr>)"
  by (simp add: and_then_def Now_def)

lemma set_cache_bind: "and_then (set_cache g) f w = f () (w\<lparr>vw_cache := g (vw_cache w)\<rparr>)"
  by (simp add: and_then_def set_cache_def)

lemma jwks_refresh_refreshed: "jwks_refresh v E w = (r, w') \<Longrightarrow> refreshed v E (vw_cache w) (vw_cache w')"
  by (erule jwks_refreshE) (auto simp: refreshed_def)

lemma refreshIfStale_refreshed:
  assumes "refreshIfStale v E w = (r, w')"
  shows "refreshed v E (vw_cache w) (vw_cache w') \<and> r = Inr ()"
proof -
  obtain t x where now: "time_Now E (vw_env w) = (t, x)" by fastforce
  let ?w1 = "w\<lparr>vw_env := x\<rparr>"
  obtain p w2 where run: "jwks_refresh v E ?w1 = (p, w2)" by fastforce
  show ?thesis using assms jwks_refresh_refreshed [OF run]
    by (auto simp: refreshIfStale_def Now_bind [OF now] ignore_def run split: if_splits)
qed

lemma keyFor_miss:
  assumes "k_keys (vw_cache w) kid = None" and "time_Now E (vw_env w) = (t1, x1)"
    and "time_Now E (vw_env (w\<lparr>vw_env := x1\<rparr>)) = (t2, x2)"
    and "miss_allowed (o_RefreshCooldown (v_opts v)) t1 (k_lastMissRefresh (vw_cache w))"
  shows "keyFor v E kid w = and_then (map_err (\<lambda>_. ErrUnknownKey) (jwks_refresh v E)) (\<lambda>_. lookup_key kid)
     (w\<lparr>vw_env := x2, vw_cache := (vw_cache w)\<lparr>k_lastMissRefresh := Some t2\<rparr>\<rparr>)"
  using assms(1,4) by (simp add: keyFor_def Now_bind [OF assms(2)] Now_bind [OF assms(3)] set_cache_bind)

lemma keyForE:
  assumes "keyFor v E kid w = (r, w')"
  obtains (hit) key where "k_keys (vw_cache w) kid = Some key" and "r = Inr key" and "w' = w"
  | (denied) "k_keys (vw_cache w) kid = None" and "r = Inl ErrUnknownKey" and "vw_cache w' = vw_cache w"
  | (failed) "k_keys (vw_cache w) kid = None" and "r = Inl ErrUnknownKey" and "refreshed v E (vw_cache w) (vw_cache w')"
  | (fetched) "k_keys (vw_cache w) kid = None" and "refreshed v E (vw_cache w) (vw_cache w')"
      and "r = (case k_keys (vw_cache w') kid of None \<Rightarrow> Inl ErrUnknownKey | Some key \<Rightarrow> Inr key)"
proof (cases "k_keys (vw_cache w) kid")
  case (Some key)
  show thesis by (rule hit [OF Some]) (use assms Some in \<open>simp_all add: keyFor_def\<close>)
next
  case None
  obtain t1 x1 where n1: "time_Now E (vw_env w) = (t1, x1)" by fastforce
  obtain t2 x2 where n2: "time_Now E (vw_env (w\<lparr>vw_env := x1\<rparr>)) = (t2, x2)" by fastforce
  let ?w3 = "w\<lparr>vw_env := x2, vw_cache := (vw_cache w)\<lparr>k_lastMissRefresh := Some t2\<rparr>\<rparr>"
  obtain p w4 where run: "jwks_refresh v E ?w3 = (p, w4)" by fastforce
  have upd: "refreshed v E (vw_cache w) (vw_cache w4)"
    using jwks_refresh_refreshed [OF run] by (simp add: refreshed_def balanced_def)
  show thesis
  proof (cases "miss_allowed (o_RefreshCooldown (v_opts v)) t1 (k_lastMissRefresh (vw_cache w))")
    case False
    with assms None show thesis by (intro denied) (auto simp: keyFor_def Now_bind [OF n1])
  next
    case True
    note key = keyFor_miss [OF None n1 n2 True]
    show thesis
    proof (cases p)
      case (Inl e)
      with assms None upd run show thesis unfolding key by (intro failed) (auto simp: and_then_def map_err_def)
    next
      case (Inr u)
      with assms None upd run show thesis unfolding key
        by (intro fetched) (auto simp: and_then_def map_err_def lookup_key_def)
    qed
  qed
qed

lemma VerifyE:
  assumes "Verify J v E tok w = (r, w')"
  shows "refreshed v E (vw_cache w) (vw_cache w') \<and> (\<forall>cl. r = Inr cl \<longrightarrow>
     (\<exists>pk t c. pk \<in> ran (k_keys (vw_cache w')) \<and>
        jwt_check J \<lparr>want_iss = v_issuer v, want_aud = v_audience v\<rparr> t tok pk = Inr c \<and> finish_claims c = Inr cl))"
proof -
  obtain q w1 where st: "refreshIfStale v E w = (q :: verify_err + unit, w1)" by fastforce
  note ref = refreshIfStale_refreshed [OF st]
  show ?thesis
  proof (cases "jwt_header J [''RS256''] tok")
    case (Inl e)
    then show ?thesis using assms ref by (auto simp: Verify_def and_then_def st fail_def)
  next
    case (Inr h)
    show ?thesis
    proof (cases "header_kid h = []")
      case True
      then show ?thesis using assms Inr ref by (auto simp: Verify_def and_then_def st fail_def)
    next
      case False
      obtain p w2 where key: "keyFor v E (header_kid h) w1 = (p, w2)" by fastforce
      have mem: "\<forall>pk. p = Inr pk \<longrightarrow> pk \<in> ran (k_keys (vw_cache w2))"
        and upd: "refreshed v E (vw_cache w1) (vw_cache w2)"
        using key by (cases rule: keyForE; auto simp: ranI split: option.splits)+
      obtain t x where now: "time_Now E (vw_env w2) = (t, x)" by fastforce
      have ver: "Verify J v E tok w = (case p of Inl e \<Rightarrow> (Inl e, w2) | Inr pk \<Rightarrow>
          (case jwt_check J \<lparr>want_iss = v_issuer v, want_aud = v_audience v\<rparr> (t div 10 ^ 9) tok pk of
             Inl _ \<Rightarrow> Inl ErrInvalidToken | Inr c \<Rightarrow> finish_claims c, w2\<lparr>vw_env := x\<rparr>))"
        using Inr False ref
        by (auto simp: Verify_def and_then_def st key Now_def now fail_def lift_res_def split: sum.splits)
      have "refreshed v E (vw_cache w) (vw_cache w2)" using refreshed_trans ref upd by blast
      moreover have "vw_cache w' = vw_cache w2" using assms ver by (auto split: sum.splits)
      moreover have "\<exists>pk c. pk \<in> ran (k_keys (vw_cache w2)) \<and>
          jwt_check J \<lparr>want_iss = v_issuer v, want_aud = v_audience v\<rparr> (t div 10 ^ 9) tok pk = Inr c \<and> finish_claims c = Inr cl"
        if "r = Inr cl" for cl
        using assms [unfolded ver] that mem by (cases p) (auto split: sum.splits)
      ultimately show ?thesis by simp blast
    qed
  qed
qed

lemma refreshed_published:
  assumes "jwks_env E (v_jwksURL v) Published" and "refreshed v E k k'" and "ran (k_keys k) \<subseteq> Published"
  shows "ran (k_keys k') \<subseteq> Published"
proof -
  have "ran (k_keys k') \<subseteq> Published" if ex: "brk_Execute E (fetchJWKS E (v_jwksURL v)) x = (Inr (k_keys k'), x')" for x x'
    using jwks_env.exec_runs [OF assms(1) ex] jwks_env.fetch_published [OF assms(1)] by blast
  with assms show ?thesis by (auto simp: refreshed_def)
qed

section \<open>The key set document\<close>

lemma key_names [simp]:
  "fold_name ''kty'' = ''kty''" "fold_name ''kid'' = ''kid''" "fold_name ''n'' = ''n''" "fold_name ''e'' = ''e''"
  "fold_name ''use'' = ''use''" "fold_name ''alg'' = ''alg''" "fold_name ''keys'' = ''keys''"
  by code_simp+

lemma jwk_of_json:
  "jwk_of (jwk_json kid pk) = Some \<lparr>jwk_kty = ''RSA'', jwk_kid = kid pk,
     jwk_n = EncodeToString (big_Bytes (rsa_N pk)), jwk_e = EncodeToString (big_Bytes (nat \<bar>rsa_E pk\<bar>))\<rparr>"
  by (simp add: jwk_of_def jwk_json_def string_field_def field_match_def)

lemma big_Int64_small: "n < 2 ^ 63 \<Longrightarrow> big_Int64 n = int n"
  unfolding big_Int64_def by (simp add: signed_of_nat signed_take_bit_int_eq_self)

lemma rsa_key_json:
  assumes "kid pk \<noteq> []" and "0 \<le> rsa_E pk" and "rsa_E pk < 2 ^ 63"
  shows "rsa_key \<lparr>jwk_kty = ''RSA'', jwk_kid = kid pk, jwk_n = EncodeToString (big_Bytes (rsa_N pk)),
     jwk_e = EncodeToString (big_Bytes (nat \<bar>rsa_E pk\<bar>))\<rparr> = Some (kid pk, pk)"
proof -
  have "nat \<bar>rsa_E pk\<bar> < 2 ^ 63" using assms(2,3) by (simp add: nat_less_iff)
  then show ?thesis using assms
    by (cases pk) (simp add: rsa_key_def DecodeString_EncodeToString SetBytes_big_Bytes big_Int64_small)
qed

lemma decode_jwks:
  assumes "pks \<noteq> []"
  shows "decode_set (print_json (jwks_json kid pks)) = Some (map (\<lambda>pk. \<lparr>jwk_kty = ''RSA'', jwk_kid = kid pk,
     jwk_n = EncodeToString (big_Bytes (rsa_N pk)), jwk_e = EncodeToString (big_Bytes (nat \<bar>rsa_E pk\<bar>))\<rparr>) pks)"
proof -
  have "int_json (jwks_json kid pks)"
    by (auto simp: jwks_json_def jwk_json_def intro!: int_json.intros)
  note doc = decode_print [OF this]
  have "all_some (map jwk_of (map (jwk_json kid) ks)) = Some (map (\<lambda>pk. \<lparr>jwk_kty = ''RSA'', jwk_kid = kid pk,
     jwk_n = EncodeToString (big_Bytes (rsa_N pk)), jwk_e = EncodeToString (big_Bytes (nat \<bar>rsa_E pk\<bar>))\<rparr>) ks)" for ks
    by (induction ks) (simp_all add: jwk_of_json)
  then show ?thesis using assms unfolding decode_set_def doc
    by (simp add: jwks_json_def keys_field_def field_match_def)
qed

lemma fold_keys:
  assumes "\<And>pk. pk \<in> set pks \<Longrightarrow> rsa_key (f pk) = Some (kid pk, pk)"
  shows "fold (\<lambda>k m. case rsa_key k of None \<Rightarrow> m | Some (i, pk) \<Rightarrow> m(i \<mapsto> pk)) (map f pks) m =
     m ++ map_of (map (\<lambda>pk. (kid pk, pk)) (rev pks))"
  using assms
proof (induction pks arbitrary: m)
  case (Cons a pks)
  have "m(kid a \<mapsto> a) = m ++ [kid a \<mapsto> a]" by simp
  with Cons show ?case by (simp del: map_add_upd add: map_add_assoc)
qed simp

lemma fetch_handler:
  assumes "http_Do E url x = (Inr (JWKSHandler kid pks), x')" and "pks \<noteq> []"
    and keys: "\<And>pk. pk \<in> set pks \<Longrightarrow> kid pk \<noteq> [] \<and> 0 \<le> rsa_E pk \<and> rsa_E pk < 2 ^ 63"
  shows "fetchJWKS E url x = (Inr (map_of (map (\<lambda>pk. (kid pk, pk)) (rev pks))), x')"
proof -
  let ?f = "\<lambda>pk. \<lparr>jwk_kty = ''RSA'', jwk_kid = kid pk, jwk_n = EncodeToString (big_Bytes (rsa_N pk)),
     jwk_e = EncodeToString (big_Bytes (nat \<bar>rsa_E pk\<bar>))\<rparr>"
  have one: "rsa_key (?f pk) = Some (kid pk, pk)" if "pk \<in> set pks" for pk
    using rsa_key_json keys [OF that] by blast
  have "usable (map ?f pks)" using assms(2) one by (cases pks) (auto simp: usable_def)
  moreover have "collect_keys (map ?f pks) = map_of (map (\<lambda>pk. (kid pk, pk)) (rev pks))"
    using fold_keys [of pks ?f kid Map.empty, OF one] by (simp add: collect_keys_def)
  ultimately show ?thesis using assms(1) decode_jwks [OF assms(2), of kid]
    by (simp add: fetchJWKS_def and_then_def JWKSHandler_def ok_def)
qed

section \<open>Tokens of the identity service\<close>

text \<open>The header names the key.\<close>

lemma Verify_access:
  assumes "jwt_laws J" and "AccessToken J i t0 jti u stat = Inr tok" and "iss_kid i \<noteq> []"
    and "v_issuer v = iss_issuer i" and "v_audience v = ''board''"
    and "refreshIfStale v E w = (Inr () :: verify_err + unit, w1)"
    and "keyFor v E (iss_kid i) w1 = (Inr (jwt_public J (iss_key i)), w2)"
    and "\<bar>t0 + Seconds AccessTokenTTL\<bar> < 2 ^ 53" and "\<And>x. fst (time_Now E x) div 10 ^ 9 < t0 + Seconds AccessTokenTTL"
  shows "\<exists>x. Verify J v E tok w = (Inr \<lparr>c_Subject = FormatInt u, c_Status = stat\<rparr>, w2\<lparr>vw_env := x\<rparr>)"
proof -
  let ?h = "[(''typ'', JStr ''JWT''), (''alg'', JStr ''RS256''), (''kid'', JStr (iss_kid i))]"
  let ?c = "access_claims i t0 jti u stat"
  from assms(2) have sgn: "jwt_SignedString J ?h ?c (iss_key i) = Inr tok"
    unfolding AccessToken_def by (rule iss_sign_InrE)
  have hdr: "jwt_header J [''RS256''] tok = Inr ?h" using jwt_laws.signed_header [OF assms(1) sgn] by simp
  obtain t x where now: "time_Now E (vw_env w2) = (t, x)" by fastforce
  then have "t div 10 ^ 9 < t0 + Seconds AccessTokenTTL" using assms(9) [of "vw_env w2"] by simp
  moreover have "claim_time ?c ''exp'' = Some (t0 + Seconds AccessTokenTTL)"
    using assms(8) by (intro claim_time_FormatInt) simp_all
  ultimately obtain c where chk: "jwt_check J \<lparr>want_iss = v_issuer v, want_aud = v_audience v\<rparr> (t div 10 ^ 9) tok
      (jwt_public J (iss_key i)) = Inr c"
    using jwt_laws.signed_accepted [OF assms(1) sgn, of "\<lparr>want_iss = v_issuer v, want_aud = v_audience v\<rparr>"] assms(4,5)
    by (auto simp: names_iss_def names_aud_def)
  have "map_of c = map_of ?c" using jwt_laws.signed_claims [OF assms(1) sgn chk] by simp
  then have "finish_claims c = Inr \<lparr>c_Subject = FormatInt u, c_Status = stat\<rparr>"
    by (simp add: finish_claims_def GetSubject_def)
  then show ?thesis using hdr assms(3,6,7) chk
    by (intro exI [of _ x]) (simp add: Verify_def and_then_def header_kid_def Now_def now lift_res_def)
qed

text \<open>A breaker that is open, or a provider that is down: nothing is fetched.\<close>

lemma refreshIfStale_down:
  assumes "\<And>f x. isl (fst (brk_Execute E f x))"
  shows "\<exists>w1. refreshIfStale v E w = (Inr () :: verify_err + unit, w1) \<and> k_keys (vw_cache w1) = k_keys (vw_cache w)"
proof -
  obtain q w1 where run: "refreshIfStale v E w = (q :: verify_err + unit, w1)" by fastforce
  from refreshIfStale_refreshed [OF run] have "q = Inr ()" "refreshed v E (vw_cache w) (vw_cache w1)" by auto
  moreover have "\<not> (\<exists>x x'. brk_Execute E (fetchJWKS E (v_jwksURL v)) x = (Inr (k_keys (vw_cache w1)), x'))"
    using assms by (metis fst_conv isl_def Inl_Inr_False)
  ultimately show ?thesis using run by (auto simp: refreshed_def)
qed

text \<open>
  Only tokens under published keys are accepted: start with an empty cache and verify any tokens in
  sequence; whatever the network answers, a token that is accepted passed the signature check under a key
  that the provider published, with this issuer and audience and not expired, and its subject is not empty.
\<close>

lemma verify_run:
  assumes "jwks_env E (v_jwksURL v) Published"
    and "run_all (map (Verify J v E) toks) w = (rs, w')"
    and "ran (k_keys (vw_cache w)) \<subseteq> Published"
  shows "ran (k_keys (vw_cache w')) \<subseteq> Published \<and> balanced (vw_cache w') = balanced (vw_cache w) \<and>
     (\<forall>i < length toks. \<forall>cl. rs ! i = Inr cl \<longrightarrow> (\<exists>pk \<in> Published. \<exists>t c.
        jwt_check J \<lparr>want_iss = v_issuer v, want_aud = v_audience v\<rparr> t (toks ! i) pk = Inr c \<and> finish_claims c = Inr cl))"
proof -
  let ?I = "\<lambda>_ :: nat. \<lambda>w1. ran (k_keys (vw_cache w1)) \<subseteq> Published \<and> balanced (vw_cache w1) = balanced (vw_cache w)"
  let ?Q = "\<lambda>_ :: nat. \<lambda>tok r. \<forall>cl. r = Inr cl \<longrightarrow> (\<exists>pk \<in> Published. \<exists>t c.
        jwt_check J \<lparr>want_iss = v_issuer v, want_aud = v_audience v\<rparr> t tok pk = Inr c \<and> finish_claims c = Inr cl)"
  have "?I (0 + length toks) w' \<and> (\<forall>i < length toks. ?Q (0 + i) (toks ! i) (rs ! i))"
  proof (rule run_all_invariant [where I = ?I and Q = ?Q, OF assms(2)])
    show "?I 0 w" using assms(3) by simp
    show "?I (Suc d) u1 \<and> ?Q d tok r" if "?I d u" "Verify J v E tok u = (r, u1)" for tok u r u1 and d :: nat
    proof -
      note ver = VerifyE [OF that(2)]
      have pub: "ran (k_keys (vw_cache u1)) \<subseteq> Published"
        using refreshed_published [OF assms(1)] ver that(1) by blast
      moreover have "balanced (vw_cache u1) = balanced (vw_cache u)" using ver by (simp add: refreshed_def)
      moreover have "?Q d tok r"
      proof (intro allI impI)
        fix cl
        assume "r = Inr cl"
        with ver obtain pk t c where "pk \<in> ran (k_keys (vw_cache u1))"
          "jwt_check J \<lparr>want_iss = v_issuer v, want_aud = v_audience v\<rparr> t tok pk = Inr c" "finish_claims c = Inr cl" by blast
        with pub show "\<exists>pk \<in> Published. \<exists>t c. jwt_check J \<lparr>want_iss = v_issuer v, want_aud = v_audience v\<rparr> t tok pk = Inr c \<and>
          finish_claims c = Inr cl" by blast
      qed
      ultimately show ?thesis using that(1) by simp
    qed
  qed
  then show ?thesis by simp
qed

section \<open>The rate of refetches\<close>

text \<open>A clock that does not run backwards: readings and calls only move it on.\<close>

locale steady_clock =
  fixes E :: "'w env" and clk :: "'w \<Rightarrow> int"
  assumes reading: "time_Now E x = (t, x') \<Longrightarrow> clk x \<le> t \<and> t \<le> clk x'"
    and executing: "brk_Execute E f x = (r, x') \<Longrightarrow> clk x \<le> clk x'"
begin

abbreviation now_of :: "'w vworld \<Rightarrow> int" where "now_of w \<equiv> clk (vw_env w)"

lemma refresh_clock:
  assumes "jwks_refresh v E w = (r, w')"
  shows "now_of w \<le> now_of w' \<and> k_fetchAttempts (vw_cache w') = k_fetchAttempts (vw_cache w) + 1 \<and>
     k_lastMissRefresh (vw_cache w') = k_lastMissRefresh (vw_cache w)"
proof -
  obtain q x where ex: "brk_Execute E (fetchJWKS E (v_jwksURL v)) (vw_env w) = (q, x)" by fastforce
  obtain t y where now: "time_Now E x = (t, y)" by fastforce
  have "clk (vw_env w) \<le> clk x" "clk x \<le> clk y" using executing [OF ex] reading [OF now] by auto
  with assms ex now show ?thesis
    by (cases q) (auto simp: jwks_refresh_def set_cache_def and_then_def on_env_def Now_def)
qed

lemma keyFor_clock:
  assumes "keyFor v E kid w = (r, w')"
  obtains (free) "now_of w \<le> now_of w'" and "k_fetchAttempts (vw_cache w') = k_fetchAttempts (vw_cache w)"
      and "k_lastMissRefresh (vw_cache w') = k_lastMissRefresh (vw_cache w)"
  | (spent) t1 t2 where "now_of w \<le> t1" and "t1 \<le> t2" and "t2 \<le> now_of w'"
      and "miss_allowed (o_RefreshCooldown (v_opts v)) t1 (k_lastMissRefresh (vw_cache w))"
      and "k_fetchAttempts (vw_cache w') = k_fetchAttempts (vw_cache w) + 1"
      and "k_lastMissRefresh (vw_cache w') = Some t2"
proof (cases "k_keys (vw_cache w) kid")
  case (Some key)
  with assms show thesis by (intro free) (auto simp: keyFor_def)
next
  case None
  obtain t1 x1 where n1: "time_Now E (vw_env w) = (t1, x1)" by fastforce
  obtain t2 x2 where n2: "time_Now E (vw_env (w\<lparr>vw_env := x1\<rparr>)) = (t2, x2)" by fastforce
  have times: "now_of w \<le> t1" "t1 \<le> clk x1" "clk x1 \<le> t2" "t2 \<le> clk x2" using reading [OF n1] reading [OF n2] by simp_all
  show thesis
  proof (cases "miss_allowed (o_RefreshCooldown (v_opts v)) t1 (k_lastMissRefresh (vw_cache w))")
    case False
    with assms None times show thesis by (intro free) (auto simp: keyFor_def Now_bind [OF n1])
  next
    case True
    let ?w3 = "w\<lparr>vw_env := x2, vw_cache := (vw_cache w)\<lparr>k_lastMissRefresh := Some t2\<rparr>\<rparr>"
    obtain p w4 where run: "jwks_refresh v E ?w3 = (p, w4)" by fastforce
    have "vw_cache w' = vw_cache w4 \<and> vw_env w' = vw_env w4"
      using assms run unfolding keyFor_miss [OF None n1 n2 True]
      by (cases p) (auto simp: and_then_def map_err_def lookup_key_def)
    with refresh_clock [OF run] times True show thesis by (intro spent [of t1 t2]) auto
  qed
qed

lemma allowed_gap: "miss_allowed cd t (Some s) \<Longrightarrow> 0 < cd \<Longrightarrow> s + cd \<le> t"
  by (auto simp: miss_allowed_def Since_def min_int64_def max_int64_def)

lemma refetches_after:
  assumes "run_all (map (keyFor v E) kids) w = (rs, w')" and cd: "cd = o_RefreshCooldown (v_opts v)" "0 < cd"
    and "k_lastMissRefresh (vw_cache w) = Some s" and "s \<le> now_of w"
  shows "\<exists>n. k_fetchAttempts (vw_cache w') = k_fetchAttempts (vw_cache w) + word_of_nat n \<and>
     int n * cd \<le> now_of w' - s"
  using assms(1,4,5)
proof (induction kids arbitrary: w rs s)
  case Nil
  then show ?case by (intro exI [of _ 0]) simp
next
  case (Cons kid kids)
  from Cons.prems(1) obtain r w1 rs1 where run: "keyFor v E kid w = (r, w1)" and rest: "run_all (map (keyFor v E) kids) w1 = (rs1, w')"
    by (auto elim!: run_all_ConsE simp del: run_all.simps(2))
  from run show ?case
  proof (cases rule: keyFor_clock)
    case free
    with Cons.IH [OF rest, of s] Cons.prems show ?thesis by auto
  next
    case (spent t1 t2)
    from Cons.IH [OF rest spent(6)] spent(3) obtain n where n: "k_fetchAttempts (vw_cache w') =
        k_fetchAttempts (vw_cache w1) + word_of_nat n" "int n * cd \<le> now_of w' - t2" by blast
    have "s + cd \<le> t1" using allowed_gap spent(4) Cons.prems(2) cd by simp
    with n spent(2,5) show ?thesis by (intro exI [of _ "Suc n"]) (simp add: algebra_simps)
  qed
qed

lemma refetches:
  assumes "run_all (map (keyFor v E) kids) w = (rs, w')" and cd: "cd = o_RefreshCooldown (v_opts v)" "0 < cd"
  shows "\<exists>n. k_fetchAttempts (vw_cache w') = k_fetchAttempts (vw_cache w) + word_of_nat n \<and>
     int n * cd \<le> now_of w' - now_of w + cd \<and> now_of w \<le> now_of w'"
  using assms(1)
proof (induction kids arbitrary: w rs)
  case Nil
  then show ?case using cd by (intro exI [of _ 0]) simp
next
  case (Cons kid kids)
  from Cons.prems(1) obtain r w1 rs1 where run: "keyFor v E kid w = (r, w1)" and rest: "run_all (map (keyFor v E) kids) w1 = (rs1, w')"
    by (auto elim!: run_all_ConsE simp del: run_all.simps(2))
  from run show ?case
  proof (cases rule: keyFor_clock)
    case free
    from Cons.IH [OF rest] obtain n where "k_fetchAttempts (vw_cache w') = k_fetchAttempts (vw_cache w1) + word_of_nat n"
      "int n * cd \<le> now_of w' - now_of w1 + cd" "now_of w1 \<le> now_of w'" by blast
    with free show ?thesis by (intro exI [of _ n]) auto
  next
    case (spent t1 t2)
    from refetches_after [OF rest cd spent(6)] spent(3) obtain n where n: "k_fetchAttempts (vw_cache w') =
        k_fetchAttempts (vw_cache w1) + word_of_nat n" "int n * cd \<le> now_of w' - t2" by blast
    have "0 \<le> int n * cd" using cd by simp
    with n spent show ?thesis by (intro exI [of _ "Suc n"]) (simp add: algebra_simps)
  qed
qed

end

section \<open>A concrete environment\<close>

text \<open>
  The world is a clock that moves one nanosecond per reading and whether the provider is up; the breaker is closed while it
  is.
\<close>

definition demo_vkid :: "rsa_pub \<Rightarrow> string" where "demo_vkid pk = ''k1''"

definition demo_env_up :: "rsa_pub list \<Rightarrow> (int \<times> bool) env" where
  "demo_env_up pks = \<lparr>
     http_Do = (\<lambda>url x. if snd x then (Inr (JWKSHandler demo_vkid pks), x) else (Inl ''connection refused'', x)),
     brk_Execute = (\<lambda>f x. if snd x then (case f x of (r, y) \<Rightarrow> (r, (max (fst x) (fst y), snd x))) else (Inl ''circuit breaker is open'', x)),
     brk_State = (\<lambda>x. if snd x then ''closed'' else ''open''),
     time_Now = (\<lambda>x. (fst x, (fst x + 1, snd x)))\<rparr>"

definition demo_verifier :: verifier where
  "demo_verifier = fst (New ''http://idp/oauth2/v1/jwks'' ''http://idp'' ''board'' None)"

definition demo_cache :: cache where
  "demo_cache = snd (New ''http://idp/oauth2/v1/jwks'' ''http://idp'' ''board'' None)"

lemma demo_decode: "decode_set (resp_body (JWKSHandler demo_vkid [demo_key])) =
    Some [\<lparr>jwk_kty = ''RSA'', jwk_kid = ''k1'', jwk_n = EncodeToString (big_Bytes (rsa_N demo_key)),
      jwk_e = EncodeToString (big_Bytes (nat \<bar>rsa_E demo_key\<bar>))\<rparr>]"
  by (simp add: JWKSHandler_def decode_jwks demo_vkid_def)

interpretation demo_jwks: jwks_env "demo_env_up [demo_key]" url "{demo_key}" for url
proof
  show "\<exists>x1 x2. f x1 = (Inr a, x2)" if "brk_Execute (demo_env_up [demo_key]) f x = (Inr a, x')" for f x a x'
  proof -
    obtain r y where run: "f x = (r, y)" by (rule prod.exhaust)
    with that have "r = Inr a" by (auto simp: demo_env_up_def split: if_splits)
    with run show ?thesis by blast
  qed
  show "ran (collect_keys ks) \<subseteq> {demo_key}"
    if "http_Do (demo_env_up [demo_key]) url x = (Inr r, x')" "resp_status r = 200" "decode_set (resp_body r) = Some ks" for x r x' ks
  proof -
    have "r = JWKSHandler demo_vkid [demo_key]" using that(1) by (auto simp: demo_env_up_def split: if_splits)
    then have "ks = [\<lparr>jwk_kty = ''RSA'', jwk_kid = ''k1'', jwk_n = EncodeToString (big_Bytes (rsa_N demo_key)),
      jwk_e = EncodeToString (big_Bytes (nat \<bar>rsa_E demo_key\<bar>))\<rparr>]" using that(3) demo_decode by simp
    moreover have "rsa_key \<lparr>jwk_kty = ''RSA'', jwk_kid = ''k1'', jwk_n = EncodeToString (big_Bytes (rsa_N demo_key)),
      jwk_e = EncodeToString (big_Bytes (nat \<bar>rsa_E demo_key\<bar>))\<rparr> = Some (''k1'', demo_key)"
      using rsa_key_json [of demo_vkid demo_key] by (simp add: demo_vkid_def demo_key_def)
    ultimately show ?thesis by (simp add: collect_keys_def)
  qed
qed

interpretation demo_clock: steady_clock "demo_env_up pks" fst for pks
  by unfold_locales (auto simp: demo_env_up_def split: if_splits prod.splits)

lemmas demo_env_laws = demo_jwks.jwks_env_axioms demo_clock.steady_clock_axioms

definition demo_access :: string where
  "demo_access = (case AccessToken sealed_jwt demo_issuer 1000 ''j'' 7 ''ACTIVE'' of Inr t \<Rightarrow> t | Inl _ \<Rightarrow> [])"

lemma demo_access_issued: "AccessToken sealed_jwt demo_issuer 1000 ''j'' 7 ''ACTIVE'' = Inr demo_access"
  using sealed_issues(1) [of demo_issuer 1000 "''j''" 7 "''ACTIVE''"]
  by (auto simp: demo_access_def split: sum.splits)

text \<open>A token under a key that the cache does not hold and the server does.\<close>

lemma Verify_refetched:
  assumes "jwt_laws J" and "AccessToken J i t0 jti u stat = Inr tok" and "iss_kid i \<noteq> []"
    and "v_issuer v = iss_issuer i" and "v_audience v = ''board''"
    and "\<And>x. \<exists>x'. brk_Execute E (fetchJWKS E (v_jwksURL v)) x = (Inr keys, x')"
    and "keys (iss_kid i) = Some (jwt_public J (iss_key i))"
    and "k_keys (vw_cache w) (iss_kid i) = None"
    and "\<And>x. miss_allowed (o_RefreshCooldown (v_opts v)) (fst (time_Now E x)) (k_lastMissRefresh (vw_cache w))"
    and "\<bar>t0 + Seconds AccessTokenTTL\<bar> < 2 ^ 53" and "\<And>x. fst (time_Now E x) div 10 ^ 9 < t0 + Seconds AccessTokenTTL"
  shows "\<exists>w'. Verify J v E tok w = (Inr \<lparr>c_Subject = FormatInt u, c_Status = stat\<rparr>, w') \<and>
     k_keys (vw_cache w') = keys"
proof -
  have refr: "\<exists>w2. jwks_refresh v E w1 = (Inr (), w2) \<and> k_keys (vw_cache w2) = keys \<and>
      k_lastMissRefresh (vw_cache w2) = k_lastMissRefresh (vw_cache w1)" for w1
  proof -
    obtain r w2 where run: "jwks_refresh v E w1 = (r, w2)" by fastforce
    from run show ?thesis by (cases rule: jwks_refreshE) (use assms(6) [of "vw_env w1"] run in auto)
  qed
  obtain tn x where now: "time_Now E (vw_env w) = (tn, x)" by fastforce
  obtain w0 where r0: "jwks_refresh v E (w\<lparr>vw_env := x\<rparr>) = (Inr (), w0)" "k_keys (vw_cache w0) = keys"
    "k_lastMissRefresh (vw_cache w0) = k_lastMissRefresh (vw_cache w)" using refr [of "w\<lparr>vw_env := x\<rparr>"] by auto
  define w1 where "w1 = (if Since tn (k_fetchedAt (vw_cache w)) > o_CacheTTL (v_opts v) then w0 else w\<lparr>vw_env := x\<rparr>)"
  have st: "refreshIfStale v E w = (Inr () :: verify_err + unit, w1)"
    by (simp add: refreshIfStale_def Now_bind [OF now] ignore_def r0(1) w1_def)
  have w1: "k_keys (vw_cache w1) = keys \<or> k_keys (vw_cache w1) = k_keys (vw_cache w)"
      "k_lastMissRefresh (vw_cache w1) = k_lastMissRefresh (vw_cache w)"
    using r0(2,3) by (simp_all add: w1_def)
  have "\<exists>w2. keyFor v E (iss_kid i) w1 = (Inr (jwt_public J (iss_key i)), w2) \<and> k_keys (vw_cache w2) = keys"
  proof (cases "k_keys (vw_cache w1) (iss_kid i)")
    case (Some key)
    then have "k_keys (vw_cache w1) = keys" using w1(1) assms(8) by auto
    then show ?thesis using assms(7) by (simp add: keyFor_def)
  next
    case None
    obtain t1 x1 where n1: "time_Now E (vw_env w1) = (t1, x1)" by fastforce
    obtain t2 x2 where n2: "time_Now E (vw_env (w1\<lparr>vw_env := x1\<rparr>)) = (t2, x2)" by fastforce
    have ok: "miss_allowed (o_RefreshCooldown (v_opts v)) t1 (k_lastMissRefresh (vw_cache w1))"
      using assms(9) [of "vw_env w1"] n1 w1(2) by simp
    show ?thesis unfolding keyFor_miss [OF None n1 n2 ok]
      using refr [of "w1\<lparr>vw_env := x2, vw_cache := (vw_cache w1)\<lparr>k_lastMissRefresh := Some t2\<rparr>\<rparr>"] assms(7)
      by (auto simp: and_then_def map_err_def lookup_key_def)
  qed
  then obtain w2 where key: "keyFor v E (iss_kid i) w1 = (Inr (jwt_public J (iss_key i)), w2)" "k_keys (vw_cache w2) = keys" by blast
  from Verify_access [OF assms(1-5) st key(1) assms(10,11)] key(2) show ?thesis by auto
qed

section \<open>Properties\<close>

text \<open>
  Only tokens under published keys are accepted. Start with the empty cache of \<^verbatim>\<open>New\<close> and verify any
  tokens one after the other, whatever the network, the breaker and the clock do, as long as key sets
  served contain published keys only. Then every accepted token passed the library's check under a
  published key, for this issuer and this audience, and its non-empty subject and its status are what is returned; and
  the counters always satisfy attempts = successes + failures.
\<close>

theorem verifier_sound:
  assumes "jwks_env E url Published" and "(v, k) = New url iss aud opt"
    and "run_all (map (Verify J v E) toks) \<lparr>vw_cache = k, vw_env = x\<rparr> = (rs, w')"
  shows "st_FetchAttempts (Stats E w') = st_FetchSuccesses (Stats E w') + st_FetchFailures (Stats E w') \<and>
     (\<forall>i < length toks. \<forall>cl. rs ! i = Inr cl \<longrightarrow> c_Subject cl \<noteq> [] \<and> (\<exists>pk \<in> Published. \<exists>t c.
        jwt_check J \<lparr>want_iss = iss, want_aud = aud\<rparr> t (toks ! i) pk = Inr c \<and>
        map_of c ''sub'' = Some (JStr (c_Subject cl)) \<and>
        c_Status cl = (case map_of c ''status'' of Some (JStr s) \<Rightarrow> s | _ \<Rightarrow> [])))"
proof -
  have v: "v_jwksURL v = url" "v_issuer v = iss" "v_audience v = aud" and k: "k_keys k = Map.empty" "balanced k"
    using assms(2) by (auto simp: New_def balanced_def)
  have fin: "finish_claims c = Inr cl \<Longrightarrow> c_Subject cl \<noteq> [] \<and> map_of c ''sub'' = Some (JStr (c_Subject cl)) \<and>
      c_Status cl = (case map_of c ''status'' of Some (JStr s) \<Rightarrow> s | _ \<Rightarrow> [])" for c cl
    by (auto simp: finish_claims_def GetSubject_def split: option.splits json.splits if_splits)
  from verify_run [of E v Published J toks "\<lparr>vw_cache = k, vw_env = x\<rparr>", OF _ assms(3)] assms(1) v k
  have "balanced (vw_cache w') \<and> (\<forall>i < length toks. \<forall>cl. rs ! i = Inr cl \<longrightarrow> (\<exists>pk \<in> Published. \<exists>t c.
        jwt_check J \<lparr>want_iss = iss, want_aud = aud\<rparr> t (toks ! i) pk = Inr c \<and> finish_claims c = Inr cl))" by simp
  then show ?thesis using fin by (auto simp: Stats_def balanced_def) blast+
qed

text \<open>
  C28. The key set survives the way: what a verifier reads from the document that the identity service
  serves for its keys is exactly those keys under their ids, if their ids are not empty and their
  exponents fit 63 bits.
\<close>

theorem jwks_roundtrip:
  assumes "http_Do E url x = (Inr (JWKSHandler kid pks), x')" and "pks \<noteq> []"
    and "\<forall>pk \<in> set pks. kid pk \<noteq> [] \<and> 0 \<le> rsa_E pk \<and> rsa_E pk < 2 ^ 63" and "inj_on kid (set pks)"
  shows "\<exists>keys. fetchJWKS E url x = (Inr keys, x') \<and> dom keys = kid ` set pks \<and> (\<forall>pk \<in> set pks. keys (kid pk) = Some pk)"
proof -
  let ?m = "map_of (map (\<lambda>pk. (kid pk, pk)) (rev pks))"
  have keyed: "map_of (map (\<lambda>p. (kid p, p)) ps) (kid pk) = Some pk" if "inj_on kid (set ps)" "pk \<in> set ps" for pk ps
    using that by (induction ps) (auto dest: inj_onD simp: inj_on_def)
  have "?m (kid pk) = Some pk" if "pk \<in> set pks" for pk
    using keyed [of "rev pks" pk] that assms(4) by simp
  then show ?thesis using fetch_handler [OF assms(1,2), simplified] assms(3)
    by (intro exI [of _ ?m]) (auto simp: dom_map_of_conv_image_fst image_image)
qed

text \<open>
  C27. An outage of the identity service does not stop the resource server: while every fetch fails, an
  access token that the issuer signed with a key that is in the cache is accepted until it expires,
  however stale the cache is, and the cache keeps its keys.
\<close>

theorem verifier_survives_outage:
  assumes "jwt_laws J" and "AccessToken J i t0 jti u stat = Inr tok" and "iss_kid i \<noteq> []"
    and "v_issuer v = iss_issuer i" and "v_audience v = ''board''"
    and "k_keys (vw_cache w) (iss_kid i) = Some (jwt_public J (iss_key i))"
    and "\<And>f x. isl (fst (brk_Execute E f x))"
    and "\<bar>t0 + Seconds AccessTokenTTL\<bar> < 2 ^ 53" and "\<And>x. fst (time_Now E x) div 10 ^ 9 < t0 + Seconds AccessTokenTTL"
  shows "\<exists>w'. Verify J v E tok w = (Inr \<lparr>c_Subject = FormatInt u, c_Status = stat\<rparr>, w') \<and>
     k_keys (vw_cache w') = k_keys (vw_cache w)"
proof -
  from refreshIfStale_down [OF assms(7), of v w] obtain w1
    where st: "refreshIfStale v E w = (Inr () :: verify_err + unit, w1)" "k_keys (vw_cache w1) = k_keys (vw_cache w)" by blast
  have key: "keyFor v E (iss_kid i) w1 = (Inr (jwt_public J (iss_key i)), w1)" using st(2) assms(6) by (simp add: keyFor_def)
  from Verify_access [OF assms(1-5) st(1) key assms(8,9)] st(2) show ?thesis by auto
qed

text \<open>
  Key rotation reaches the resource server: when the cache does not know the key of an access token, the
  last miss is longer ago than the cooldown, and the identity service answers with a key set that contains the key, the token is
  accepted at once.
\<close>

theorem verifier_follows_rotation:
  assumes "jwt_laws J" and "AccessToken J i t0 jti u stat = Inr tok" and "iss_kid i \<noteq> []"
    and "v_issuer v = iss_issuer i" and "v_audience v = ''board''"
    and "\<And>x. \<exists>x'. brk_Execute E (fetchJWKS E (v_jwksURL v)) x = (Inr keys, x')"
    and "keys (iss_kid i) = Some (jwt_public J (iss_key i))"
    and "k_keys (vw_cache w) (iss_kid i) = None"
    and "\<And>x. miss_allowed (o_RefreshCooldown (v_opts v)) (fst (time_Now E x)) (k_lastMissRefresh (vw_cache w))"
    and "\<bar>t0 + Seconds AccessTokenTTL\<bar> < 2 ^ 53" and "\<And>x. fst (time_Now E x) div 10 ^ 9 < t0 + Seconds AccessTokenTTL"
  shows "\<exists>w'. Verify J v E tok w = (Inr \<lparr>c_Subject = FormatInt u, c_Status = stat\<rparr>, w') \<and>
     k_keys (vw_cache w') = keys"
  by (rule Verify_refetched [OF assms])

text \<open>
  Unknown key ids cannot hammer the identity service: whatever key ids are looked up in sequence, the fetches
  they cause are at least a cooldown apart, so that in a stretch of time there are at most as many as
  cooldowns fit into it, and one.
\<close>

theorem miss_refetch_bound:
  assumes "steady_clock E clk" and "0 < o_RefreshCooldown (v_opts v)"
    and "run_all (map (keyFor v E) kids) w = (rs, w')"
  shows "\<exists>n. k_fetchAttempts (vw_cache w') = k_fetchAttempts (vw_cache w) + word_of_nat n \<and>
     int n * o_RefreshCooldown (v_opts v) \<le> clk (vw_env w') - clk (vw_env w) + o_RefreshCooldown (v_opts v)"
  using steady_clock.refetches [OF assms(1,3) refl assms(2)] by blast

section \<open>Witnesses\<close>

lemma demo_verifier_simps [simp]:
  "v_issuer demo_verifier = ''http://idp''" "v_audience demo_verifier = ''board''"
  "o_RefreshCooldown (v_opts demo_verifier) = 10 * Second" "k_keys demo_cache = Map.empty" "k_lastMissRefresh demo_cache = None"
  by (simp_all add: demo_verifier_def demo_cache_def New_def new_options_def)

lemma demo_issuer_simps [simp]:
  "iss_kid demo_issuer = ''k1''" "iss_issuer demo_issuer = ''http://idp''" "jwt_public sealed_jwt (iss_key demo_issuer) = demo_key"
  by (simp_all add: demo_issuer_def sealed_jwt_def)

lemma demo_fetch: "snd x \<Longrightarrow> fetchJWKS (demo_env_up [demo_key]) url x = (Inr [''k1'' \<mapsto> demo_key], x)"
  using fetch_handler [of "demo_env_up [demo_key]" url x demo_vkid "[demo_key]" x]
  by (simp add: demo_env_up_def demo_vkid_def demo_key_def)

theorem jwks_roundtrip_witness:
  "\<exists>keys. fetchJWKS (demo_env_up [demo_key]) ''u'' (0, True) = (Inr keys, (0, True)) \<and> dom keys = {''k1''}"
  using jwks_roundtrip [of "demo_env_up [demo_key]" "''u''" "(0, True)" demo_vkid "[demo_key]" "(0, True)"]
  by (simp add: demo_env_up_def demo_vkid_def demo_key_def) blast

text \<open>A clock that stands still, with the provider down or up.\<close>

definition still_env :: "bool \<Rightarrow> unit env" where
  "still_env up = \<lparr>http_Do = (\<lambda>url x. (Inr (JWKSHandler demo_vkid [demo_key]), x)),
     brk_Execute = (\<lambda>f x. if up then f x else (Inl ''circuit breaker is open'', x)),
     brk_State = (\<lambda>x. ''closed''), time_Now = (\<lambda>x. (1500 * 10 ^ 9, x))\<rparr>"

lemma still_fetch: "fetchJWKS (still_env up) url x = (Inr [''k1'' \<mapsto> demo_key], x)"
  using fetch_handler [of "still_env up" url x demo_vkid "[demo_key]" x]
  by (simp add: still_env_def demo_vkid_def demo_key_def)

theorem verifier_survives_outage_witness:
  "fst (Verify sealed_jwt demo_verifier (still_env False) demo_access
     \<lparr>vw_cache = demo_cache\<lparr>k_keys := [''k1'' \<mapsto> demo_key]\<rparr>, vw_env = ()\<rparr>) = Inr \<lparr>c_Subject = FormatInt 7, c_Status = ''ACTIVE''\<rparr>"
proof -
  let ?w = "\<lparr>vw_cache = demo_cache\<lparr>k_keys := [''k1'' \<mapsto> demo_key]\<rparr>, vw_env = ()\<rparr>"
  have "\<exists>w'. Verify sealed_jwt demo_verifier (still_env False) demo_access ?w =
      (Inr \<lparr>c_Subject = FormatInt 7, c_Status = ''ACTIVE''\<rparr>, w') \<and> k_keys (vw_cache w') = k_keys (vw_cache ?w)"
    by (rule verifier_survives_outage [OF sealed_laws demo_access_issued])
      (simp_all add: still_env_def AccessTokenTTL_def duration_defs)
  then show ?thesis by auto
qed

theorem verifier_follows_rotation_witness:
  "fst (Verify sealed_jwt demo_verifier (still_env True) demo_access \<lparr>vw_cache = demo_cache, vw_env = ()\<rparr>) =
     Inr \<lparr>c_Subject = FormatInt 7, c_Status = ''ACTIVE''\<rparr>"
proof -
  have "\<exists>w'. Verify sealed_jwt demo_verifier (still_env True) demo_access \<lparr>vw_cache = demo_cache, vw_env = ()\<rparr> =
      (Inr \<lparr>c_Subject = FormatInt 7, c_Status = ''ACTIVE''\<rparr>, w') \<and> k_keys (vw_cache w') = [''k1'' \<mapsto> demo_key]"
  proof (rule verifier_follows_rotation [OF sealed_laws demo_access_issued])
    show "\<exists>x'. brk_Execute (still_env True) (fetchJWKS (still_env True) (v_jwksURL demo_verifier)) x = (Inr [''k1'' \<mapsto> demo_key], x')" for x
      using still_fetch [of True] by (simp add: still_env_def)
  qed (simp_all add: still_env_def AccessTokenTTL_def duration_defs miss_allowed_def Since_def max_int64_def)
  then show ?thesis by auto
qed

theorem miss_refetch_bound_witness:
  "\<exists>n. k_fetchAttempts (vw_cache (snd (run_all (map (keyFor demo_verifier (demo_env_up [demo_key])) [''a'', ''b'', ''c''])
       \<lparr>vw_cache = demo_cache, vw_env = (0, True)\<rparr>))) = word_of_nat n \<and>
     int n * (10 * Second) \<le> fst (vw_env (snd (run_all (map (keyFor demo_verifier (demo_env_up [demo_key])) [''a'', ''b'', ''c''])
       \<lparr>vw_cache = demo_cache, vw_env = (0, True)\<rparr>))) + 10 * Second"
  using miss_refetch_bound [OF demo_env_laws(2) [of "[demo_key]"] _ surjective_pairing, where v = demo_verifier and
      kids = "[''a'', ''b'', ''c'']" and w = "\<lparr>vw_cache = demo_cache, vw_env = (0, True)\<rparr>"]
  by (simp add: duration_defs demo_cache_def New_def)

theorem verifier_sound_witness:
  "let p = run_all (map (Verify sealed_jwt demo_verifier (demo_env_up [demo_key])) [demo_access, ''x''])
       \<lparr>vw_cache = demo_cache, vw_env = (0, True)\<rparr> in
     st_FetchAttempts (Stats (demo_env_up [demo_key]) (snd p)) =
       st_FetchSuccesses (Stats (demo_env_up [demo_key]) (snd p)) + st_FetchFailures (Stats (demo_env_up [demo_key]) (snd p))"
  using verifier_sound [OF demo_env_laws(1), of demo_verifier demo_cache "''http://idp/oauth2/v1/jwks''" "''http://idp''" "''board''" None
      sealed_jwt "[demo_access, ''x'']" "(0, True)", OF _ surjective_pairing]
  by (simp add: Let_def demo_verifier_def demo_cache_def)

end
