(* ===== verification/Board_Grpc.thy ===== *)
theory Board_Grpc
  imports Board Jwks Grpc_Status
begin

text \<open>
  The board's delivery layer (\<^verbatim>\<open>services/board/internal/delivery/grpc\<close>): the interceptor that checks bearer
  tokens (\<^verbatim>\<open>auth.go\<close>) and the handlers (\<^verbatim>\<open>handler.go\<close>). A call runs on the verifier's world and the board's
  database. The logging interceptor around it is in the theory \<open>Logging\<close>.
\<close>

section \<open>Calls\<close>

record 'w board_world =
  bw_ver :: "'w vworld"
  bw_db :: board_db

record rpc_ctx =
  ctx_md :: "metadata option"
  ctx_claims :: "ver_claims option"

datatype board_req = CreatePostRequest string string | ListPostsRequest int int

record post_pb =
  pb_id :: int
  pb_author_id :: string
  pb_title :: string
  pb_content :: string
  pb_created_at :: "datetime option"
  pb_author_nickname :: string

datatype board_resp = CreatePostResponse post_pb | ListPostsResponse "post_pb list" int

definition FullMethod :: "board_req \<Rightarrow> string" where
  "FullMethod r = (case r of
      CreatePostRequest _ _ \<Rightarrow> ''/board.v1.BoardService/CreatePost''
    | ListPostsRequest _ _ \<Rightarrow> ''/board.v1.BoardService/ListPosts'')"

section \<open>The interceptor\<close>

definition methodsRequiringAuth :: "string \<Rightarrow> bool" where
  "methodsRequiringAuth m \<longleftrightarrow> m = ''/board.v1.BoardService/CreatePost''"

definition bearer_value :: "string \<Rightarrow> string option" where
  "bearer_value v = (if has_prefix (ToLower v) ''bearer '' then Some (TrimSpace (drop 7 v)) else None)"

fun first_bearer :: "string list \<Rightarrow> string option" where
  "first_bearer [] = None"
| "first_bearer (v # vs) = (case bearer_value v of Some t \<Rightarrow> Some t | None \<Rightarrow> first_bearer vs)"

definition bearerToken :: "rpc_ctx \<Rightarrow> string" where
  "bearerToken ctx = (case ctx_md ctx of
      None \<Rightarrow> []
    | Some md \<Rightarrow> (case first_bearer (md ''authorization'' @ md ''grpcgateway-authorization'') of
        Some t \<Rightarrow> t | None \<Rightarrow> []))"

type_synonym 'w board_handler = "rpc_ctx \<Rightarrow> board_req \<Rightarrow> ('w board_world, rpc_err, board_resp) action"

definition on_ver :: "('w vworld, 'e, 'a) action \<Rightarrow> ('w board_world, 'e, 'a) action" where
  "on_ver m w = (case m (bw_ver w) of (r, x) \<Rightarrow> (r, w\<lparr>bw_ver := x\<rparr>))"

definition on_board :: "(board_db, 'e, 'a) action \<Rightarrow> ('w board_world, 'e, 'a) action" where
  "on_board m w = (case m (bw_db w) of (r, d) \<Rightarrow> (r, w\<lparr>bw_db := d\<rparr>))"

definition AuthInterceptor ::
  "'sk jwt_lib \<Rightarrow> verifier \<Rightarrow> 'w env \<Rightarrow> 'w board_handler \<Rightarrow> 'w board_handler" where
  "AuthInterceptor J v E handler ctx req =
     (if \<not> methodsRequiringAuth (FullMethod req) then handler ctx req
      else let tok = bearerToken ctx in
        if tok = [] then fail (Unauthenticated, ''missing bearer token'')
        else and_then (map_err (\<lambda>_. (Unauthenticated, ''invalid access token'')) (on_ver (Verify J v E tok))) (\<lambda>claims.
             handler (ctx\<lparr>ctx_claims := Some claims\<rparr>) req))"

section \<open>The handlers\<close>

definition post_msg :: "post_err \<Rightarrow> string" where
  "post_msg e = (case e of ErrPostNotFound \<Rightarrow> ''post not found'' | ErrInvalidPost \<Rightarrow> ''invalid post'' | ErrNotAuthorized \<Rightarrow> ''not authorized'')"

definition board_mapErr :: "board_err \<Rightarrow> rpc_err" where
  "board_mapErr e = (case e of
      BoardDomain ErrInvalidPost \<Rightarrow> (InvalidArgument, post_msg ErrInvalidPost)
    | BoardDomain ErrPostNotFound \<Rightarrow> (NotFound, post_msg ErrPostNotFound)
    | BoardDomain ErrNotAuthorized \<Rightarrow> (PermissionDenied, post_msg ErrNotAuthorized)
    | _ \<Rightarrow> (Internal, ''internal error''))"

definition toProto :: "post \<Rightarrow> post_pb" where
  "toProto p = \<lparr>pb_id = ps_ID p, pb_author_id = ps_AuthorID p, pb_title = ps_Title p, pb_content = ps_Content p,
     pb_created_at = ps_CreatedAt p, pb_author_nickname = ps_AuthorNickname p\<rparr>"

definition h_CreatePost ::
  "board_db post_repo \<Rightarrow> rpc_ctx \<Rightarrow> string \<Rightarrow> string \<Rightarrow> ('w board_world, rpc_err, board_resp) action" where
  "h_CreatePost repo ctx title content = (case ctx_claims ctx of
      None \<Rightarrow> fail (Unauthenticated, ''missing claims'')
    | Some claims \<Rightarrow>
        and_then (map_err board_mapErr (on_board (CreatePost repo (c_Subject claims) title content))) (\<lambda>p.
        ok (CreatePostResponse (toProto p))))"

definition h_ListPosts ::
  "board_db post_repo \<Rightarrow> int \<Rightarrow> int \<Rightarrow> ('w board_world, rpc_err, board_resp) action" where
  "h_ListPosts repo after pageSize =
     and_then (map_err board_mapErr (on_board (ListPosts repo after pageSize))) (\<lambda>(ps, next).
     ok (ListPostsResponse (map toProto ps) next))"

definition board_handle :: "board_db post_repo \<Rightarrow> 'w board_handler" where
  "board_handle repo ctx req = (case req of
      CreatePostRequest title content \<Rightarrow> h_CreatePost repo ctx title content
    | ListPostsRequest after pageSize \<Rightarrow> h_ListPosts repo after pageSize)"

text \<open>A call that reaches the server: no claims in the context yet.\<close>

definition board_serve ::
  "'sk jwt_lib \<Rightarrow> verifier \<Rightarrow> 'w env \<Rightarrow> board_db post_repo \<Rightarrow> metadata option \<Rightarrow> board_req \<Rightarrow>
   ('w board_world, rpc_err, board_resp) action" where
  "board_serve J v E repo md req = AuthInterceptor J v E (board_handle repo) \<lparr>ctx_md = md, ctx_claims = None\<rparr> req"

section \<open>Properties\<close>

lemma on_verE:
  assumes "on_ver m w = (r, w')"
  obtains "m (bw_ver w) = (r, bw_ver w')" and "bw_db w' = bw_db w"
  using assms by (auto simp: on_ver_def split: prod.splits)

lemma on_boardE:
  assumes "on_board m w = (r, w')"
  obtains "m (bw_db w) = (r, bw_db w')" and "bw_ver w' = bw_ver w"
  using assms by (auto simp: on_board_def split: prod.splits)

lemma serve_create:
  assumes "board_serve J v E (NewPostRepo weight) md (CreatePostRequest title content) w = (r, w')"
  obtains (refused) m where "r = Inl (Unauthenticated, m)" and "bw_db w' = bw_db w"
      and "bearerToken \<lparr>ctx_md = md, ctx_claims = None\<rparr> = [] \<or>
        isl (fst (Verify J v E (bearerToken \<lparr>ctx_md = md, ctx_claims = None\<rparr>) (bw_ver w)))"
  | (accepted) cl q x where "bearerToken \<lparr>ctx_md = md, ctx_claims = None\<rparr> \<noteq> []"
      and "Verify J v E (bearerToken \<lparr>ctx_md = md, ctx_claims = None\<rparr>) (bw_ver w) = (Inr cl, x)"
      and "CreatePost (NewPostRepo weight) (c_Subject cl) title content (bw_db w) = (q, bw_db w')"
      and "r = (case q of Inl e \<Rightarrow> Inl (board_mapErr e) | Inr p \<Rightarrow> Inr (CreatePostResponse (toProto p)))"
proof -
  let ?tok = "bearerToken \<lparr>ctx_md = md, ctx_claims = None\<rparr>"
  show thesis
  proof (cases "?tok = []")
    case True
    with assms show thesis
      by (intro refused) (auto simp: board_serve_def AuthInterceptor_def methodsRequiringAuth_def FullMethod_def Let_def fail_def)
  next
    case False
    from assms have "and_then (map_err (\<lambda>_. (Unauthenticated, ''invalid access token'')) (on_ver (Verify J v E ?tok))) (\<lambda>claims.
        h_CreatePost (NewPostRepo weight) \<lparr>ctx_md = md, ctx_claims = Some claims\<rparr> title content) w = (r, w')"
      using False by (simp add: board_serve_def AuthInterceptor_def methodsRequiringAuth_def FullMethod_def Let_def board_handle_def)
    then show thesis
    proof (cases rule: and_thenE)
      case (1 e)
      from 1(1) show thesis by (rule map_errE) (use 1(2) refused in \<open>auto elim: on_verE\<close>)
    next
      case (2 cl w1)
      from 2(1) have ver: "Verify J v E ?tok (bw_ver w) = (Inr cl, bw_ver w1)" "bw_db w1 = bw_db w"
        by (auto elim!: map_errE on_verE)
      obtain q d where run: "CreatePost (NewPostRepo weight) (c_Subject cl) title content (bw_db w1) = (q, d)" by fastforce
      from 2(2) have "bw_db w' = d" "r = (case q of Inl e \<Rightarrow> Inl (board_mapErr e) | Inr p \<Rightarrow> Inr (CreatePostResponse (toProto p)))"
        by (auto simp: h_CreatePost_def and_then_def map_err_def on_board_def run ok_def split: sum.splits)
      with accepted [OF False ver(1)] ver(2) run show thesis by simp
    qed
  qed
qed

lemma created_entries:
  assumes "CreatePost (NewPostRepo weight) a title content d = (q, d')" and "board_wf weight d"
  shows "(\<exists>new. board_entries d' = board_entries d @ new \<and> (\<forall>e \<in> set new. en_author e = a)) \<and>
    (\<forall>p. q = Inr p \<longrightarrow> ps_AuthorID p = a \<and> ps_Title p = title \<and> ps_Content p = content)"
  using assms(1)
proof (cases rule: CreatePost_cases)
  case (valid p)
  with mysql_posts.create_post [OF assms(2) valid(1)] show ?thesis by (auto simp: entry_of_def)
qed simp

text \<open>
  C7. Nobody posts without a valid token, and nobody posts as someone else. Whatever metadata and
  token a CreatePost call carries: either it is refused as unauthenticated and the database is untouched, or the
  verifier accepted its bearer token, and every post it adds and the post it returns have the
  token's subject as author.
\<close>

theorem post_author_is_subject:
  assumes "board_serve J v E (NewPostRepo weight) md (CreatePostRequest title content) w = (r, w')"
    and "board_wf weight (bw_db w)"
  shows "(\<exists>m. r = Inl (Unauthenticated, m)) \<and> bw_db w' = bw_db w \<or>
     (\<exists>cl x. Verify J v E (bearerToken \<lparr>ctx_md = md, ctx_claims = None\<rparr>) (bw_ver w) = (Inr cl, x) \<and>
       (\<exists>new. board_entries (bw_db w') = board_entries (bw_db w) @ new \<and> (\<forall>e \<in> set new. en_author e = c_Subject cl)) \<and>
       (\<forall>p. r = Inr (CreatePostResponse p) \<longrightarrow> pb_author_id p = c_Subject cl \<and> pb_title p = title \<and> pb_content p = content))"
  using assms(1)
proof (cases rule: serve_create)
  case (accepted cl q x)
  note created_entries [OF accepted(3) assms(2)]
  moreover have "\<forall>p. r = Inr (CreatePostResponse p) \<longrightarrow> (\<exists>x. q = Inr x \<and> p = toProto x)"
    using accepted(4) by (auto split: sum.splits)
  ultimately show ?thesis using accepted(2) by (auto simp: toProto_def)
qed auto

text \<open>A library that takes every token for one of subject 7.\<close>

definition demo_lib :: "unit jwt_lib" where
  "demo_lib = \<lparr>jwt_SignedString = (\<lambda>h c k. Inl ''no key''), jwt_header = (\<lambda>ms t. Inr [(''kid'', JStr ''k1'')]),
     jwt_check = (\<lambda>opts now t pk. Inr [(''sub'', JStr ''7''), (''status'', JStr ''ACTIVE'')]), jwt_public = (\<lambda>_. demo_key)\<rparr>"

definition demo_board_world :: "unit board_world" where
  "demo_board_world = \<lparr>bw_ver = \<lparr>vw_cache = demo_cache\<lparr>k_keys := [''k1'' \<mapsto> demo_key]\<rparr>, vw_env = ()\<rparr>, bw_db = demo_board\<rparr>"

definition demo_md :: metadata where
  "demo_md k = (if k = ''authorization'' then [''Basic zz'', ''BEARER  tok ''] else [])"

lemma demo_bearer: "bearerToken \<lparr>ctx_md = Some demo_md, ctx_claims = None\<rparr> = ''tok''"
  by (simp add: bearerToken_def demo_md_def) code_simp

lemma demo_verified:
  "fst (Verify demo_lib demo_verifier (still_env False) ''tok'' (bw_ver demo_board_world)) = Inr \<lparr>c_Subject = ''7'', c_Status = ''ACTIVE''\<rparr>"
proof -
  from refreshIfStale_down [of "still_env False" demo_verifier "bw_ver demo_board_world"] obtain w1
    where "refreshIfStale demo_verifier (still_env False) (bw_ver demo_board_world) = (Inr () :: verify_err + unit, w1)"
      and "k_keys (vw_cache w1) = [''k1'' \<mapsto> demo_key]" by (auto simp: still_env_def demo_board_world_def)
  then show ?thesis
    by (simp add: Verify_def and_then_def demo_lib_def header_kid_def keyFor_def Now_def still_env_def lift_res_def
        finish_claims_def GetSubject_def)
qed

theorem post_author_is_subject_witness:
  "\<exists>new. board_entries (bw_db (snd (board_serve demo_lib demo_verifier (still_env False) (NewPostRepo (\<lambda>x. x)) (Some demo_md)
       (CreatePostRequest ''hi'' ''yo'') demo_board_world))) = board_entries demo_board @ new \<and> (\<forall>e \<in> set new. en_author e = ''7'')"
proof -
  have db: "bw_db demo_board_world = demo_board" by (simp add: demo_board_world_def)
  then have wf: "board_wf (\<lambda>x. x) (bw_db demo_board_world)" using demo_board_wf(1) by simp
  have subj: "c_Subject cl = ''7''" if "Verify demo_lib demo_verifier (still_env False) ''tok'' (bw_ver demo_board_world) = (Inr cl, x)" for cl x
    using demo_verified that by simp
  show ?thesis
    using post_author_is_subject [OF surjective_pairing wf, of demo_lib demo_verifier "still_env False" "Some demo_md" "''hi''" "''yo''"]
      subj unfolding demo_bearer db by (metis append_Nil2 empty_iff empty_set)
qed

end
