(* ===== verification/Logging.thy ===== *)
theory Logging
  imports Identity_Grpc Board_Grpc
begin

text \<open>
  The log of both services while they answer calls: the logger package (\<^verbatim>\<open>pkg/logger/logger.go\<close>), the logging interceptors
  (\<^verbatim>\<open>internal/delivery/grpc/interceptor.go\<close> of both services), the servers that put them around the handlers (\<^verbatim>\<open>server.go\<close> of the
  identity service, \<^verbatim>\<open>NewServer\<close> of the board), and the lines that are written below the interceptors: the mock SMS of \<^verbatim>\<open>RequestOtp\<close>
  (\<^verbatim>\<open>usecase/auth.go\<close>) and the state changes of the circuit breaker (\<^verbatim>\<open>app.go\<close> of the board). A logger is its list of context fields, and
  standard output is the list of lines written to it. The request id (a UUID) and the time that a call took are arguments; the
  time stamp of a line is left out. Calls are taken one after the other.
\<close>

section \<open>The logger\<close>

datatype level = InfoLevel | WarnLevel

record log_line =
  ll_level :: level
  ll_fields :: "(string \<times> string) list"
  ll_duration :: duration
  ll_message :: string

type_synonym logger = "(string \<times> string) list"

definition logger_New :: "string \<Rightarrow> logger" where
  "logger_New service = [(''service'', service)]"

text \<open>The logger that a context carries, if it carries one; without one nothing is written.\<close>

type_synonym log_ctx = "logger option"

definition WithRequestID :: "log_ctx \<Rightarrow> logger \<Rightarrow> string \<Rightarrow> log_ctx" where
  "WithRequestID ctx lg requestID = Some (lg @ [(''request_id'', requestID)])"

record 'w logged =
  lw_inner :: 'w
  lw_out :: "log_line list"

definition emit :: "log_ctx \<Rightarrow> level \<Rightarrow> (string \<times> string) list \<Rightarrow> duration \<Rightarrow> string \<Rightarrow> log_line list" where
  "emit ctx lvl fs took msg = (case ctx of
      None \<Rightarrow> []
    | Some lg \<Rightarrow> [\<lparr>ll_level = lvl, ll_fields = lg @ fs, ll_duration = took, ll_message = msg\<rparr>])"

section \<open>Status texts\<close>

definition code_string :: "code \<Rightarrow> string" where
  "code_string c = (case c of
      InvalidArgument \<Rightarrow> ''InvalidArgument'' | NotFound \<Rightarrow> ''NotFound'' | AlreadyExists \<Rightarrow> ''AlreadyExists''
    | PermissionDenied \<Rightarrow> ''PermissionDenied'' | ResourceExhausted \<Rightarrow> ''ResourceExhausted''
    | FailedPrecondition \<Rightarrow> ''FailedPrecondition'' | Unauthenticated \<Rightarrow> ''Unauthenticated'' | Internal \<Rightarrow> ''Internal'')"

text \<open>\<^verbatim>\<open>status.Code(err).String()\<close> and \<^verbatim>\<open>err.Error()\<close> of a status error.\<close>

definition result_code :: "rpc_err + 'a \<Rightarrow> string" where
  "result_code r = (case r of Inl e \<Rightarrow> code_string (fst e) | Inr _ \<Rightarrow> ''OK'')"

definition rpc_error_text :: "rpc_err \<Rightarrow> string" where
  "rpc_error_text e = ''rpc error: code = '' @ code_string (fst e) @ '' desc = '' @ snd e"

section \<open>Lines written by the code below the interceptors\<close>

text \<open>Code that writes no line, and code that writes one.\<close>

definition quiet :: "('w, 'e, 'a) action \<Rightarrow> ('w logged, 'e, 'a) action" where
  "quiet f w = (case f (lw_inner w) of (r, s) \<Rightarrow> (r, w\<lparr>lw_inner := s\<rparr>))"

definition say :: "log_line list \<Rightarrow> ('w logged, 'e, unit) action" where
  "say ls w = (Inr (), w\<lparr>lw_out := lw_out w @ ls\<rparr>)"

text \<open>The use case and its handler with the line of the mock SMS, which goes to the logger of the service.\<close>

definition RequestOtp_logged ::
  "logger \<Rightarrow> ('s, 'd, 'sk) auth \<Rightarrow> call_env \<Rightarrow> string \<Rightarrow> (('s, 'd) world logged, auth_err, int \<times> string) action" where
  "RequestOtp_logged lg a env phone =
     and_then (quiet (map_err AuthOtp (on_redis (otp_Request (a_redis a) (e_draw env) phone)))) (\<lambda>code.
     and_then (say (emit (Some lg) InfoLevel [(''phone'', phone), (''code'', code)] 0 ''mock SMS: OTP issued'')) (\<lambda>_.
     ok (Seconds CodeTTL, if a_devMode a then code else [])))"

definition h_RequestOtp_logged ::
  "logger \<Rightarrow> (string \<Rightarrow> string) \<Rightarrow> ('s, 'd, 'sk) auth \<Rightarrow> call_env \<Rightarrow> string \<Rightarrow> (('s, 'd) world logged, rpc_err, identity_resp) action" where
  "h_RequestOtp_logged lg quote a env phone =
     (if phone = [] then fail (InvalidArgument, ''phone_number is required'')
      else and_then (map_err (mapErr quote) (RequestOtp_logged lg a env phone)) (\<lambda>(expiresIn, debugCode).
        ok (RequestOtpResponse expiresIn debugCode)))"

definition identity_serve_logged ::
  "logger \<Rightarrow> (string \<Rightarrow> string) \<Rightarrow> ('s, 'd, 'sk) auth \<Rightarrow> call_env \<Rightarrow> identity_req \<Rightarrow> (('s, 'd) world logged, rpc_err, identity_resp) action" where
  "identity_serve_logged lg quote a env req = (case req of
      RequestOtpRequest phone \<Rightarrow> h_RequestOtp_logged lg quote a env phone
    | _ \<Rightarrow> quiet (identity_serve quote a env req))"

text \<open>
  The breaker is not part of the repository; \<open>announced\<close> is the list of the state changes (name, from, to) that it has
  announced so far, of which a call adds some. The callback writes a line for each at once.
\<close>

definition OnStateChange :: "logger \<Rightarrow> string \<times> string \<times> string \<Rightarrow> log_line list" where
  "OnStateChange lg = (\<lambda>(name, from_state, to_state). emit (Some lg) WarnLevel
     [(''breaker'', name), (''from'', from_state), (''to'', to_state)] 0 ''circuit breaker state changed'')"

definition with_breaker_lines ::
  "logger \<Rightarrow> ('w \<Rightarrow> (string \<times> string \<times> string) list) \<Rightarrow> ('w, 'e, 'a) action \<Rightarrow> ('w logged, 'e, 'a) action" where
  "with_breaker_lines lg announced f w = (case f (lw_inner w) of (r, s) \<Rightarrow> (r, \<lparr>lw_inner = s, lw_out = lw_out w @
     concat (map (OnStateChange lg) (drop (length (announced (lw_inner w))) (announced s)))\<rparr>))"

section \<open>The interceptors\<close>

definition LoggingInterceptor ::
  "logger \<Rightarrow> string \<Rightarrow> duration \<Rightarrow> string \<Rightarrow> (log_ctx \<Rightarrow> ('w logged, rpc_err, 'a) action) \<Rightarrow> log_ctx \<Rightarrow> ('w logged, rpc_err, 'a) action" where
  "LoggingInterceptor lg requestID took fullMethod handler ctx0 w =
     (let ctx = WithRequestID ctx0 lg requestID in
      case handler ctx w of (r, w1) \<Rightarrow>
        let (lvl, evt) = (case r of Inr _ \<Rightarrow> (InfoLevel, []) | Inl e \<Rightarrow> (WarnLevel, [(''error'', rpc_error_text e)])) in
        (r, w1\<lparr>lw_out := lw_out w1 @
           emit ctx lvl (evt @ [(''method'', fullMethod), (''code'', result_code r)]) took ''rpc''\<rparr>))"

definition board_LoggingInterceptor ::
  "logger \<Rightarrow> string \<Rightarrow> duration \<Rightarrow> string \<Rightarrow> (log_ctx \<Rightarrow> ('w logged, rpc_err, 'a) action) \<Rightarrow> log_ctx \<Rightarrow> ('w logged, rpc_err, 'a) action" where
  "board_LoggingInterceptor lg uuid took fullMethod handler ctx0 w =
     (let ctx = WithRequestID ctx0 lg uuid in
      case handler ctx w of (r, w1) \<Rightarrow>
        let (lvl, evt) = (case r of Inr _ \<Rightarrow> (InfoLevel, []) | Inl e \<Rightarrow> (WarnLevel, [(''error'', rpc_error_text e)])) in
        (r, w1\<lparr>lw_out := lw_out w1 @
           emit ctx lvl (evt @ [(''method'', fullMethod), (''code'', result_code r)]) took ''rpc''\<rparr>))"

section \<open>The servers\<close>

definition identity_FullMethod :: "identity_req \<Rightarrow> string" where
  "identity_FullMethod r = ''/identity.v1.IdentityService/'' @ (case r of
      RequestOtpRequest _ \<Rightarrow> ''RequestOtp''
    | VerifyOtpRequest _ _ _ _ \<Rightarrow> ''VerifyOtp''
    | CompleteSignupRequest _ _ _ _ _ \<Rightarrow> ''CompleteSignup''
    | CompleteReactivationRequest _ _ _ _ \<Rightarrow> ''CompleteReactivation''
    | VerifyDeviceRequest _ _ _ _ \<Rightarrow> ''VerifyDevice''
    | IssueTokenRequest _ _ \<Rightarrow> ''IssueToken'')"

definition identity_NewServer ::
  "logger \<Rightarrow> (string \<Rightarrow> string) \<Rightarrow> ('s, 'd, 'sk) auth \<Rightarrow> call_env \<Rightarrow> string \<Rightarrow> duration \<Rightarrow> identity_req \<Rightarrow>
   (('s, 'd) world logged, rpc_err, identity_resp) action" where
  "identity_NewServer lg quote a env uuid took req =
     LoggingInterceptor lg uuid took (identity_FullMethod req) (\<lambda>_. identity_serve_logged lg quote a env req) None"

text \<open>The board chains the two interceptors, logging outermost.\<close>

definition board_NewServer ::
  "logger \<Rightarrow> ('w board_world \<Rightarrow> (string \<times> string \<times> string) list) \<Rightarrow> 'sk jwt_lib \<Rightarrow> verifier \<Rightarrow> 'w env \<Rightarrow> board_db post_repo \<Rightarrow>
   string \<Rightarrow> duration \<Rightarrow> metadata option \<Rightarrow> board_req \<Rightarrow> ('w board_world logged, rpc_err, board_resp) action" where
  "board_NewServer lg announced J v E repo uuid took md req = board_LoggingInterceptor lg uuid took (FullMethod req)
     (\<lambda>_. with_breaker_lines lg announced (board_serve J v E repo md req)) None"

section \<open>A log that changes nothing and is complete\<close>

text \<open>
  A handler that only adds lines to the log: its answer and the state it leaves are those of the handler \<open>g\<close> without a log, and the
  lines it adds have a message other than \<^verbatim>\<open>rpc\<close>.
\<close>

definition adds_lines :: "('w logged, 'e, 'a) action \<Rightarrow> ('w, 'e, 'a) action \<Rightarrow> bool" where
  "adds_lines f g \<longleftrightarrow> (\<forall>w. \<exists>ls. fst (f w) = fst (g (lw_inner w)) \<and> lw_inner (snd (f w)) = snd (g (lw_inner w)) \<and>
     lw_out (snd (f w)) = lw_out w @ ls \<and> (\<forall>l \<in> set ls. ll_message l \<noteq> ''rpc''))"

definition field_of :: "string \<Rightarrow> log_line \<Rightarrow> string option" where
  "field_of k l = map_of (ll_fields l) k"

text \<open>What one line says of a call, and what should be said of it.\<close>

definition call_summary :: "log_line \<Rightarrow> level \<times> string option list" where
  "call_summary l = (ll_level l, map (\<lambda>k. field_of k l) [''service'', ''request_id'', ''method'', ''code'', ''error''])"

definition expected_summary :: "string \<Rightarrow> string \<Rightarrow> string \<Rightarrow> rpc_err + 'a \<Rightarrow> level \<times> string option list" where
  "expected_summary service uuid m r = (case r of
      Inr _ \<Rightarrow> (InfoLevel, [Some service, Some uuid, Some m, Some ''OK'', None])
    | Inl (c, d) \<Rightarrow> (WarnLevel, [Some service, Some uuid, Some m, Some (code_string c),
        Some (''rpc error: code = '' @ code_string c @ '' desc = '' @ d)]))"

definition rpc_lines :: "log_line list \<Rightarrow> log_line list" where
  "rpc_lines = filter (\<lambda>l. ll_message l = ''rpc'')"

lemma rpc_lines_append: "rpc_lines (xs @ ys) = rpc_lines xs @ rpc_lines ys"
  by (simp add: rpc_lines_def)

lemma board_LoggingInterceptor_same: "board_LoggingInterceptor = LoggingInterceptor"
  by (intro ext) (simp add: board_LoggingInterceptor_def LoggingInterceptor_def)

lemma interceptor_call:
  assumes "adds_lines (h (WithRequestID ctx (logger_New service) uuid)) g"
    and "LoggingInterceptor (logger_New service) uuid took m h ctx w = (r, w')"
  obtains ls l where "g (lw_inner w) = (r, lw_inner w')" and "lw_out w' = lw_out w @ ls @ [l]"
    and "rpc_lines (ls @ [l]) = [l]" and "call_summary l = expected_summary service uuid m r"
    and "h (WithRequestID ctx (logger_New service) uuid) w = (r, w'\<lparr>lw_out := lw_out w @ ls\<rparr>)"
proof -
  let ?ctx = "WithRequestID ctx (logger_New service) uuid"
  obtain q w1 where run: "h ?ctx w = (q, w1)" by fastforce
  with assms(1) obtain ls where ls: "g (lw_inner w) = (q, lw_inner w1)" "lw_out w1 = lw_out w @ ls" "\<forall>l \<in> set ls. ll_message l \<noteq> ''rpc''"
    unfolding adds_lines_def by (metis fst_conv snd_conv prod.collapse)
  let ?l = "\<lparr>ll_level = (if isl q then WarnLevel else InfoLevel), ll_fields = [(''service'', service), (''request_id'', uuid)] @
      (case q of Inl e \<Rightarrow> [(''error'', rpc_error_text e)] | Inr _ \<Rightarrow> []) @ [(''method'', m), (''code'', result_code q)],
      ll_duration = took, ll_message = ''rpc''\<rparr>"
  have res: "r = q" "w' = w1\<lparr>lw_out := lw_out w1 @ [?l]\<rparr>"
    using assms(2) run by (auto simp: LoggingInterceptor_def WithRequestID_def emit_def logger_New_def Let_def split: sum.splits)
  show thesis
  proof (rule that [of ls ?l])
    show "call_summary ?l = expected_summary service uuid m r" using res(1)
      by (auto simp: call_summary_def expected_summary_def field_of_def result_code_def rpc_error_text_def split: sum.splits)
    show "h ?ctx w = (r, w'\<lparr>lw_out := lw_out w @ ls\<rparr>)" using run res ls(2) by (cases w1) simp
  qed (use ls res in \<open>simp_all add: rpc_lines_def filter_empty_conv\<close>)
qed

text \<open>Any number of calls through an interceptor.\<close>

lemma interceptor_calls:
  assumes "\<And>x. adds_lines (h x (WithRequestID None (logger_New service) (uuid x))) (g x)"
    and "run_all (map (\<lambda>x. LoggingInterceptor (logger_New service) (uuid x) (took x) (m x) (h x) None) xs) w = (rs, w')"
  shows "run_all (map g xs) (lw_inner w) = (rs, lw_inner w') \<and> (\<exists>ls. lw_out w' = lw_out w @ ls \<and>
     map call_summary (rpc_lines ls) = map2 (\<lambda>x. expected_summary service (uuid x) (m x)) xs rs)"
  using assms(2)
proof (induction xs arbitrary: w rs)
  case (Cons x xs)
  from Cons.prems obtain r w1 rs1 where
    one: "LoggingInterceptor (logger_New service) (uuid x) (took x) (m x) (h x) None w = (r, w1)"
    and rest: "run_all (map (\<lambda>x. LoggingInterceptor (logger_New service) (uuid x) (took x) (m x) (h x) None) xs) w1 = (rs1, w')"
    and rs: "rs = r # rs1"
    by (auto elim!: run_all_ConsE simp del: run_all.simps(2))
  from Cons.IH [OF rest] obtain ls' where later: "run_all (map g xs) (lw_inner w1) = (rs1, lw_inner w')" "lw_out w' = lw_out w1 @ ls'"
    "map call_summary (rpc_lines ls') = map2 (\<lambda>x. expected_summary service (uuid x) (m x)) xs rs1" by blast
  from interceptor_call [OF assms(1) one] obtain ls l where "g x (lw_inner w) = (r, lw_inner w1)" "lw_out w1 = lw_out w @ ls @ [l]"
    "rpc_lines (ls @ [l]) = [l]" "call_summary l = expected_summary service (uuid x) (m x) r" by blast
  moreover from this(3) have "rpc_lines ((ls @ [l]) @ ls') = l # rpc_lines ls'" by (simp only: rpc_lines_append append_Cons append_Nil)
  ultimately show ?case using later rs
    by (intro conjI exI [of _ "(ls @ [l]) @ ls'"]) simp_all
qed (simp add: rpc_lines_def)

lemma quiet_adds: "adds_lines (quiet f) f"
  unfolding adds_lines_def quiet_def by (auto split: prod.splits intro!: exI [of _ "[]"])

lemma breaker_adds: "adds_lines (with_breaker_lines lg announced f) f"
  unfolding adds_lines_def with_breaker_lines_def
  by (auto simp: OnStateChange_def emit_def split: prod.splits)

text \<open>The logged request for a code does what the one without log does, and leaves one line if it succeeds.\<close>

lemma h_RequestOtp_logged_eq:
  "h_RequestOtp_logged lg quote a env phone w = (case h_RequestOtp quote a env phone (lw_inner w) of (r, s) \<Rightarrow>
     (r, \<lparr>lw_inner = s, lw_out = lw_out w @ (if isl r then [] else
        [\<lparr>ll_level = InfoLevel, ll_fields = lg @ [(''phone'', phone), (''code'', projr (fst (otp_Request (a_redis a) (e_draw env) phone (w_redis (lw_inner w)))))],
          ll_duration = 0, ll_message = ''mock SMS: OTP issued''\<rparr>])\<rparr>))"
  by (cases w) (auto simp: h_RequestOtp_logged_def h_RequestOtp_def RequestOtp_logged_def RequestOtp_def and_then_def map_err_def
      quiet_def say_def emit_def on_redis_def ok_def fail_def split: sum.splits prod.splits)

lemma identity_adds: "adds_lines (identity_serve_logged lg quote a env req) (identity_serve quote a env req)"
proof (cases req)
  case (RequestOtpRequest phone)
  then show ?thesis unfolding adds_lines_def
    by (auto simp: identity_serve_logged_def identity_serve_def h_RequestOtp_logged_eq split: prod.splits if_splits)
qed (simp_all add: identity_serve_logged_def quiet_adds)

section \<open>Properties\<close>

text \<open>
  C35. The request log is complete and changes nothing. Whatever requests a server gets, one after the other, its answers and its state are
  those of the handlers without any logging; what was in the log stays; and of the lines that are added those with the message \<^verbatim>\<open>rpc\<close>
  correspond to the requests one to one and in order, whatever other lines stand between them: each names the service, the
  request id, the method and the code, and is an information without error if the call succeeded, or a warning with the status text that the
  client gets. So of a call that failed with \<open>Internal\<close> the line has no more than the client: the cause of the error is not in it.
\<close>

theorem requests_logged:
  "(let (rs, w') = run_all (map (\<lambda>(env, uuid, took, req). identity_NewServer (logger_New ''identity'') quote a env uuid took req) reqs) w;
        added = drop (length (lw_out w)) (lw_out w') in
      run_all (map (\<lambda>(env, uuid, took, req). identity_serve quote a env req) reqs) (lw_inner w) = (rs, lw_inner w') \<and>
      take (length (lw_out w)) (lw_out w') = lw_out w \<and>
      map call_summary (rpc_lines added) =
        map2 (\<lambda>(env, uuid, took, req). expected_summary ''identity'' uuid (identity_FullMethod req)) reqs rs) \<and>
   (let (rs, w') = run_all (map (\<lambda>(uuid, took, md, req). board_NewServer (logger_New ''board'') announced J v E repo uuid took md req) calls) bw;
        added = drop (length (lw_out bw)) (lw_out w') in
      run_all (map (\<lambda>(uuid, took, md, req). board_serve J v E repo md req) calls) (lw_inner bw) = (rs, lw_inner w') \<and>
      take (length (lw_out bw)) (lw_out w') = lw_out bw \<and>
      map call_summary (rpc_lines added) =
        map2 (\<lambda>(uuid, took, md, req). expected_summary ''board'' uuid (FullMethod req)) calls rs)"
    (is "?identity \<and> ?board")
proof
  obtain rs w' where run: "run_all (map (\<lambda>(env, uuid, took, req). identity_NewServer (logger_New ''identity'') quote a env uuid took req) reqs) w = (rs, w')"
    by fastforce
  from interceptor_calls [where service = "''identity''" and xs = reqs and uuid = "\<lambda>(env, uuid, took, req). uuid"
      and m = "\<lambda>(env, uuid, took, req). identity_FullMethod req" and took = "\<lambda>(env, uuid, took, req). took"
      and g = "\<lambda>(env, uuid, took, req). identity_serve quote a env req" and w = w and rs = rs and w' = w'
      and h = "\<lambda>(env, uuid, took, req) _. identity_serve_logged (logger_New ''identity'') quote a env req"] run
  show ?identity by (auto simp: identity_NewServer_def identity_adds case_prod_unfold)
next
  obtain rs w' where run: "run_all (map (\<lambda>(uuid, took, md, req). board_NewServer (logger_New ''board'') announced J v E repo uuid took md req) calls) bw = (rs, w')"
    by fastforce
  from interceptor_calls [where service = "''board''" and xs = calls and uuid = "\<lambda>(uuid, took, md, req). uuid"
      and m = "\<lambda>(uuid, took, md, req). FullMethod req" and took = "\<lambda>(uuid, took, md, req). took"
      and g = "\<lambda>(uuid, took, md, req). board_serve J v E repo md req" and w = bw and rs = rs and w' = w'
      and h = "\<lambda>(uuid, took, md, req) _. with_breaker_lines (logger_New ''board'') announced (board_serve J v E repo md req)"] run
  show ?board by (auto simp: board_NewServer_def board_LoggingInterceptor_same breaker_adds case_prod_unfold)
qed

text \<open>In the store with deadlines a verification takes no time.\<close>

lemma mem_verify_now: "m_now (snd (otp_Verify mem_redis phone code s)) = m_now s"
  by (auto simp: otp_Verify_def otp_compare_def redis_hgetall_def redis_int_def mem_redis_def and_then_def map_err_def ignore_def
      ok_def fail_def split: sum.splits rreply.splits if_splits prod.splits option.splits)

text \<open>
  C36. The one-time code is in the log. A successful \<^verbatim>\<open>RequestOtp\<close> of the identity server, in development mode or not, adds exactly one line
  of the mock SMS, with the phone number and the code in clear, while the response carries the code in development mode only.
  And it is the code that counts: while its three minutes last and nothing but a verification touches it, a verification of that code for the
  phone succeeds, on a Redis server that answers. So who reads the log can pass
  the code challenge of any phone number.
\<close>

theorem otp_code_logged:
  assumes "redis_reliable (a_redis a) view clock"
    and "identity_NewServer (logger_New ''identity'') quote a env uuid took (RequestOtpRequest phone) w = (Inr resp, w')"
    and "only_keys view clock (- {codeKey phone}) (w_redis (lw_inner w')) s2"
  shows "\<exists>code. resp = RequestOtpResponse (Seconds CodeTTL) (if a_devMode a then code else []) \<and>
     map (\<lambda>l. (field_of ''phone'' l, field_of ''code'' l))
       (filter (\<lambda>l. ll_message l = ''mock SMS: OTP issued'') (drop (length (lw_out w)) (lw_out w'))) = [(Some phone, Some code)] \<and>
     (\<forall>r s3. otp_Verify (a_redis a) phone code s2 = (r, s3) \<longrightarrow>
        clock s3 < clock (w_redis (lw_inner w')) + CodeTTL \<longrightarrow> r = Inr ())"
proof -
  let ?lg = "logger_New ''identity''"
  obtain ls l where out: "lw_out w' = lw_out w @ ls @ [l]" and rpc: "rpc_lines (ls @ [l]) = [l]"
    and run: "h_RequestOtp_logged ?lg quote a env phone w = (Inr resp, w'\<lparr>lw_out := lw_out w @ ls\<rparr>)"
    by (rule interceptor_call [OF identity_adds assms(2) [unfolded identity_NewServer_def]]) (simp add: identity_serve_logged_def)
  from rpc have "l \<in> set (rpc_lines (ls @ [l]))" by simp
  then have other: "ll_message l \<noteq> ''mock SMS: OTP issued''" by (auto simp: rpc_lines_def)
  from run obtain code s where req: "otp_Request (a_redis a) (e_draw env) phone (w_redis (lw_inner w)) = (Inr code, s)"
    and resp: "resp = RequestOtpResponse (Seconds CodeTTL) (if a_devMode a then code else [])"
    and inner: "w_redis (lw_inner w') = s"
    and ls: "ls = [\<lparr>ll_level = InfoLevel, ll_fields = ?lg @ [(''phone'', phone), (''code'', code)], ll_duration = 0,
      ll_message = ''mock SMS: OTP issued''\<rparr>]"
    by (cases w, cases w') (auto simp: h_RequestOtp_logged_def RequestOtp_logged_def and_then_def map_err_def
      quiet_def say_def emit_def on_redis_def ok_def fail_def split: sum.splits prod.splits if_splits)
  have "r = Inr ()" if "otp_Verify (a_redis a) phone code s2 = (r, s3)" "clock s3 < clock (w_redis (lw_inner w')) + CodeTTL" for r s3
    using redis_reliable.request_then_verify [OF assms(1) req _ that(1)] assms(3) that(2) by (simp add: inner)
  with resp other show ?thesis by (intro exI [of _ code]) (simp add: out ls field_of_def logger_New_def)
qed

theorem otp_code_logged_witness:
  "\<exists>code w'. identity_NewServer (logger_New ''identity'') (\<lambda>x. x) demo_auth demo_env ''id'' 5 (RequestOtpRequest ''7'')
      \<lparr>lw_inner = \<lparr>w_redis = empty_mem, w_db = account_db ACTIVE\<rparr>, lw_out = []\<rparr> = (Inr (RequestOtpResponse 180 []), w') \<and>
     map (\<lambda>l. (field_of ''phone'' l, field_of ''code'' l)) (filter (\<lambda>l. ll_message l = ''mock SMS: OTP issued'') (lw_out w')) =
       [(Some ''7'', Some code)] \<and>
     fst (otp_Verify mem_redis ''7'' code (w_redis (lw_inner w'))) = Inr ()"
proof -
  let ?w = "\<lparr>lw_inner = \<lparr>w_redis = empty_mem, w_db = account_db ACTIVE\<rparr>, lw_out = []\<rparr>"
  let ?run = "identity_NewServer (logger_New ''identity'') (\<lambda>x. x) demo_auth demo_env ''id'' 5 (RequestOtpRequest ''7'') ?w"
  let ?ver = "\<lambda>code. otp_Verify mem_redis ''7'' code (w_redis (lw_inner (snd ?run)))"
  have redis: "a_redis demo_auth = mem_redis" "redis_reliable (a_redis demo_auth) mem_view m_now"
    by (simp_all add: demo_auth_def mem_reliable_contract)
  have run: "fst ?run = Inr (RequestOtpResponse 180 [])" by code_simp
  then have "?run = (Inr (RequestOtpResponse 180 []), snd ?run)" by (simp add: prod_eq_iff)
  from otp_code_logged [OF redis(2) this only_keys_refl] obtain code where
    log: "map (\<lambda>l. (field_of ''phone'' l, field_of ''code'' l)) (filter (\<lambda>l. ll_message l = ''mock SMS: OTP issued'') (lw_out (snd ?run))) =
       [(Some ''7'', Some code)]"
    and ok: "\<And>r s3. ?ver code = (r, s3) \<Longrightarrow> m_now s3 < m_now (w_redis (lw_inner (snd ?run))) + CodeTTL \<Longrightarrow> r = Inr ()"
    by (auto simp: redis(1))
  have "m_now (snd (?ver code)) = m_now (w_redis (lw_inner (snd ?run)))" by (rule mem_verify_now)
  with ok [OF prod.collapse [symmetric]] have "fst (?ver code) = Inr ()" by (simp add: CodeTTL_def duration_defs)
  with log run show ?thesis by (intro exI [of _ code] exI [of _ "snd ?run"]) (simp add: prod_eq_iff)
qed

end
