(* ===== verification/Jwks_Concurrent.thy ===== *)
theory Jwks_Concurrent
  imports Jwks
begin

text \<open>
  The verifier under concurrent calls. A resource server calls \<^verbatim>\<open>Verify\<close> of one \<^verbatim>\<open>Verifier\<close> from many goroutines;
  they share the cache, which \<^verbatim>\<open>mu\<close> guards, and the atomic counters. The unit of interleaving is what the code does
  between two points where another goroutine can come in: a section under the lock, an operation of a counter, the call
  through the breaker. The first part gives these pieces of \<^verbatim>\<open>Verify\<close>, \<^verbatim>\<open>keyFor\<close>, \<^verbatim>\<open>refreshIfStale\<close> and \<^verbatim>\<open>refresh\<close> and shows that
  a goroutine that runs alone computes the functions of \<open>Jwks\<close>; the second interleaves any number of goroutines, with
  a world that moves on between any two steps. A fetch takes effect at one moment of the call. A section under \<^verbatim>\<open>mu\<close> is one
  step that always succeeds: waiting for the lock, starvation and deadlock are not expressed here.
\<close>

section \<open>One goroutine\<close>

text \<open>Where a goroutine stands, and what it does after a refresh: parse the token, or look its key up again.\<close>

datatype vcont = ToParse string | ToLookup string string

datatype vphase =
    Idle
  | Begin string
  | Attempt vcont
  | Fetch vcont
  | FetchFailed vcont
  | Fetched vcont keymap
  | Swap vcont keymap
  | ParseTok string
  | KeyFor string string
  | Miss string string
  | Relook string string
  | CheckTok string rsa_pub
  | Verified string "verify_err + ver_claims"

primrec after_refresh :: "bool \<Rightarrow> vcont \<Rightarrow> vphase" where
  "after_refresh okay (ToParse tok) = ParseTok tok"
| "after_refresh okay (ToLookup tok kid) = (if okay then Relook tok kid else Verified tok (Inl ErrUnknownKey))"

fun goroutine :: "'sk jwt_lib \<Rightarrow> verifier \<Rightarrow> 'w env \<Rightarrow> vphase \<Rightarrow> 'w vworld \<Rightarrow> vphase \<times> 'w vworld" where
  "goroutine J v E Idle w = (Idle, w)"
| "goroutine J v E (Begin tok) w = (case time_Now E (vw_env w) of (t, x) \<Rightarrow>
     (if Since t (k_fetchedAt (vw_cache w)) > o_CacheTTL (v_opts v) then Attempt (ToParse tok) else ParseTok tok,
      w\<lparr>vw_env := x\<rparr>))"
| "goroutine J v E (Attempt c) w =
     (Fetch c, w\<lparr>vw_cache := (vw_cache w)\<lparr>k_fetchAttempts := k_fetchAttempts (vw_cache w) + 1\<rparr>\<rparr>)"
| "goroutine J v E (Fetch c) w = (case brk_Execute E (fetchJWKS E (v_jwksURL v)) (vw_env w) of
      (Inl e, x) \<Rightarrow> (FetchFailed c, w\<lparr>vw_env := x\<rparr>)
    | (Inr keys, x) \<Rightarrow> (Fetched c keys, w\<lparr>vw_env := x\<rparr>))"
| "goroutine J v E (FetchFailed c) w =
     (after_refresh False c, w\<lparr>vw_cache := (vw_cache w)\<lparr>k_fetchFailures := k_fetchFailures (vw_cache w) + 1\<rparr>\<rparr>)"
| "goroutine J v E (Fetched c keys) w =
     (Swap c keys, w\<lparr>vw_cache := (vw_cache w)\<lparr>k_fetchSuccesses := k_fetchSuccesses (vw_cache w) + 1\<rparr>\<rparr>)"
| "goroutine J v E (Swap c keys) w = (case time_Now E (vw_env w) of (t, x) \<Rightarrow>
     (after_refresh True c, w\<lparr>vw_env := x, vw_cache := (vw_cache w)\<lparr>k_keys := keys, k_fetchedAt := Some t\<rparr>\<rparr>))"
| "goroutine J v E (ParseTok tok) w = (case jwt_header J [''RS256''] tok of
      Inl _ \<Rightarrow> Verified tok (Inl ErrInvalidToken)
    | Inr h \<Rightarrow> if header_kid h = [] then Verified tok (Inl ErrUnknownKey) else KeyFor tok (header_kid h), w)"
| "goroutine J v E (KeyFor tok kid) w =
     (case k_keys (vw_cache w) kid of Some key \<Rightarrow> CheckTok tok key | None \<Rightarrow> Miss tok kid, w)"
| "goroutine J v E (Miss tok kid) w = (case time_Now E (vw_env w) of (t1, x1) \<Rightarrow>
     if \<not> miss_allowed (o_RefreshCooldown (v_opts v)) t1 (k_lastMissRefresh (vw_cache w))
     then (Verified tok (Inl ErrUnknownKey), w\<lparr>vw_env := x1\<rparr>)
     else case time_Now E x1 of (t2, x2) \<Rightarrow>
       (Attempt (ToLookup tok kid), w\<lparr>vw_env := x2, vw_cache := (vw_cache w)\<lparr>k_lastMissRefresh := Some t2\<rparr>\<rparr>))"
| "goroutine J v E (Relook tok kid) w =
     (case k_keys (vw_cache w) kid of Some key \<Rightarrow> CheckTok tok key | None \<Rightarrow> Verified tok (Inl ErrUnknownKey), w)"
| "goroutine J v E (CheckTok tok pk) w = (case time_Now E (vw_env w) of (t, x) \<Rightarrow>
     (Verified tok (case jwt_check J \<lparr>want_iss = v_issuer v, want_aud = v_audience v\<rparr> (t div 10 ^ 9) tok pk of
        Inl _ \<Rightarrow> Inl ErrInvalidToken | Inr c \<Rightarrow> finish_claims c), w\<lparr>vw_env := x\<rparr>))"
| "goroutine J v E (Verified tok r) w = (Verified tok r, w)"

abbreviation advance :: "'sk jwt_lib \<Rightarrow> verifier \<Rightarrow> 'w env \<Rightarrow> vphase \<times> 'w vworld \<Rightarrow> vphase \<times> 'w vworld" where
  "advance J v E pw \<equiv> goroutine J v E (fst pw) (snd pw)"

subsection \<open>It comes to an end\<close>

text \<open>How many steps a goroutine has left at most, and the token it was called with.\<close>

primrec cont_todo :: "vcont \<Rightarrow> nat" where
  "cont_todo (ToParse tok) = 9"
| "cont_todo (ToLookup tok kid) = 2"

primrec todo :: "vphase \<Rightarrow> nat" where
  "todo Idle = 0"
| "todo (Begin tok) = 14"
| "todo (Attempt c) = cont_todo c + 4"
| "todo (Fetch c) = cont_todo c + 3"
| "todo (FetchFailed c) = cont_todo c + 1"
| "todo (Fetched c keys) = cont_todo c + 2"
| "todo (Swap c keys) = cont_todo c + 1"
| "todo (ParseTok tok) = 9"
| "todo (KeyFor tok kid) = 8"
| "todo (Miss tok kid) = 7"
| "todo (Relook tok kid) = 2"
| "todo (CheckTok tok pk) = 1"
| "todo (Verified tok r) = 0"

primrec cont_token :: "vcont \<Rightarrow> string" where
  "cont_token (ToParse tok) = tok"
| "cont_token (ToLookup tok kid) = tok"

primrec token_of :: "vphase \<Rightarrow> string option" where
  "token_of Idle = None"
| "token_of (Begin tok) = Some tok"
| "token_of (Attempt c) = Some (cont_token c)"
| "token_of (Fetch c) = Some (cont_token c)"
| "token_of (FetchFailed c) = Some (cont_token c)"
| "token_of (Fetched c keys) = Some (cont_token c)"
| "token_of (Swap c keys) = Some (cont_token c)"
| "token_of (ParseTok tok) = Some tok"
| "token_of (KeyFor tok kid) = Some tok"
| "token_of (Miss tok kid) = Some tok"
| "token_of (Relook tok kid) = Some tok"
| "token_of (CheckTok tok pk) = Some tok"
| "token_of (Verified tok r) = Some tok"

lemma goroutine_progress:
  "todo (fst (goroutine J v E p w)) \<le> todo p - 1 \<and> token_of (fst (goroutine J v E p w)) = token_of p"
proof -
  have "todo (after_refresh b c) \<le> cont_todo c \<and> token_of (after_refresh b c) = Some (cont_token c)" for b c
    by (cases c) simp_all
  then show ?thesis by (cases p) (auto split: prod.splits sum.splits option.splits)
qed

subsection \<open>Alone it computes the sequential functions\<close>

definition runs_to :: "'sk jwt_lib \<Rightarrow> verifier \<Rightarrow> 'w env \<Rightarrow> vphase \<times> 'w vworld \<Rightarrow> vphase \<times> 'w vworld \<Rightarrow> bool" where
  "runs_to J v E a b \<longleftrightarrow> (\<exists>n. (advance J v E ^^ n) a = b)"

lemma runs_toI: "(advance J v E ^^ n) a = b \<Longrightarrow> runs_to J v E a b"
  unfolding runs_to_def by blast

lemma runs_to_trans:
  assumes "runs_to J v E a b" and "runs_to J v E b c"
  shows "runs_to J v E a c"
proof -
  from assms obtain m n where "(advance J v E ^^ m) a = b" "(advance J v E ^^ n) b = c" unfolding runs_to_def by blast
  then show ?thesis by (intro runs_toI [where n = "n + m"]) (simp add: funpow_add)
qed

lemmas runs_to_0 [simp] = runs_toI [where n = 0, simplified]
lemmas runs_to_1 = runs_toI [where n = 1, simplified]

lemma refresh_runs:
  assumes "jwks_refresh v E w = (r, w')"
  shows "runs_to J v E (Attempt c, w) (after_refresh (\<not> isl r) c, w')"
proof -
  obtain q x where ex: "brk_Execute E (fetchJWKS E (v_jwksURL v)) (vw_env w) = (q, x)" by fastforce
  obtain t y where now: "time_Now E x = (t, y)" by fastforce
  note defs = jwks_refresh_def set_cache_def and_then_def on_env_def Now_def eval_nat_numeral
  show ?thesis
  proof (cases q)
    case (Inl e)
    with assms ex show ?thesis by (intro runs_toI [where n = 3]) (auto simp: defs)
  next
    case (Inr keys)
    with assms ex now show ?thesis by (intro runs_toI [where n = 4]) (auto simp: defs)
  qed
qed

lemma refreshIfStale_runs:
  assumes "refreshIfStale v E w = (r, w')"
  shows "runs_to J v E (Begin tok, w) (ParseTok tok, w')"
proof -
  obtain t x where now: "time_Now E (vw_env w) = (t, x)" by fastforce
  obtain q w2 where ref: "jwks_refresh v E (w\<lparr>vw_env := x\<rparr>) = (q, w2)" by fastforce
  show ?thesis
  proof (cases "Since t (k_fetchedAt (vw_cache w)) > o_CacheTTL (v_opts v)")
    case True
    then have "runs_to J v E (Begin tok, w) (Attempt (ToParse tok), w\<lparr>vw_env := x\<rparr>)"
      by (intro runs_to_1) (simp add: now)
    moreover have "w' = w2"
      using assms True by (simp add: refreshIfStale_def Now_bind [OF now] ignore_def ref)
    ultimately show ?thesis using runs_to_trans refresh_runs [OF ref, of J "ToParse tok"] by fastforce
  next
    case False
    with assms show ?thesis by (intro runs_to_1) (simp add: now refreshIfStale_def Now_bind [OF now])
  qed
qed

lemma keyFor_runs:
  assumes "keyFor v E kid w = (r, w')"
  shows "runs_to J v E (KeyFor tok kid, w)
    (case r of Inl e \<Rightarrow> Verified tok (Inl ErrUnknownKey) | Inr pk \<Rightarrow> CheckTok tok pk, w')"
proof (cases "k_keys (vw_cache w) kid")
  case (Some key)
  with assms show ?thesis by (intro runs_to_1) (auto simp: keyFor_def)
next
  case None
  obtain t1 x1 where n1: "time_Now E (vw_env w) = (t1, x1)" by fastforce
  obtain t2 x2 where n2: "time_Now E (vw_env (w\<lparr>vw_env := x1\<rparr>)) = (t2, x2)" by fastforce
  show ?thesis
  proof (cases "miss_allowed (o_RefreshCooldown (v_opts v)) t1 (k_lastMissRefresh (vw_cache w))")
    case False
    with assms None show ?thesis
      by (intro runs_toI [where n = 2]) (auto simp: eval_nat_numeral keyFor_def Now_bind [OF n1] n1)
  next
    case True
    let ?w3 = "w\<lparr>vw_env := x2, vw_cache := (vw_cache w)\<lparr>k_lastMissRefresh := Some t2\<rparr>\<rparr>"
    obtain q w4 where ref: "jwks_refresh v E ?w3 = (q, w4)" by fastforce
    have "runs_to J v E (KeyFor tok kid, w) (Attempt (ToLookup tok kid), ?w3)"
      using None True n1 n2 by (intro runs_toI [where n = 2]) (simp add: eval_nat_numeral)
    note run = runs_to_trans [OF this refresh_runs [OF ref]]
    show ?thesis
    proof (cases q)
      case (Inl e)
      with assms run show ?thesis
        unfolding keyFor_miss [OF None n1 n2 True] by (auto simp: and_then_def map_err_def ref)
    next
      case (Inr u)
      have "runs_to J v E (Relook tok kid, w4)
        (case r of Inl e \<Rightarrow> Verified tok (Inl ErrUnknownKey) | Inr pk \<Rightarrow> CheckTok tok pk, w')"
        using assms Inr unfolding keyFor_miss [OF None n1 n2 True]
        by (intro runs_to_1) (auto simp: and_then_def map_err_def ref lookup_key_def split: option.splits)
      with run Inr show ?thesis using runs_to_trans by fastforce
    qed
  qed
qed

lemma Verify_runs: "runs_to J v E (Begin tok, w) (Verified tok (fst (Verify J v E tok w)), snd (Verify J v E tok w))"
proof -
  obtain q w1 where st: "refreshIfStale v E w = (q :: verify_err + unit, w1)" by fastforce
  have q: "q = Inr ()" using refreshIfStale_refreshed [OF st] by simp
  note stale = refreshIfStale_runs [OF st, of J tok]
  show ?thesis
  proof (cases "jwt_header J [''RS256''] tok")
    case (Inl e)
    with st q show ?thesis
      by (intro runs_to_trans [OF stale] runs_to_1) (simp add: Verify_def and_then_def fail_def)
  next
    case (Inr h)
    show ?thesis
    proof (cases "header_kid h = []")
      case True
      with st q Inr show ?thesis
        by (intro runs_to_trans [OF stale] runs_to_1) (simp add: Verify_def and_then_def fail_def)
    next
      case False
      obtain p w2 where key: "keyFor v E (header_kid h) w1 = (p, w2)" by fastforce
      have "runs_to J v E (ParseTok tok, w1) (KeyFor tok (header_kid h), w1)"
        using Inr False by (intro runs_to_1) simp
      note pre = runs_to_trans [OF stale runs_to_trans [OF this keyFor_runs [OF key]]]
      show ?thesis
      proof (cases p)
        case (Inl e)
        from key have "e = ErrUnknownKey" by (cases rule: keyForE) (use Inl in \<open>auto split: option.splits\<close>)
        with pre Inl Inr False st q key show ?thesis by (simp add: Verify_def and_then_def)
      next
        case ok: (Inr pk)
        obtain t x where now: "time_Now E (vw_env w2) = (t, x)" by fastforce
        show ?thesis
          by (rule runs_to_trans [OF pre], rule runs_to_1)
            (use ok Inr False st q key now in \<open>auto simp: Verify_def and_then_def Now_def fail_def lift_res_def split: sum.splits\<close>)
      qed
    qed
  qed
qed

lemma advance_fix: "todo (fst a) = 0 \<Longrightarrow> (advance J v E ^^ n) a = a"
proof (induction n)
  case (Suc n)
  have "advance J v E a = a" using Suc.prems by (cases a; cases "fst a") auto
  with Suc show ?case by simp
qed simp

lemma advance_todo: "todo (fst ((advance J v E ^^ n) a)) \<le> todo (fst a) - n"
proof (induction n)
  case (Suc n)
  with goroutine_progress [of J v E "fst ((advance J v E ^^ n) a)" "snd ((advance J v E ^^ n) a)"] show ?case
    unfolding funpow.simps comp_apply by linarith
qed simp

lemma runs_to_end:
  assumes "runs_to J v E a b" and "todo (fst b) = 0" and "todo (fst a) \<le> n"
  shows "(advance J v E ^^ n) a = b"
proof -
  from assms(1) obtain m where m: "(advance J v E ^^ m) a = b" unfolding runs_to_def by blast
  have z: "todo (fst ((advance J v E ^^ n) a)) = 0" using advance_todo [where n = n and a = a] assms(3) by (metis diff_is_0_eq le_zero_eq)
  have "(advance J v E ^^ n) b = b" "(advance J v E ^^ m) ((advance J v E ^^ n) a) = (advance J v E ^^ n) a"
    using advance_fix assms(2) z by blast+
  moreover have "(advance J v E ^^ n) ((advance J v E ^^ m) a) = (advance J v E ^^ m) ((advance J v E ^^ n) a)"
    by (simp flip: comp_apply [of "advance J v E ^^ n"] comp_apply [of "advance J v E ^^ m"] funpow_add add: add.commute)
  ultimately show ?thesis by (simp add: m)
qed

section \<open>Many goroutines\<close>

text \<open>
  A configuration: the shared world, where each goroutine stands, and what an observer of the misses has noted, from the
  clock and the phases and not from the cache: the time on the clock whenever a miss was let through to a refetch, oldest
  first, and the number of calls through the breaker that were made for a miss. The relation \<open>R\<close> says how the world outside moves on: time
  passes, the provider rotates its keys, goes down or comes back.
\<close>

record miss_log =
  ml_admitted :: "int list"
  ml_fetched :: nat

definition no_misses :: miss_log where
  "no_misses = \<lparr>ml_admitted = [], ml_fetched = 0\<rparr>"

definition observe :: "'w env \<Rightarrow> vphase \<Rightarrow> vphase \<Rightarrow> 'w vworld \<Rightarrow> miss_log \<Rightarrow> miss_log" where
  "observe E p p' w ml = (case p of
      Miss _ _ \<Rightarrow> (case p' of
          Attempt _ \<Rightarrow> ml\<lparr>ml_admitted := ml_admitted ml @ [fst (time_Now E (vw_env w))]\<rparr>
        | _ \<Rightarrow> ml)
    | Fetch (ToLookup _ _) \<Rightarrow> ml\<lparr>ml_fetched := ml_fetched ml + 1\<rparr>
    | _ \<Rightarrow> ml)"

record 'w vconf =
  vc_world :: "'w vworld"
  vc_threads :: "nat \<Rightarrow> vphase"
  vc_misses :: miss_log

inductive verifiers :: "'sk jwt_lib \<Rightarrow> verifier \<Rightarrow> 'w env \<Rightarrow> ('w \<Rightarrow> 'w \<Rightarrow> bool) \<Rightarrow> 'w vconf \<Rightarrow> 'w vconf \<Rightarrow> bool"
  for J v E R where
  call: "todo (vc_threads c i) = 0 \<Longrightarrow> verifiers J v E R c (c\<lparr>vc_threads := (vc_threads c)(i := Begin tok)\<rparr>)"
| run: "goroutine J v E (vc_threads c i) (vc_world c) = (p, w) \<Longrightarrow> verifiers J v E R c
     \<lparr>vc_world = w, vc_threads = (vc_threads c)(i := p), vc_misses = observe E (vc_threads c i) p (vc_world c) (vc_misses c)\<rparr>"
| outside: "R (vw_env (vc_world c)) x \<Longrightarrow> verifiers J v E R c (c\<lparr>vc_world := (vc_world c)\<lparr>vw_env := x\<rparr>\<rparr>)"

definition started :: "cache \<Rightarrow> 'w \<Rightarrow> 'w vconf" where
  "started k x = \<lparr>vc_world = \<lparr>vw_cache = k, vw_env = x\<rparr>, vc_threads = (\<lambda>_. Idle), vc_misses = no_misses\<rparr>"

text \<open>Steps of one goroutine in a row are steps of the system.\<close>

lemma runs_to_verifiers:
  assumes "runs_to J v E (vc_threads c i, vc_world c) (p, w)"
  shows "\<exists>ms. (verifiers J v E R)\<^sup>*\<^sup>* c \<lparr>vc_world = w, vc_threads = (vc_threads c)(i := p), vc_misses = ms\<rparr>"
proof -
  from assms obtain n where "(advance J v E ^^ n) (vc_threads c i, vc_world c) = (p, w)" unfolding runs_to_def by blast
  then show ?thesis
  proof (induction n arbitrary: p w)
    case 0
    then show ?case by (intro exI [of _ "vc_misses c"]) (cases c, auto simp: fun_upd_idem)
  next
    case (Suc n)
    obtain p1 w1 where mid: "(advance J v E ^^ n) (vc_threads c i, vc_world c) = (p1, w1)" by fastforce
    with Suc.prems have go: "goroutine J v E p1 w1 = (p, w)" by simp
    from Suc.IH [OF mid] obtain ms where
      "(verifiers J v E R)\<^sup>*\<^sup>* c \<lparr>vc_world = w1, vc_threads = (vc_threads c)(i := p1), vc_misses = ms\<rparr>" by blast
    moreover let ?c1 = "\<lparr>vc_world = w1, vc_threads = (vc_threads c)(i := p1), vc_misses = ms\<rparr>"
    have "verifiers J v E R ?c1 \<lparr>vc_world = w, vc_threads = (vc_threads c)(i := p),
        vc_misses = observe E p1 p w1 ms\<rparr>"
      using verifiers.run [of J v E ?c1 i p w R] go by simp
    ultimately show ?case by (blast intro: rtranclp.rtrancl_into_rtrancl)
  qed
qed

lemma thread_runs:
  assumes "runs_to J v E (q i, w) (p, w')"
  shows "\<exists>ms'. (verifiers J v E R)\<^sup>*\<^sup>* \<lparr>vc_world = w, vc_threads = q, vc_misses = ms\<rparr>
    \<lparr>vc_world = w', vc_threads = q(i := p), vc_misses = ms'\<rparr>"
  using runs_to_verifiers [of J v E "\<lparr>vc_world = w, vc_threads = q, vc_misses = ms\<rparr>" i p w' R] assms by simp

subsection \<open>What every interleaving keeps\<close>

text \<open>Keys in hand are published, and a claim that was accepted passed the check under a published key.\<close>

definition vouched :: "'sk jwt_lib \<Rightarrow> verifier \<Rightarrow> rsa_pub set \<Rightarrow> string \<Rightarrow> ver_claims \<Rightarrow> bool" where
  "vouched J v Published tok cl \<longleftrightarrow> (\<exists>pk \<in> Published. \<exists>t c.
     jwt_check J \<lparr>want_iss = v_issuer v, want_aud = v_audience v\<rparr> t tok pk = Inr c \<and> finish_claims c = Inr cl)"

lemma vouchedI:
  "pk \<in> P \<Longrightarrow> jwt_check J \<lparr>want_iss = v_issuer v, want_aud = v_audience v\<rparr> t tok pk = Inr c \<Longrightarrow> finish_claims c = Inr cl \<Longrightarrow>
   vouched J v P tok cl"
  unfolding vouched_def by blast

primrec phase_sound :: "'sk jwt_lib \<Rightarrow> verifier \<Rightarrow> rsa_pub set \<Rightarrow> vphase \<Rightarrow> bool" where
  "phase_sound J v P Idle = True"
| "phase_sound J v P (Begin tok) = True"
| "phase_sound J v P (Attempt c) = True"
| "phase_sound J v P (Fetch c) = True"
| "phase_sound J v P (FetchFailed c) = True"
| "phase_sound J v P (Fetched c keys) = (ran keys \<subseteq> P)"
| "phase_sound J v P (Swap c keys) = (ran keys \<subseteq> P)"
| "phase_sound J v P (ParseTok tok) = True"
| "phase_sound J v P (KeyFor tok kid) = True"
| "phase_sound J v P (Miss tok kid) = True"
| "phase_sound J v P (Relook tok kid) = True"
| "phase_sound J v P (CheckTok tok pk) = (pk \<in> P)"
| "phase_sound J v P (Verified tok r) = (\<forall>cl. r = Inr cl \<longrightarrow> vouched J v P tok cl)"

lemma goroutine_sound:
  assumes "jwks_env E (v_jwksURL v) P" and "goroutine J v E p w = (p', w')"
    and "phase_sound J v P p" and "ran (k_keys (vw_cache w)) \<subseteq> P"
  shows "phase_sound J v P p' \<and> ran (k_keys (vw_cache w')) \<subseteq> P"
proof -
  have fetched: "ran keys \<subseteq> P" if "brk_Execute E (fetchJWKS E (v_jwksURL v)) x = (Inr keys, x')" for keys x x'
    using jwks_env.exec_runs [OF assms(1) that] jwks_env.fetch_published [OF assms(1)] by blast
  have after: "phase_sound J v P (after_refresh b c)" for b c by (cases c) simp_all
  have held: "pk \<in> P" if "k_keys (vw_cache w) kid = Some pk" for kid pk using assms(4) that by (auto simp: ran_def)
  show ?thesis
    using assms(2-4)
    by (cases p) (auto simp: after intro: vouchedI held dest: fetched split: prod.splits sum.splits option.splits if_splits)
qed

text \<open>A goroutine between the count of its attempt and the count of its outcome.\<close>

primrec in_flight :: "vphase \<Rightarrow> bool" where
  "in_flight Idle = False"
| "in_flight (Begin tok) = False"
| "in_flight (Attempt c) = False"
| "in_flight (Fetch c) = True"
| "in_flight (FetchFailed c) = True"
| "in_flight (Fetched c keys) = True"
| "in_flight (Swap c keys) = False"
| "in_flight (ParseTok tok) = False"
| "in_flight (KeyFor tok kid) = False"
| "in_flight (Miss tok kid) = False"
| "in_flight (Relook tok kid) = False"
| "in_flight (CheckTok tok pk) = False"
| "in_flight (Verified tok r) = False"

lemma goroutine_counts:
  assumes "goroutine J v E p w = (p', w')"
  shows "k_fetchAttempts (vw_cache w') + of_bool (in_flight p) + k_fetchSuccesses (vw_cache w) + k_fetchFailures (vw_cache w) =
     k_fetchAttempts (vw_cache w) + of_bool (in_flight p') + k_fetchSuccesses (vw_cache w') + k_fetchFailures (vw_cache w')"
proof -
  have "\<not> in_flight (after_refresh b c)" for b c by (cases c) simp_all
  then show ?thesis using assms
    by (cases p) (auto split: prod.splits sum.splits option.splits if_splits)
qed

lemma card_upd:
  assumes "finite {j. f (q j)}"
  shows "finite {j. f ((q(i := p)) j)} \<and>
    (of_nat (card {j. f ((q(i := p)) j)}) :: 'a :: ring_1) = of_nat (card {j. f (q j)}) + of_bool (f p) - of_bool (f (q i))"
proof -
  let ?A = "{j. f (q j)}"
  have eq: "{j. f ((q(i := p)) j)} = (if f p then insert i ?A else ?A - {i})" by auto
  have i: "i \<in> ?A \<longleftrightarrow> f (q i)" by simp
  have "card ?A = Suc (card (?A - {i}))" if "f (q i)" using assms that by (intro card.remove) auto
  then have "(of_nat (card (?A - {i})) :: 'a) = of_nat (card ?A) - 1" if "f (q i)" using that by simp
  with assms i show ?thesis unfolding eq
    by (simp add: card_insert_if insert_absorb del: card_Diff_insert card_Diff_singleton card_Diff_singleton_if)
qed

lemma counts_balance:
  fixes a :: "64 word"
  assumes "a' + x + s + f = a + y + s' + f'" and "a = s + f + n" and "n' = n + y - x"
  shows "a' = s' + f' + n'"
proof -
  have "a' = a + y + s' + f' - x - s - f" using assms(1) by (simp add: algebra_simps)
  then show ?thesis by (simp add: assms(2,3))
qed

definition verifiers_inv :: "'sk jwt_lib \<Rightarrow> verifier \<Rightarrow> rsa_pub set \<Rightarrow> 'w vconf \<Rightarrow> bool" where
  "verifiers_inv J v P c \<longleftrightarrow> (let k = vw_cache (vc_world c) in
     ran (k_keys k) \<subseteq> P \<and> (\<forall>i. phase_sound J v P (vc_threads c i)) \<and>
     finite {i. in_flight (vc_threads c i)} \<and>
     k_fetchAttempts k = k_fetchSuccesses k + k_fetchFailures k + of_nat (card {i. in_flight (vc_threads c i)}))"

lemma in_flight_todo: "todo p = 0 \<Longrightarrow> \<not> in_flight p"
  by (cases p) auto

lemma verifiers_inv_step:
  assumes "jwks_env E (v_jwksURL v) P" and "verifiers J v E R c c'" and "verifiers_inv J v P c"
  shows "verifiers_inv J v P c'"
  using assms(2)
proof (cases rule: verifiers.cases)
  case (call i tok)
  with assms(3) card_upd [of in_flight "vc_threads c" i "Begin tok", where 'a = "64 word"] in_flight_todo [OF call(2)]
  show ?thesis by (simp add: verifiers_inv_def Let_def)
next
  case (run i p w)
  note inv = assms(3) [unfolded verifiers_inv_def Let_def]
  have "phase_sound J v P p \<and> ran (k_keys (vw_cache w)) \<subseteq> P"
    by (rule goroutine_sound [OF assms(1) run(2)]) (use inv in auto)
  moreover have up: "finite {j. in_flight (((vc_threads c)(i := p)) j)} \<and>
      (of_nat (card {j. in_flight (((vc_threads c)(i := p)) j)}) :: 64 word) =
        of_nat (card {j. in_flight (vc_threads c j)}) + of_bool (in_flight p) - of_bool (in_flight (vc_threads c i))"
    by (rule card_upd) (use inv in blast)
  moreover have "k_fetchAttempts (vw_cache w) = k_fetchSuccesses (vw_cache w) + k_fetchFailures (vw_cache w) +
      of_nat (card {j. in_flight (((vc_threads c)(i := p)) j)})"
    by (rule counts_balance [OF goroutine_counts [OF run(2)]]) (use inv up in blast)+
  moreover have "\<forall>j. phase_sound J v P (((vc_threads c)(i := p)) j)" using inv calculation by simp
  ultimately show ?thesis unfolding run(1) verifiers_inv_def Let_def vconf.select_convs by blast
next
  case (outside x)
  with assms(3) show ?thesis by (simp add: verifiers_inv_def Let_def)
qed

lemma verifiers_inv_reach:
  assumes "(verifiers J v E R)\<^sup>*\<^sup>* c c'" and "jwks_env E (v_jwksURL v) P" and "verifiers_inv J v P c"
  shows "verifiers_inv J v P c'"
  using assms(1,3) by (induction rule: rtranclp_induct) (auto intro: verifiers_inv_step [OF assms(2)])

subsection \<open>The rate of refetches\<close>

lemma gap_length:
  fixes ms :: "int list"
  assumes "sorted_wrt (\<lambda>s t. s + cd \<le> t) ms" and "ms \<noteq> []" and "0 \<le> cd"
  shows "hd ms + int (length ms) * cd \<le> last ms + cd"
  using assms(1,2)
proof (induction ms)
  case (Cons m ms)
  show ?case
  proof (cases "ms = []")
    case False
    with Cons have "m + cd \<le> hd ms" "hd ms + int (length ms) * cd \<le> last ms + cd" by auto
    with False show ?thesis by (simp add: algebra_simps)
  qed (use assms(3) in simp)
qed simp

text \<open>A goroutine that was let through by a miss and has not called the breaker yet.\<close>

primrec for_miss :: "vcont \<Rightarrow> bool" where
  "for_miss (ToParse tok) = False"
| "for_miss (ToLookup tok kid) = True"

primrec waiting :: "vphase \<Rightarrow> bool" where
  "waiting Idle = False"
| "waiting (Begin tok) = False"
| "waiting (Attempt c) = for_miss c"
| "waiting (Fetch c) = for_miss c"
| "waiting (FetchFailed c) = False"
| "waiting (Fetched c keys) = False"
| "waiting (Swap c keys) = False"
| "waiting (ParseTok tok) = False"
| "waiting (KeyFor tok kid) = False"
| "waiting (Miss tok kid) = False"
| "waiting (Relook tok kid) = False"
| "waiting (CheckTok tok pk) = False"
| "waiting (Verified tok r) = False"

lemma waiting_todo: "todo p = 0 \<Longrightarrow> \<not> waiting p"
  by (cases p) auto

lemma observed_balance:
  assumes "goroutine J v E p w = (p', w')"
  shows "int (ml_fetched (observe E p p' w ml)) + of_bool (waiting p') + int (length (ml_admitted ml)) =
    int (ml_fetched ml) + of_bool (waiting p) + int (length (ml_admitted (observe E p p' w ml)))"
proof -
  have "\<not> waiting (after_refresh b c)" for b c by (cases c) simp_all
  then show ?thesis using assms
    by (cases p) (auto simp: observe_def split: prod.splits sum.splits option.splits if_splits vcont.splits)
qed

text \<open>Whoever was let through has called the breaker or is about to.\<close>

definition refetch_inv :: "'w vconf \<Rightarrow> bool" where
  "refetch_inv c \<longleftrightarrow> finite {i. waiting (vc_threads c i)} \<and>
     int (ml_fetched (vc_misses c)) + int (card {i. waiting (vc_threads c i)}) = int (length (ml_admitted (vc_misses c)))"

lemma refetch_inv_step:
  assumes "verifiers J v E R c c'" and "refetch_inv c"
  shows "refetch_inv c'"
  using assms(1)
proof (cases rule: verifiers.cases)
  case (call i tok)
  with assms(2) card_upd [of waiting "vc_threads c" i "Begin tok", where 'a = int] waiting_todo [OF call(2)]
  show ?thesis by (simp add: refetch_inv_def)
next
  case (run i p w)
  with assms(2) card_upd [of waiting "vc_threads c" i p, where 'a = int] observed_balance [OF run(2), of "vc_misses c"]
  show ?thesis by (simp add: refetch_inv_def)
next
  case (outside x)
  with assms(2) show ?thesis by (simp add: refetch_inv_def)
qed

text \<open>
  What is noted after the time \<open>a\<close>, when \<open>ms\<close> had been noted: the permissions are a cooldown apart, and the cache
  knows of the last one.
\<close>

definition misses_inv :: "duration \<Rightarrow> ('w \<Rightarrow> int) \<Rightarrow> int \<Rightarrow> int list \<Rightarrow> 'w vconf \<Rightarrow> bool" where
  "misses_inv cd clk a ms c \<longleftrightarrow> (let seen = ml_admitted (vc_misses c); now = clk (vw_env (vc_world c)) in
     sorted_wrt (\<lambda>s t. s + cd \<le> t) seen \<and> (\<exists>ms'. seen = ms @ ms' \<and> (\<forall>m \<in> set ms'. a \<le> m)) \<and> a \<le> now \<and>
     (case k_lastMissRefresh (vw_cache (vc_world c)) of None \<Rightarrow> seen = [] | Some l \<Rightarrow> l \<le> now \<and> (\<forall>m \<in> set seen. m \<le> l)))"

lemma misses_inv_later:
  assumes "misses_inv cd clk a ms c" and "clk (vw_env (vc_world c)) \<le> clk (vw_env w)"
    and "k_lastMissRefresh (vw_cache w) = k_lastMissRefresh (vw_cache (vc_world c))"
    and "ml_admitted ml = ml_admitted (vc_misses c)"
  shows "misses_inv cd clk a ms \<lparr>vc_world = w, vc_threads = q, vc_misses = ml\<rparr>"
  using assms by (fastforce simp: misses_inv_def Let_def split: option.splits)

lemma misses_inv_admit:
  assumes "misses_inv cd clk a ms c" and "0 < cd" and "miss_allowed cd t1 (k_lastMissRefresh (vw_cache (vc_world c)))"
    and "clk (vw_env (vc_world c)) \<le> t1" "t1 \<le> t2" "t2 \<le> clk (vw_env w)" and "k_lastMissRefresh (vw_cache w) = Some t2"
    and "ml_admitted ml = ml_admitted (vc_misses c) @ [t1]"
  shows "misses_inv cd clk a ms \<lparr>vc_world = w, vc_threads = q, vc_misses = ml\<rparr>"
proof -
  note inv = assms(1) [unfolded misses_inv_def Let_def]
  have gap: "m + cd \<le> t1" if "m \<in> set (ml_admitted (vc_misses c))" for m
  proof (cases "k_lastMissRefresh (vw_cache (vc_world c))")
    case (Some l)
    then have "l + cd \<le> t1" using assms(2,3)
      by (auto simp: miss_allowed_def Since_def min_int64_def max_int64_def split: if_splits)
    moreover have "m \<le> l" using inv that Some by simp
    ultimately show ?thesis by linarith
  qed (use inv that in simp)
  have "m \<le> t2" if "m \<in> set (ml_admitted (vc_misses c))" for m using gap [OF that] assms(2,5) by linarith
  moreover have "a \<le> t1" "a \<le> clk (vw_env w)" using inv assms(4-6) by linarith+
  ultimately show ?thesis using inv gap assms(5-8)
    by (auto simp: misses_inv_def Let_def sorted_wrt_append)
qed

context steady_clock
begin

lemma goroutine_clock:
  assumes "goroutine J v E p w = (p', w')"
  obtains (quiet) "now_of w \<le> now_of w'" and "k_lastMissRefresh (vw_cache w') = k_lastMissRefresh (vw_cache w)"
      and "ml_admitted (observe E p p' w ml) = ml_admitted ml"
  | (miss) t1 t2 where "now_of w \<le> t1" and "t1 \<le> t2" and "t2 \<le> now_of w'"
      and "miss_allowed (o_RefreshCooldown (v_opts v)) t1 (k_lastMissRefresh (vw_cache w))"
      and "k_lastMissRefresh (vw_cache w') = Some t2" and "ml_admitted (observe E p p' w ml) = ml_admitted ml @ [t1]"
proof (cases "\<exists>tok kid. p = Miss tok kid")
  case True
  then obtain tok kid where p: "p = Miss tok kid" by blast
  obtain t1 x1 where n1: "time_Now E (vw_env w) = (t1, x1)" by fastforce
  obtain t2 x2 where n2: "time_Now E x1 = (t2, x2)" by fastforce
  have times: "now_of w \<le> t1" "t1 \<le> clk x1" "clk x1 \<le> t2" "t2 \<le> clk x2" using reading [OF n1] reading [OF n2] by auto
  show thesis
  proof (cases "miss_allowed (o_RefreshCooldown (v_opts v)) t1 (k_lastMissRefresh (vw_cache w))")
    case False
    with assms p n1 times show thesis by (intro quiet) (auto simp: observe_def)
  next
    case True
    with assms p n1 n2 times show thesis by (intro miss [of t1 t2]) (auto simp: observe_def)
  qed
next
  case False
  then have "ml_admitted (observe E p p' w ml) = ml_admitted ml" by (auto simp: observe_def split: vphase.splits vcont.splits)
  moreover have "now_of w \<le> now_of w' \<and> k_lastMissRefresh (vw_cache w') = k_lastMissRefresh (vw_cache w)"
    using assms False
    by (cases p) (auto split: prod.splits sum.splits option.splits if_splits dest!: reading executing)
  ultimately show thesis by (intro quiet) auto
qed

lemma verifiers_misses_step:
  assumes "verifiers J v E R c c'" and "misses_inv cd clk a ms c" and "\<And>x x'. R x x' \<Longrightarrow> clk x \<le> clk x'"
    and cd: "cd = o_RefreshCooldown (v_opts v)" "0 < cd"
  shows "misses_inv cd clk a ms c'"
  using assms(1)
proof (cases rule: verifiers.cases)
  case (call i tok)
  with assms(2) show ?thesis by (simp add: misses_inv_def)
next
  case (run i p w)
  from run(2) show ?thesis unfolding run(1)
  proof (cases rule: goroutine_clock [where ml = "vc_misses c"])
    case quiet
    with misses_inv_later [OF assms(2)] show "misses_inv cd clk a ms \<lparr>vc_world = w, vc_threads = (vc_threads c)(i := p),
      vc_misses = observe E (vc_threads c i) p (vc_world c) (vc_misses c)\<rparr>" by blast
  next
    case (miss t1 t2)
    with misses_inv_admit [OF assms(2) cd(2)] cd(1) show "misses_inv cd clk a ms \<lparr>vc_world = w, vc_threads = (vc_threads c)(i := p),
      vc_misses = observe E (vc_threads c i) p (vc_world c) (vc_misses c)\<rparr>" by blast
  qed
next
  case (outside y)
  with misses_inv_later [OF assms(2), of "(vc_world c)\<lparr>vw_env := y\<rparr>" "vc_misses c" "vc_threads c"] assms(3) [OF outside(2)]
  show ?thesis by (simp add: misses_inv_def)
qed

lemma verifiers_misses:
  assumes "(verifiers J v E R)\<^sup>*\<^sup>* c c'" and "misses_inv cd clk a ms c \<and> refetch_inv c" and "\<And>x x'. R x x' \<Longrightarrow> clk x \<le> clk x'"
    and "cd = o_RefreshCooldown (v_opts v)" "0 < cd"
  shows "misses_inv cd clk a ms c' \<and> refetch_inv c'"
  using assms(1,2)
  by (induction rule: rtranclp_induct) (auto intro: verifiers_misses_step [OF _ _ assms(3-5)] refetch_inv_step)

end

text \<open>Permissions that are a cooldown apart and lie in a stretch of time are few.\<close>

lemma misses_inv_few:
  assumes "misses_inv cd clk a ms c" and "0 < cd"
  shows "int (length (ml_admitted (vc_misses c)) - length ms) * cd \<le> clk (vw_env (vc_world c)) - a + cd"
proof -
  from assms(1) obtain ms' where seen: "ml_admitted (vc_misses c) = ms @ ms'" "\<forall>m \<in> set ms'. a \<le> m"
    and gaps: "sorted_wrt (\<lambda>s t. s + cd \<le> t) ms'" and later: "a \<le> clk (vw_env (vc_world c))"
    by (auto simp: misses_inv_def Let_def sorted_wrt_append)
  show ?thesis
  proof (cases "ms' = []")
    case False
    then have "last ms' \<in> set (ml_admitted (vc_misses c))" by (simp add: seen(1))
    then have "last ms' \<le> clk (vw_env (vc_world c))"
      using assms(1) by (auto simp: misses_inv_def Let_def split: option.splits)
    moreover have "a \<le> hd ms'" using seen(2) False by simp
    moreover have "hd ms' + int (length ms') * cd \<le> last ms' + cd" using gap_length [OF gaps False] assms(2) by simp
    ultimately show ?thesis by (simp add: seen(1))
  qed (use later assms(2) seen(1) in simp)
qed

subsection \<open>Two fetches that overtake each other\<close>

text \<open>A provider that answers: \<open>served\<close> is the key set it has, which neither reading the clock nor a fetch changes.\<close>

locale provider_up =
  fixes E :: "'w env" and url :: string and served :: "'w \<Rightarrow> keymap"
  assumes fetches: "\<exists>x'. brk_Execute E (fetchJWKS E url) x = (Inr (served x), x') \<and> served x' = served x"
    and reads: "served (snd (time_Now E x)) = served x"
begin

lemma fetch_phase:
  assumes "v_jwksURL v = url" and "k_fetchedAt (vw_cache w) = None" and "o_CacheTTL (v_opts v) < max_int64"
  shows "\<exists>w'. runs_to J v E (Begin tok, w) (Fetched (ToParse tok) (served (vw_env w)), w') \<and>
    served (vw_env w') = served (vw_env w) \<and> k_fetchedAt (vw_cache w') = None"
proof -
  obtain t x where now: "time_Now E (vw_env w) = (t, x)" by fastforce
  then have x: "served x = served (vw_env w)" using reads [of "vw_env w"] by simp
  from fetches [of x] obtain x' where ex: "brk_Execute E (fetchJWKS E url) x = (Inr (served x), x')" "served x' = served x" by blast
  let ?k = "(vw_cache w)\<lparr>k_fetchAttempts := k_fetchAttempts (vw_cache w) + 1\<rparr>"
  have "runs_to J v E (Begin tok, w) (Fetched (ToParse tok) (served x), w\<lparr>vw_cache := ?k, vw_env := x'\<rparr>)"
    using assms now ex(1) by (intro runs_toI [where n = 3]) (simp add: eval_nat_numeral Since_def)
  with x ex(2) assms(2) show ?thesis by (intro exI [of _ "w\<lparr>vw_cache := ?k, vw_env := x'\<rparr>"]) simp
qed

lemma swap_phase:
  "\<exists>w'. runs_to J v E (Fetched c keys, w) (after_refresh True c, w') \<and> k_keys (vw_cache w') = keys \<and>
    served (vw_env w') = served (vw_env w)"
proof -
  obtain t x where now: "time_Now E (vw_env w) = (t, x)" by fastforce
  let ?k = "(vw_cache w)\<lparr>k_fetchSuccesses := k_fetchSuccesses (vw_cache w) + 1, k_keys := keys, k_fetchedAt := Some t\<rparr>"
  have "runs_to J v E (Fetched c keys, w) (after_refresh True c, w\<lparr>vw_cache := ?k, vw_env := x\<rparr>)"
    using now by (intro runs_toI [where n = 2]) (simp add: eval_nat_numeral)
  with now reads [of "vw_env w"] show ?thesis by (intro exI [of _ "w\<lparr>vw_cache := ?k, vw_env := x\<rparr>"]) simp
qed

lemma overtaken:
  assumes "v_jwksURL v = url" and "k_fetchedAt k = None" and "o_CacheTTL (v_opts v) < max_int64"
    and "\<And>x. \<exists>y. R x y \<and> served y = new"
  shows "\<exists>c1 c2. (verifiers J v E R)\<^sup>*\<^sup>* (started k x) c1 \<and> k_keys (vw_cache (vc_world c1)) = new \<and>
     (verifiers J v E R)\<^sup>*\<^sup>* c1 c2 \<and> k_keys (vw_cache (vc_world c2)) = served x \<and> served (vw_env (vc_world c2)) = new"
proof -
  let ?steps = "(verifiers J v E R)\<^sup>*\<^sup>*" and ?w0 = "\<lparr>vw_cache = k, vw_env = x\<rparr>"
  let ?F = "Fetched (ToParse []) (served x)"
  from fetch_phase [OF assms(1) _ assms(3), of ?w0 J "[]"] assms(2) obtain w1 where
    w1: "runs_to J v E (Begin [], ?w0) (?F, w1)" "served (vw_env w1) = served x" "k_fetchedAt (vw_cache w1) = None" by auto
  from assms(4) obtain y where y: "R (vw_env w1) y" "served y = new" by blast
  from fetch_phase [OF assms(1) _ assms(3), of "w1\<lparr>vw_env := y\<rparr>" J "[]"] w1(3) y(2) obtain w2 where
    w2: "runs_to J v E (Begin [], w1\<lparr>vw_env := y\<rparr>) (Fetched (ToParse []) new, w2)" "served (vw_env w2) = new" by auto
  from swap_phase [of J v "ToParse []" new w2] w2(2) obtain w3 where
    w3: "runs_to J v E (Fetched (ToParse []) new, w2) (ParseTok [], w3)" "k_keys (vw_cache w3) = new" "served (vw_env w3) = new" by auto
  from swap_phase [of J v "ToParse []" "served x" w3] w3(3) obtain w4 where
    w4: "runs_to J v E (?F, w3) (ParseTok [], w4)" "k_keys (vw_cache w4) = served x" "served (vw_env w4) = new" by auto
  let ?q0 = "(\<lambda>_ :: nat. Idle)(0 := Begin [])" let ?q1 = "(?q0(0 := ?F))(1 := Begin [])"
  let ?q2 = "?q1(1 := Fetched (ToParse []) new)" let ?q3 = "?q2(1 := ParseTok [])"
  have s0: "?steps (started k x) \<lparr>vc_world = ?w0, vc_threads = ?q0, vc_misses = no_misses\<rparr>"
    using verifiers.call [of "started k x" 0 J v E R "[]"] by (simp add: started_def)
  from thread_runs [of J v E ?q0 0 ?w0 ?F w1] w1(1) obtain m1 where s1: "?steps \<lparr>vc_world = ?w0, vc_threads = ?q0, vc_misses = no_misses\<rparr>
      \<lparr>vc_world = w1, vc_threads = ?q0(0 := ?F), vc_misses = m1\<rparr>" by (metis fun_upd_same)
  have s2: "?steps \<lparr>vc_world = w1, vc_threads = ?q0(0 := ?F), vc_misses = m1\<rparr>
      \<lparr>vc_world = w1\<lparr>vw_env := y\<rparr>, vc_threads = ?q0(0 := ?F), vc_misses = m1\<rparr>"
    using verifiers.outside [of R "\<lparr>vc_world = w1, vc_threads = ?q0(0 := ?F), vc_misses = m1\<rparr>" y J v E] y(1) by simp
  have s3: "?steps \<lparr>vc_world = w1\<lparr>vw_env := y\<rparr>, vc_threads = ?q0(0 := ?F), vc_misses = m1\<rparr>
      \<lparr>vc_world = w1\<lparr>vw_env := y\<rparr>, vc_threads = ?q1, vc_misses = m1\<rparr>"
    using verifiers.call [of "\<lparr>vc_world = w1\<lparr>vw_env := y\<rparr>, vc_threads = ?q0(0 := ?F), vc_misses = m1\<rparr>" 1 J v E R "[]"] by simp
  from thread_runs [of J v E ?q1 1 "w1\<lparr>vw_env := y\<rparr>" "Fetched (ToParse []) new" w2] w2(1) obtain m2 where
    s4: "?steps \<lparr>vc_world = w1\<lparr>vw_env := y\<rparr>, vc_threads = ?q1, vc_misses = m1\<rparr>
      \<lparr>vc_world = w2, vc_threads = ?q2, vc_misses = m2\<rparr>" by (metis fun_upd_same)
  from thread_runs [of J v E ?q2 1 w2 "ParseTok []" w3] w3(1) obtain m3 where
    s5: "?steps \<lparr>vc_world = w2, vc_threads = ?q2, vc_misses = m2\<rparr> \<lparr>vc_world = w3, vc_threads = ?q3, vc_misses = m3\<rparr>" by (metis fun_upd_same)
  have "?q3 0 = ?F" by simp
  with thread_runs [of J v E ?q3 0 w3 "ParseTok []" w4] w4(1) obtain m4 where
    s6: "?steps \<lparr>vc_world = w3, vc_threads = ?q3, vc_misses = m3\<rparr> \<lparr>vc_world = w4, vc_threads = ?q3(0 := ParseTok []), vc_misses = m4\<rparr>" by metis
  have "?steps (started k x) \<lparr>vc_world = w3, vc_threads = ?q3, vc_misses = m3\<rparr>"
    using s0 s1 s2 s3 s4 s5 by (meson rtranclp_trans)
  with s6 w3(2) w4(2,3) show ?thesis by fastforce
qed

end

section \<open>Properties\<close>

lemma vouched_claims:
  assumes "vouched J v P tok cl"
  shows "c_Subject cl \<noteq> [] \<and> (\<exists>pk \<in> P. \<exists>t c. jwt_check J \<lparr>want_iss = v_issuer v, want_aud = v_audience v\<rparr> t tok pk = Inr c \<and>
     map_of c ''sub'' = Some (JStr (c_Subject cl)) \<and>
     c_Status cl = (case map_of c ''status'' of Some (JStr s) \<Rightarrow> s | _ \<Rightarrow> []))"
proof -
  from assms obtain pk t c where "pk \<in> P" and chk: "jwt_check J \<lparr>want_iss = v_issuer v, want_aud = v_audience v\<rparr> t tok pk = Inr c"
    and fin: "finish_claims c = Inr cl" unfolding vouched_def by blast
  moreover have "c_Subject cl \<noteq> [] \<and> map_of c ''sub'' = Some (JStr (c_Subject cl)) \<and>
      c_Status cl = (case map_of c ''status'' of Some (JStr s) \<Rightarrow> s | _ \<Rightarrow> [])"
    using fin by (auto simp: finish_claims_def GetSubject_def split: option.splits json.splits if_splits)
  ultimately show ?thesis by blast
qed

text \<open>
  C9. Only tokens under published keys are accepted, in every interleaving. Start with the empty cache of \<^verbatim>\<open>New\<close> and let any number of
  goroutines verify any tokens, interleaved in any way, whatever the network, the breaker and the clock do in between, as long as the
  key sets served contain published keys only. Then every token that was accepted passed the library's check under a published key, for
  this issuer and this audience, and its non-empty subject and its status are what is returned; and at every
  moment the counters satisfy attempts = successes + failures + fetches under way (modulo 2 to the 64th).
\<close>

theorem verifiers_sound:
  assumes "jwks_env E url Published" and "(v, k) = New url iss aud opt"
    and "(verifiers J v E R)\<^sup>*\<^sup>* (started k x) c"
  shows "(\<forall>i tok cl. vc_threads c i = Verified tok (Inr cl) \<longrightarrow> c_Subject cl \<noteq> [] \<and> (\<exists>pk \<in> Published. \<exists>t cs.
        jwt_check J \<lparr>want_iss = iss, want_aud = aud\<rparr> t tok pk = Inr cs \<and> map_of cs ''sub'' = Some (JStr (c_Subject cl)) \<and>
        c_Status cl = (case map_of cs ''status'' of Some (JStr s) \<Rightarrow> s | _ \<Rightarrow> []))) \<and>
     finite {i. in_flight (vc_threads c i)} \<and>
     st_FetchAttempts (Stats E (vc_world c)) = st_FetchSuccesses (Stats E (vc_world c)) + st_FetchFailures (Stats E (vc_world c)) +
       of_nat (card {i. in_flight (vc_threads c i)})"
proof -
  have v: "v_jwksURL v = url" "v_issuer v = iss" "v_audience v = aud" using assms(2) by (auto simp: New_def)
  have "verifiers_inv J v Published (started k x)"
    using assms(2) by (simp add: verifiers_inv_def started_def New_def)
  from verifiers_inv_reach [OF assms(3) _ this] assms(1) v
  have inv: "verifiers_inv J v Published c" by simp
  show ?thesis
  proof (intro conjI allI impI)
    fix i tok cl
    assume "vc_threads c i = Verified tok (Inr cl)"
    moreover have "phase_sound J v Published (vc_threads c i)" using inv by (simp add: verifiers_inv_def Let_def)
    ultimately have "vouched J v Published tok cl" by simp
    from vouched_claims [OF this] v show "c_Subject cl \<noteq> []" and "\<exists>pk \<in> Published. \<exists>t cs.
        jwt_check J \<lparr>want_iss = iss, want_aud = aud\<rparr> t tok pk = Inr cs \<and> map_of cs ''sub'' = Some (JStr (c_Subject cl)) \<and>
        c_Status cl = (case map_of cs ''status'' of Some (JStr s) \<Rightarrow> s | _ \<Rightarrow> [])" by simp_all
  qed (use inv in \<open>simp_all add: verifiers_inv_def Let_def Stats_def\<close>)
qed

text \<open>
  C26. Unknown key ids cannot hammer the identity service, however many goroutines ask. Over any interleaving that starts with the
  cache of \<^verbatim>\<open>New\<close>, the moments at which a miss is let through to a refetch, read off the clock, are at least the cooldown
  apart, because the check of the last one and its update are one section under the lock. And of the calls through the breaker that
  are made for misses between any two configurations \<open>c0\<close> and \<open>c\<close> of the run, there are at most as many as cooldowns fit into the time
  between them, and one, and those that had been let through before \<open>c0\<close> and not been made yet (a goroutine may be held up between the
  two, so the calls themselves can come close together).
\<close>

theorem misses_spaced:
  assumes "steady_clock E clk" and "\<And>x x'. R x x' \<Longrightarrow> clk x \<le> clk x'" and "(v, k) = New url iss aud opt"
    and "(verifiers J v E R)\<^sup>*\<^sup>* (started k x) c0" and "(verifiers J v E R)\<^sup>*\<^sup>* c0 c" and "cd = o_RefreshCooldown (v_opts v)"
  shows "sorted_wrt (\<lambda>s t. s + cd \<le> t) (ml_admitted (vc_misses c)) \<and>
     (int (ml_fetched (vc_misses c)) - int (ml_fetched (vc_misses c0)) - int (card {i. waiting (vc_threads c0 i)})) * cd
       \<le> clk (vw_env (vc_world c)) - clk (vw_env (vc_world c0)) + cd"
proof -
  have cd: "0 < cd" using assms(3,6) by (auto simp: New_def new_options_def Let_def duration_defs split: option.splits)
  have "misses_inv cd clk (clk x) [] (started k x) \<and> refetch_inv (started k x)"
    using assms(3) by (auto simp: misses_inv_def started_def New_def refetch_inv_def no_misses_def Let_def)
  from steady_clock.verifiers_misses [OF assms(1,4) this assms(2,6) cd]
  have inv0: "misses_inv cd clk (clk x) [] c0" "refetch_inv c0" by simp_all
  from inv0(1) have "misses_inv cd clk (clk (vw_env (vc_world c0))) (ml_admitted (vc_misses c0)) c0"
    by (auto simp: misses_inv_def Let_def)
  with steady_clock.verifiers_misses [OF assms(1,5) _ assms(2,6) cd] inv0(2)
  have inv: "misses_inv cd clk (clk (vw_env (vc_world c0))) (ml_admitted (vc_misses c0)) c" "refetch_inv c" by simp_all
  have "length (ml_admitted (vc_misses c0)) \<le> length (ml_admitted (vc_misses c))"
    using inv(1) by (auto simp: misses_inv_def Let_def)
  then have "int (ml_fetched (vc_misses c)) - int (ml_fetched (vc_misses c0)) - int (card {i. waiting (vc_threads c0 i)})
      \<le> int (length (ml_admitted (vc_misses c)) - length (ml_admitted (vc_misses c0)))"
    using inv0(2) inv(2) by (simp add: refetch_inv_def of_nat_diff)
  from mult_right_mono [OF this, of cd] cd misses_inv_few [OF inv(1) cd]
  have "(int (ml_fetched (vc_misses c)) - int (ml_fetched (vc_misses c0)) - int (card {i. waiting (vc_threads c0 i)})) * cd
      \<le> clk (vw_env (vc_world c)) - clk (vw_env (vc_world c0)) + cd" by linarith
  with inv(1) show ?thesis by (simp add: misses_inv_def Let_def)
qed

text \<open>Fourteen steps of a goroutine that nobody disturbs give the result and the world of \<^const>\<open>Verify\<close>.\<close>

lemma verify_alone:
  "(advance J v E ^^ 14) (Begin tok, w) = (Verified tok (fst (Verify J v E tok w)), snd (Verify J v E tok w))"
  by (rule runs_to_end [OF Verify_runs]) simp_all

text \<open>
  C33. An older key set can replace a newer one. The swap of the cache does not look at when its key set was fetched: when the provider
  rotates its keys between two fetches that overlap, there is an interleaving in which the cache already holds the new set and then gets
  the old one back, although the provider serves the new one.
\<close>

theorem stale_fetch_overwrites:
  assumes "\<And>x. \<exists>x'. brk_Execute E (fetchJWKS E (v_jwksURL v)) x = (Inr (served x), x') \<and> served x' = served x"
    and "\<And>x. served (snd (time_Now E x)) = served x"
    and "k_fetchedAt k = None" and "o_CacheTTL (v_opts v) < max_int64"
    and "\<And>x. \<exists>y. R x y \<and> served y = new" and "served x = old"
  shows "\<exists>c1 c2. (verifiers J v E R)\<^sup>*\<^sup>* (started k x) c1 \<and> k_keys (vw_cache (vc_world c1)) = new \<and>
     (verifiers J v E R)\<^sup>*\<^sup>* c1 c2 \<and> k_keys (vw_cache (vc_world c2)) = old \<and> served (vw_env (vc_world c2)) = new"
proof -
  have "provider_up E (v_jwksURL v) served" by unfold_locales (rule assms(1,2))+
  from provider_up.overtaken [OF this refl assms(3-5), where J = J and x = x] show ?thesis unfolding assms(6) .
qed

section \<open>Witnesses\<close>

text \<open>The provider that stands still keeps the laws; and one that has rotated its key or not.\<close>

lemma still_jwks: "jwks_env (still_env up) url {demo_key}"
proof
  show "\<exists>x1 x2. f x1 = (Inr a, x2)" if "brk_Execute (still_env up) f x = (Inr a, x')" for f x a x'
    using that by (auto simp: still_env_def split: if_splits)
  show "ran (collect_keys ks) \<subseteq> {demo_key}"
    if "http_Do (still_env up) url x = (Inr r, x')" "resp_status r = 200" "decode_set (resp_body r) = Some ks" for x r x' ks
    using demo_jwks.served [of url "(0, True)" r "(0, True)" ks] that by (simp add: still_env_def demo_env_up_def)
qed

lemma still_clock: "steady_clock (still_env up) (\<lambda>_. 1500 * 10 ^ 9)"
  by unfold_locales (auto simp: still_env_def)

definition next_key :: rsa_pub where "next_key = \<lparr>rsa_N = 3127, rsa_E = 3\<rparr>"

definition rot_key :: "bool \<Rightarrow> rsa_pub" where "rot_key b = (if b then next_key else demo_key)"

definition rot_kid :: "rsa_pub \<Rightarrow> string" where "rot_kid pk = (if pk = demo_key then ''k1'' else ''k2'')"

definition rot_env :: "bool env" where
  "rot_env = \<lparr>http_Do = (\<lambda>url x. (Inr (JWKSHandler rot_kid [rot_key x]), x)), brk_Execute = (\<lambda>f x. f x),
     brk_State = (\<lambda>x. ''closed''), time_Now = (\<lambda>x. (1500 * 10 ^ 9, x))\<rparr>"

lemma rot_fetch: "brk_Execute rot_env (fetchJWKS rot_env url) x = (Inr [rot_kid (rot_key x) \<mapsto> rot_key x], x)"
  using fetch_handler [of rot_env url x rot_kid "[rot_key x]" x]
  by (simp add: rot_env_def rot_kid_def rot_key_def demo_key_def next_key_def)

interpretation rotating: provider_up rot_env url "\<lambda>b. [rot_kid (rot_key b) \<mapsto> rot_key b]" for url
  by unfold_locales (simp_all add: rot_fetch, simp add: rot_env_def)

lemma rot_clock: "steady_clock rot_env (\<lambda>_. 1500 * 10 ^ 9)"
  by unfold_locales (auto simp: rot_env_def)

lemma demo_verifier_New: "(demo_verifier, demo_cache) = New ''http://idp/oauth2/v1/jwks'' ''http://idp'' ''board'' None"
  by (simp add: demo_verifier_def demo_cache_def)

lemma still_reaches:
  "\<exists>w ms. (verifiers sealed_jwt demo_verifier (still_env True) (=))\<^sup>*\<^sup>* (started demo_cache ())
     \<lparr>vc_world = w, vc_threads = (\<lambda>_. Idle)(0 := Verified demo_access (Inr \<lparr>c_Subject = FormatInt 7, c_Status = ''ACTIVE''\<rparr>)), vc_misses = ms\<rparr>"
proof -
  let ?w = "\<lparr>vw_cache = demo_cache, vw_env = ()\<rparr>" and ?q = "(\<lambda>_ :: nat. Idle)(0 := Begin demo_access)"
  have "\<exists>w'. Verify sealed_jwt demo_verifier (still_env True) demo_access ?w =
      (Inr \<lparr>c_Subject = FormatInt 7, c_Status = ''ACTIVE''\<rparr>, w') \<and> k_keys (vw_cache w') = [''k1'' \<mapsto> demo_key]"
  proof (rule Verify_refetched [OF sealed_laws demo_access_issued])
    show "\<exists>x'. brk_Execute (still_env True) (fetchJWKS (still_env True) (v_jwksURL demo_verifier)) x = (Inr [''k1'' \<mapsto> demo_key], x')" for x
      using still_fetch [of True] by (simp add: still_env_def)
  qed (simp_all add: still_env_def AccessTokenTTL_def duration_defs miss_allowed_def Since_def max_int64_def)
  then obtain w' where ver: "Verify sealed_jwt demo_verifier (still_env True) demo_access ?w =
      (Inr \<lparr>c_Subject = FormatInt 7, c_Status = ''ACTIVE''\<rparr>, w')" by blast
  from Verify_runs [of sealed_jwt demo_verifier "still_env True" demo_access ?w]
  have run: "runs_to sealed_jwt demo_verifier (still_env True) (?q 0, ?w)
      (Verified demo_access (Inr \<lparr>c_Subject = FormatInt 7, c_Status = ''ACTIVE''\<rparr>), w')" by (simp add: ver)
  have "verifiers sealed_jwt demo_verifier (still_env True) (=) (started demo_cache ()) \<lparr>vc_world = ?w, vc_threads = ?q, vc_misses = no_misses\<rparr>"
    using verifiers.call [of "started demo_cache ()" 0] by (simp add: started_def)
  moreover from thread_runs [where q = ?q and i = 0, OF run] obtain ms where
    "(verifiers sealed_jwt demo_verifier (still_env True) (=))\<^sup>*\<^sup>* \<lparr>vc_world = ?w, vc_threads = ?q, vc_misses = no_misses\<rparr> \<lparr>vc_world = w',
      vc_threads = ?q(0 := Verified demo_access (Inr \<lparr>c_Subject = FormatInt 7, c_Status = ''ACTIVE''\<rparr>)), vc_misses = ms\<rparr>" by blast
  ultimately show ?thesis by (auto simp: fun_upd_upd intro: converse_rtranclp_into_rtranclp)
qed

theorem verifiers_sound_witness:
  "\<exists>t cs. jwt_check sealed_jwt \<lparr>want_iss = ''http://idp'', want_aud = ''board''\<rparr> t demo_access demo_key = Inr cs \<and>
     map_of cs ''sub'' = Some (JStr (FormatInt 7))"
proof -
  obtain c i where "(verifiers sealed_jwt demo_verifier (still_env True) (=))\<^sup>*\<^sup>* (started demo_cache ()) c"
    and "vc_threads c i = Verified demo_access (Inr \<lparr>c_Subject = FormatInt 7, c_Status = ''ACTIVE''\<rparr>)"
    using still_reaches by (metis fun_upd_same vconf.select_convs(2))
  from verifiers_sound [OF still_jwks demo_verifier_New this(1)] this(2) show ?thesis by fastforce
qed

text \<open>A token under a key id that the provider does not publish makes the verifier fetch once for the cache and once for the miss.\<close>

definition turn :: "'sk jwt_lib \<Rightarrow> verifier \<Rightarrow> 'w env \<Rightarrow> nat \<Rightarrow> 'w vconf \<Rightarrow> 'w vconf" where
  "turn J v E i c = (case goroutine J v E (vc_threads c i) (vc_world c) of (p, w) \<Rightarrow>
     \<lparr>vc_world = w, vc_threads = (vc_threads c)(i := p), vc_misses = observe E (vc_threads c i) p (vc_world c) (vc_misses c)\<rparr>)"

lemma turns_verifiers: "(verifiers J v E R)\<^sup>*\<^sup>* c ((turn J v E i ^^ n) c)"
proof (induction n)
  case (Suc n)
  let ?c = "(turn J v E i ^^ n) c"
  have "verifiers J v E R ?c (turn J v E i ?c)"
    using verifiers.run [of J v E ?c i] by (simp add: turn_def split: prod.splits)
  with Suc show ?case by simp
qed simp

definition missed :: "bool vconf" where
  "missed = (turn sealed_jwt demo_verifier rot_env 0 ^^ 10)
     ((started demo_cache True)\<lparr>vc_threads := (\<lambda>_. Idle)(0 := Begin demo_access)\<rparr>)"

lemma demo_access_header: "jwt_header sealed_jwt [''RS256''] demo_access =
    Inr [(''typ'', JStr ''JWT''), (''alg'', JStr ''RS256''), (''kid'', JStr ''k1'')]"
  using demo_access_issued by (intro sealed.signed_header) (auto simp: AccessToken_def iss_sign_def split: sum.splits)

lemma turn_conf:
  "turn J v E 0 \<lparr>vc_world = w, vc_threads = (\<lambda>_. Idle)(0 := p), vc_misses = ml\<rparr> = (case goroutine J v E p w of (p', w') \<Rightarrow>
     \<lparr>vc_world = w', vc_threads = (\<lambda>_. Idle)(0 := p'), vc_misses = observe E p p' w ml\<rparr>)"
  by (simp add: turn_def split: prod.splits)

lemma rot_now: "time_Now rot_env x = (1500 * 10 ^ 9, x)"
  by (simp add: rot_env_def)

lemma missed_fetched: "ml_fetched (vc_misses missed) = 1"
proof -
  have opts: "o_CacheTTL (v_opts demo_verifier) < max_int64" "o_RefreshCooldown (v_opts demo_verifier) < max_int64"
    by (simp_all add: demo_verifier_def New_def new_options_def duration_defs max_int64_def)
  have init: "k_fetchedAt demo_cache = None" "k_lastMissRefresh demo_cache = None"
    by (simp_all add: demo_cache_def New_def)
  have key: "rot_kid (rot_key True) = ''k2''" by (simp add: rot_kid_def rot_key_def demo_key_def next_key_def)
  have kid: "header_kid [(''typ'', JStr ''JWT''), (''alg'', JStr ''RS256''), (''kid'', JStr ''k1'')] = ''k1''"
    "[''k2'' \<mapsto> pk] ''k1'' = None" for pk :: rsa_pub by (simp_all add: header_kid_def)
  have "missed = (turn sealed_jwt demo_verifier rot_env 0 ^^ 10)
      \<lparr>vc_world = \<lparr>vw_cache = demo_cache, vw_env = True\<rparr>, vc_threads = (\<lambda>_. Idle)(0 := Begin demo_access), vc_misses = no_misses\<rparr>"
    by (simp add: missed_def started_def)
  also have "ml_fetched (vc_misses \<dots>) = 1"
    using opts by (simp add: eval_nat_numeral turn_conf rot_now rot_fetch key init Since_def demo_access_header kid
        miss_allowed_def observe_def no_misses_def del: fun_upd_apply)
  finally show ?thesis .
qed

theorem misses_spaced_witness:
  "(verifiers sealed_jwt demo_verifier rot_env (=))\<^sup>*\<^sup>* (started demo_cache True) missed \<and>
   ml_fetched (vc_misses missed) = 1 \<and> int (ml_fetched (vc_misses missed)) * (10 * Second) \<le> 10 * Second"
proof -
  have "verifiers sealed_jwt demo_verifier rot_env (=) (started demo_cache True)
      ((started demo_cache True)\<lparr>vc_threads := (\<lambda>_. Idle)(0 := Begin demo_access)\<rparr>)"
    using verifiers.call [of "started demo_cache True" 0] by (simp add: started_def)
  then have reach: "(verifiers sealed_jwt demo_verifier rot_env (=))\<^sup>*\<^sup>* (started demo_cache True) missed"
    using turns_verifiers unfolding missed_def by (rule converse_rtranclp_into_rtranclp)
  moreover have "int (ml_fetched (vc_misses missed)) * (10 * Second) \<le> 10 * Second"
    using misses_spaced [OF rot_clock _ demo_verifier_New rtranclp.rtrancl_refl reach refl]
    by (simp add: started_def no_misses_def demo_verifier_def New_def new_options_def)
  ultimately show ?thesis using missed_fetched by blast
qed

theorem stale_fetch_overwrites_witness:
  "\<exists>c1 c2. (verifiers sealed_jwt demo_verifier rot_env (\<lambda>_ y. y))\<^sup>*\<^sup>* (started demo_cache False) c1 \<and>
     k_keys (vw_cache (vc_world c1)) = [''k2'' \<mapsto> next_key] \<and>
     (verifiers sealed_jwt demo_verifier rot_env (\<lambda>_ y. y))\<^sup>*\<^sup>* c1 c2 \<and>
     k_keys (vw_cache (vc_world c2)) = [''k1'' \<mapsto> demo_key] \<and> vw_env (vc_world c2)"
proof -
  let ?served = "\<lambda>b. [rot_kid (rot_key b) \<mapsto> rot_key b]"
  have "\<exists>c1 c2. (verifiers sealed_jwt demo_verifier rot_env (\<lambda>_ y. y))\<^sup>*\<^sup>* (started demo_cache False) c1 \<and>
     k_keys (vw_cache (vc_world c1)) = ?served True \<and>
     (verifiers sealed_jwt demo_verifier rot_env (\<lambda>_ y. y))\<^sup>*\<^sup>* c1 c2 \<and>
     k_keys (vw_cache (vc_world c2)) = ?served False \<and> ?served (vw_env (vc_world c2)) = ?served True"
    by (rule stale_fetch_overwrites [where served = ?served])
      (use rotating.fetches rotating.reads in \<open>auto simp: demo_verifier_def demo_cache_def New_def new_options_def duration_defs max_int64_def\<close>)
  moreover have "?served b = ?served True \<Longrightarrow> b" for b
    by (cases b) (auto simp: rot_kid_def rot_key_def demo_key_def next_key_def dest: fun_cong [where x = "''k1''"])
  moreover have "?served True = [''k2'' \<mapsto> next_key]" "?served False = [''k1'' \<mapsto> demo_key]"
    by (simp_all add: rot_kid_def rot_key_def demo_key_def next_key_def)
  ultimately show ?thesis by metis
qed

end
