(* ===== verification/Go_Duration.thy ===== *)
theory Go_Duration
  imports Prelude
begin

text \<open>
  \<^verbatim>\<open>time.ParseDuration\<close> of Go's standard library, which the board's configuration uses: a sign and a sequence of decimal
  numbers with units. Fractions are computed in float64, so the rounding of products and quotients is part of it.
\<close>

section \<open>Float64 rounding\<close>

text \<open>A positive fraction rounded to 53 binary digits, ties to even; the result is a fraction again.\<close>

definition round_even :: "int \<Rightarrow> int \<Rightarrow> int" where
  "round_even n d = (let q = n div d; r = n mod d in if 2 * r < d \<or> 2 * r = d \<and> even q then q else q + 1)"

function bit_len :: "int \<Rightarrow> nat" where
  "bit_len n = (if n \<le> 0 then 0 else Suc (bit_len (n div 2)))"
  by pat_completeness auto
termination by (relation "measure nat") auto

declare bit_len.simps [simp del]

definition fl64 :: "int \<times> int \<Rightarrow> int \<times> int" where
  "fl64 x = (case x of (n, d) \<Rightarrow>
     if n = 0 then (0, 1)
     else
       let a = 53 + bit_len d; b = bit_len n;
           up = (if b \<le> a then 2 ^ (a - b) else 1); down = (if b \<le> a then 1 else 2 ^ (b - a))
       in if n * up div (d * down) < 2 ^ 53 then (round_even (n * up) (d * down) * down, up)
          else (round_even (n * up) (2 * d * down) * 2 * down, up))"

section \<open>The parser\<close>

definition unit_of :: "string \<Rightarrow> int option" where
  "unit_of u =
     (if u = ''ns'' then Some 1
      else if u = ''us'' \<or> u = [CHR 0xC2, CHR 0xB5, CHR ''s''] \<or> u = [CHR 0xCE, CHR 0xBC, CHR ''s''] then Some 1000
      else if u = ''ms'' then Some 1000000
      else if u = ''s'' then Some 1000000000
      else if u = ''m'' then Some 60000000000
      else if u = ''h'' then Some 3600000000000
      else None)"

text \<open>The digits in front, as a number of at most 2 to the 63; \<open>None\<close> is the overflow.\<close>

fun leadingInt :: "int \<Rightarrow> string \<Rightarrow> (int \<times> string) option" where
  "leadingInt x [] = Some (x, [])"
| "leadingInt x (c # s) = (case digit_val c of
      None \<Rightarrow> Some (x, c # s)
    | Some v \<Rightarrow>
        if x > 2 ^ 63 div 10 then None
        else if 10 * x + int v > 2 ^ 63 then None
        else leadingInt (10 * x + int v) s)"

text \<open>The digits behind the point and their scale; digits that no longer fit are skipped.\<close>

fun leadingFraction :: "bool \<Rightarrow> int \<Rightarrow> int \<times> int \<Rightarrow> string \<Rightarrow> int \<times> (int \<times> int) \<times> string" where
  "leadingFraction full x sc [] = (x, sc, [])"
| "leadingFraction full x sc (c # s) = (case digit_val c of
      None \<Rightarrow> (x, sc, c # s)
    | Some v \<Rightarrow>
        if full \<or> x > (2 ^ 63 - 1) div 10 \<or> 10 * x + int v > 2 ^ 63 then leadingFraction True x sc s
        else leadingFraction False (10 * x + int v) (fl64 (10 * fst sc, snd sc)) s)"

definition frac_value :: "int \<Rightarrow> int \<times> int \<Rightarrow> int \<Rightarrow> int" where
  "frac_value f sc unit = (case fl64 (unit * snd sc, fst sc) of (qn, qd) \<Rightarrow>
     case fl64 (f, 1) of (fn, fd) \<Rightarrow>
     case fl64 (fn * qn, fd * qd) of (n, d) \<Rightarrow> n div d)"

definition dur_char :: "char \<Rightarrow> bool" where
  "dur_char c \<longleftrightarrow> c = CHR ''.'' \<or> digit_val c \<noteq> None"

text \<open>One number with its unit, in nanoseconds.\<close>

definition duration_item :: "string \<Rightarrow> (int \<times> string) option" where
  "duration_item s =
     (if s = [] \<or> \<not> dur_char (hd s) then None
      else case leadingInt 0 s of
        None \<Rightarrow> None
      | Some (v, s1) \<Rightarrow>
          let pre = (length s1 \<noteq> length s);
              point = (s1 \<noteq> [] \<and> hd s1 = CHR ''.'');
              (f, sc, s2) = (if point then leadingFraction False 0 (1, 1) (tl s1) else (0, (1, 1), s1));
              post = (point \<and> length s2 \<noteq> length (tl s1));
              u = takeWhile (\<lambda>c. \<not> dur_char c) s2; s3 = dropWhile (\<lambda>c. \<not> dur_char c) s2
          in if \<not> pre \<and> \<not> post then None
             else if u = [] then None
             else case unit_of u of
               None \<Rightarrow> None
             | Some unit \<Rightarrow>
                 if v > 2 ^ 63 div unit then None
                 else let n = v * unit + (if f > 0 then frac_value f sc unit else 0)
                      in if n > 2 ^ 63 then None else Some (n, s3))"

lemma leadingInt_rest:
  "leadingInt x s = Some (v, t) \<Longrightarrow> t = dropWhile (\<lambda>c. digit_val c \<noteq> None) s"
  by (induction s arbitrary: x) (auto split: option.splits if_splits)

lemma leadingFraction_rest:
  "snd (snd (leadingFraction b x sc s)) = dropWhile (\<lambda>c. digit_val c \<noteq> None) s"
  by (induction s arbitrary: b x sc) (simp_all split: option.split)

lemma unit_shrinks:
  assumes "takeWhile P s \<noteq> []"
  shows "length (dropWhile P s) < length s"
  using assms takeWhile_dropWhile_id [of P s] by (metis append_self_conv2 length_append less_add_same_cancel2 length_greater_0_conv)

lemma duration_item_length:
  assumes "duration_item s = Some (n, t)"
  shows "length t < length s"
proof -
  from assms obtain v s1 where li: "leadingInt 0 s = Some (v, s1)"
    by (auto simp: duration_item_def split: if_splits option.splits)
  define s2 where "s2 = (if s1 \<noteq> [] \<and> hd s1 = CHR ''.'' then snd (snd (leadingFraction False 0 (1, 1) (tl s1))) else s1)"
  have "t = dropWhile (\<lambda>c. \<not> dur_char c) s2 \<and> takeWhile (\<lambda>c. \<not> dur_char c) s2 \<noteq> []"
    using assms li by (auto simp: duration_item_def Let_def s2_def split: if_splits option.splits prod.splits)
  then have "length t < length s2" using unit_shrinks by blast
  also have "length s2 \<le> length s1"
    unfolding s2_def leadingFraction_rest using length_dropWhile_le [of _ "tl s1"] by (cases s1) (auto intro: le_SucI)
  also have "length s1 \<le> length s" using leadingInt_rest [OF li] length_dropWhile_le by simp
  finally show ?thesis .
qed

text \<open>The sum is a uint64, so it wraps before it is compared.\<close>

function duration_sum :: "int \<Rightarrow> string \<Rightarrow> int option" where
  "duration_sum d s =
     (if s = [] then Some d
      else case duration_item s of
        None \<Rightarrow> None
      | Some (n, t) \<Rightarrow> let d' = (d + n) mod 2 ^ 64 in if d' > 2 ^ 63 then None else duration_sum d' t)"
  by pat_completeness auto
termination by (relation "measure (\<lambda>(d, s). length s)") (auto dest: duration_item_length)

declare duration_sum.simps [simp del]

definition ParseDuration :: "string \<Rightarrow> duration option" where
  "ParseDuration orig =
     (let neg = (orig \<noteq> [] \<and> hd orig = CHR ''-'');
          s = (if orig \<noteq> [] \<and> (hd orig = CHR ''-'' \<or> hd orig = CHR ''+'') then tl orig else orig)
      in if s = ''0'' then Some 0
         else if s = [] then None
         else case duration_sum 0 s of
           None \<Rightarrow> None
         | Some d \<Rightarrow>
             if neg then Some (- d)
             else if d > 2 ^ 63 - 1 then None else Some d)"

end
