(* ===== verification/Config.thy ===== *)
theory Config
  imports Go_Duration Jwks Auth
begin

text \<open>
  The settings of both services (\<^verbatim>\<open>services/identity/internal/config/config.go\<close>,
  \<^verbatim>\<open>services/board/internal/config/config.go\<close>) as functions of the environment, and what the composition roots make of
  them: the verifier's options and whether one-time codes are echoed. \<open>getenv\<close> is \<^verbatim>\<open>os.Getenv\<close>.
\<close>

section \<open>Reading the environment\<close>

type_synonym getenv = "string \<Rightarrow> string"

definition envOr :: "getenv \<Rightarrow> string \<Rightarrow> string \<Rightarrow> string" where
  "envOr getenv key def = (if getenv key \<noteq> [] then getenv key else def)"

text \<open>\<^verbatim>\<open>strconv.Atoi\<close> is \<^verbatim>\<open>ParseInt\<close> in base 10 for a 64-bit int.\<close>

definition envInt :: "getenv \<Rightarrow> string \<Rightarrow> int \<Rightarrow> int" where
  "envInt getenv key def = (case ParseInt (getenv key) of
      None \<Rightarrow> def | Some v \<Rightarrow> if v \<le> 0 then def else v)"

definition envDuration :: "getenv \<Rightarrow> string \<Rightarrow> duration \<Rightarrow> duration" where
  "envDuration getenv key def = (let v = getenv key in
     if v = [] then def
     else case ParseDuration v of None \<Rightarrow> def | Some d \<Rightarrow> if d \<le> 0 then def else d)"

section \<open>The identity service\<close>

record identity_config =
  ic_GRPCAddr :: string
  ic_HTTPAddr :: string
  ic_MySQLDSN :: string
  ic_RedisAddr :: string
  ic_Issuer :: string
  ic_SigningKeyPath :: string
  ic_DevMode :: bool

definition identity_Load :: "getenv \<Rightarrow> identity_config" where
  "identity_Load getenv = \<lparr>
     ic_GRPCAddr = envOr getenv ''GRPC_ADDR'' '':9090'',
     ic_HTTPAddr = envOr getenv ''HTTP_ADDR'' '':8090'',
     ic_MySQLDSN = envOr getenv ''MYSQL_DSN'' ''root:root@tcp(localhost:3306)/identity?parseTime=true'',
     ic_RedisAddr = envOr getenv ''REDIS_ADDR'' ''localhost:6380'',
     ic_Issuer = envOr getenv ''ISSUER'' ''http://localhost:8090'',
     ic_SigningKeyPath = envOr getenv ''SIGNING_KEY_PATH'' ''data/keys/identity-signing.pem'',
     ic_DevMode = (envOr getenv ''DEV_MODE'' ''true'' = ''true'')\<rparr>"

text \<open>The part of \<^verbatim>\<open>app.New\<close> that puts the use case together, after the stores are open and the key is loaded.\<close>

definition identity_auth ::
  "identity_config \<Rightarrow> 'd user_repo \<Rightarrow> 's redis \<Rightarrow> 'sk jwt_lib \<Rightarrow> 'sk issuer \<Rightarrow> ('s, 'd, 'sk) auth" where
  "identity_auth cfg repo rdb J iss =
     \<lparr>a_repo = repo, a_redis = rdb, a_jwt = J, a_issuer = iss, a_devMode = ic_DevMode cfg\<rparr>"

section \<open>The board\<close>

record board_config =
  bc_GRPCAddr :: string
  bc_HTTPAddr :: string
  bc_MySQLDSN :: string
  bc_RedisAddr :: string
  bc_JWKSURL :: string
  bc_Issuer :: string
  bc_Audience :: string
  bc_JWKSCacheTTL :: duration
  bc_JWKSRefreshCooldown :: duration
  bc_JWKSBreakerTimeout :: duration
  bc_DBMaxOpenConns :: int
  bc_DBMaxIdleConns :: int
  bc_DBConnMaxLifetime :: duration

definition board_Load :: "getenv \<Rightarrow> board_config" where
  "board_Load getenv = \<lparr>
     bc_GRPCAddr = envOr getenv ''GRPC_ADDR'' '':9091'',
     bc_HTTPAddr = envOr getenv ''HTTP_ADDR'' '':8091'',
     bc_MySQLDSN = envOr getenv ''MYSQL_DSN'' ''root:root@tcp(localhost:3306)/board?parseTime=true'',
     bc_RedisAddr = envOr getenv ''REDIS_ADDR'' ''localhost:6380'',
     bc_JWKSURL = envOr getenv ''JWKS_URL'' ''http://localhost:8090/oauth2/v1/jwks'',
     bc_Issuer = envOr getenv ''TOKEN_ISSUER'' ''http://localhost:8090'',
     bc_Audience = envOr getenv ''TOKEN_AUDIENCE'' ''board'',
     bc_JWKSCacheTTL = envDuration getenv ''JWKS_CACHE_TTL'' (5 * Minute),
     bc_JWKSRefreshCooldown = envDuration getenv ''JWKS_REFRESH_COOLDOWN'' (10 * Second),
     bc_JWKSBreakerTimeout = envDuration getenv ''JWKS_BREAKER_TIMEOUT'' (60 * Second),
     bc_DBMaxOpenConns = envInt getenv ''DB_MAX_OPEN_CONNS'' 40,
     bc_DBMaxIdleConns = envInt getenv ''DB_MAX_IDLE_CONNS'' 10,
     bc_DBConnMaxLifetime = envDuration getenv ''DB_CONN_MAX_LIFETIME'' (30 * Minute)\<rparr>"

text \<open>The part of \<^verbatim>\<open>app.New\<close> that makes the verifier.\<close>

definition board_verifier :: "board_config \<Rightarrow> verifier \<times> cache" where
  "board_verifier cfg = New (bc_JWKSURL cfg) (bc_Issuer cfg) (bc_Audience cfg)
     (Some \<lparr>o_RefreshCooldown = bc_JWKSRefreshCooldown cfg, o_CacheTTL = bc_JWKSCacheTTL cfg,
            o_BreakerTimeout = bc_JWKSBreakerTimeout cfg\<rparr>)"

section \<open>Bounds\<close>

lemma duration_sum_nonneg: "duration_sum d s = Some e \<Longrightarrow> 0 \<le> d \<Longrightarrow> 0 \<le> e"
proof (induction d s rule: duration_sum.induct)
  case (1 d s)
  show ?case
  proof (cases "s = []")
    case True
    with 1(2,3) show ?thesis by (simp add: duration_sum.simps)
  next
    case False
    with 1(2) obtain n t where item: "duration_item s = Some (n, t)"
      and rest: "\<not> (d + n) mod 2 ^ 64 > 2 ^ 63" "duration_sum ((d + n) mod 2 ^ 64) t = Some e"
      by (auto simp: duration_sum.simps [of d] Let_def split: option.splits if_splits)
    from 1(1) [OF False item refl refl rest] show ?thesis by simp
  qed
qed

lemma ParseDuration_bounds: "ParseDuration s = Some d \<Longrightarrow> d \<le> max_int64"
  by (auto simp: ParseDuration_def max_int64_def Let_def dest: duration_sum_nonneg split: if_splits option.splits)

lemma envDuration_bounds:
  assumes "0 < def" and "def \<le> max_int64"
  shows "0 < envDuration getenv key def \<and> envDuration getenv key def \<le> max_int64"
  using assms ParseDuration_bounds by (auto simp: envDuration_def Let_def split: option.splits)

lemma envInt_bounds:
  assumes "0 < def" and "def \<le> max_int64"
  shows "0 < envInt getenv key def \<and> envInt getenv key def \<le> max_int64"
  using assms by (auto simp: envInt_def ParseInt_def Let_def split: option.splits if_splits)

section \<open>Reading numbers\<close>

lemma parse_digits_ge: "parse_digits a s = Some v \<Longrightarrow> a \<le> v"
  by (induction a s rule: parse_digits.induct) (auto split: option.splits)

lemma leadingInt_digits:
  assumes "parse_digits x ds = Some v" and "int v \<le> 2 ^ 63" and "u = [] \<or> digit_val (hd u) = None"
  shows "leadingInt (int x) (ds @ u) = Some (int v, u)"
  using assms(1)
proof (induction ds arbitrary: x)
  case Nil
  with assms(3) show ?case by (cases u) auto
next
  case (Cons c ds)
  then obtain d where d: "digit_val c = Some d" "parse_digits (10 * x + d) ds = Some v" by (auto split: option.splits)
  from parse_digits_ge [OF d(2)] assms(2) have "10 * int x + int d \<le> 2 ^ 63" by linarith
  moreover from this have "int x \<le> 2 ^ 63 div 10" by linarith
  ultimately show ?case using Cons.IH [OF d(2)] d(1) by simp
qed

lemma unit_of_chars: "unit_of u = Some unit \<Longrightarrow> u \<noteq> [] \<and> (\<forall>c \<in> set u. \<not> dur_char c) \<and> 0 < unit"
  by (auto simp: unit_of_def dur_char_def digit_val_def split: if_splits)

lemma hd_fmt_nat_dur: "dur_char (hd (fmt_nat n))"
  using fmt_nat_digits [of "hd (fmt_nat n)" n] by (auto simp: dur_char_def)

lemma duration_item_whole:
  assumes "unit_of u = Some unit" and "int n * unit \<le> max_int64"
  shows "duration_item (fmt_nat n @ u) = Some (int n * unit, [])"
proof -
  note u = unit_of_chars [OF assms(1)]
  have dot: "hd u \<noteq> CHR ''.''" and dig: "digit_val (hd u) = None" using u by (auto simp: dur_char_def)
  have "int n * 1 \<le> int n * unit" using u by (intro mult_left_mono) auto
  then have small: "int n \<le> 2 ^ 63" using assms(2) by (simp add: max_int64_def)
  have lead: "leadingInt 0 (fmt_nat n @ u) = Some (int n, u)"
    using leadingInt_digits [OF parse_digits_fmt_nat small] dig by fastforce
  have quot: "\<not> 2 ^ 63 div unit < int n"
  proof -
    have "int n * unit \<le> 2 ^ 63" using assms(2) by (simp add: max_int64_def)
    then have "int n * unit div unit \<le> 2 ^ 63 div unit" using u by (intro zdiv_mono1) auto
    then have "int n \<le> 2 ^ 63 div unit" using u by simp
    then show ?thesis by simp
  qed
  have "takeWhile (\<lambda>c. \<not> dur_char c) u = u" "dropWhile (\<lambda>c. \<not> dur_char c) u = []" using u
    by (auto simp only: takeWhile_eq_all_conv dropWhile_eq_Nil_conv)
  note whole = this
  show ?thesis using lead u dot quot assms hd_fmt_nat_dur [of n]
    by (simp add: duration_item_def Let_def max_int64_def whole del: takeWhile_eq_all_conv dropWhile_eq_Nil_conv takeWhile_eq_Nil_iff)
qed

lemma ParseDuration_whole:
  assumes "unit_of u = Some unit" and "int n * unit \<le> max_int64"
  shows "ParseDuration (fmt_nat n @ u) = Some (int n * unit)"
proof -
  note u = unit_of_chars [OF assms(1)]
  let ?s = "fmt_nat n @ u"
  have pos: "0 \<le> int n * unit" using u by simp
  have "length (fmt_nat n) > 0" "length u > 0" using u by simp_all
  then have "length ?s \<noteq> 1" unfolding length_append by linarith
  then have ne: "?s \<noteq> ''0''" by force
  have d: "(0 + int n * unit) mod 2 ^ 64 = int n * unit" using pos assms(2) by (simp add: max_int64_def)
  have "duration_sum 0 ?s = Some (int n * unit)"
    using u pos assms(2) unfolding duration_sum.simps [of 0 ?s] duration_item_whole [OF assms]
    by (simp add: duration_sum.simps max_int64_def Let_def)
  moreover have "hd ?s \<noteq> CHR ''-'' \<and> hd ?s \<noteq> CHR ''+''" using hd_fmt_nat [of n] by simp
  ultimately show ?thesis using ne u assms(2) by (simp add: ParseDuration_def Let_def max_int64_def)
qed

section \<open>Properties\<close>

text \<open>
  C37. Settings are always usable: whatever the environment holds, the numbers and durations of the board's configuration are
  positive and fit 64 bits, and the verifier that is made from it works with exactly the configured times, its own
  defaults never come into play.
\<close>

theorem board_config_usable:
  "let cfg = board_Load getenv; v = fst (board_verifier cfg) in
   (\<forall>n \<in> {bc_JWKSCacheTTL cfg, bc_JWKSRefreshCooldown cfg, bc_JWKSBreakerTimeout cfg, bc_DBConnMaxLifetime cfg,
           bc_DBMaxOpenConns cfg, bc_DBMaxIdleConns cfg}. 0 < n \<and> n \<le> max_int64) \<and>
   o_CacheTTL (v_opts v) = bc_JWKSCacheTTL cfg \<and> o_RefreshCooldown (v_opts v) = bc_JWKSRefreshCooldown cfg \<and>
   o_BreakerTimeout (v_opts v) = bc_JWKSBreakerTimeout cfg"
proof -
  have dur: "0 < envDuration getenv k d \<and> envDuration getenv k d \<le> max_int64" if "0 < d" "d \<le> max_int64" for k d
    using envDuration_bounds that by blast
  have num: "0 < envInt getenv k d \<and> envInt getenv k d \<le> max_int64" if "0 < d" "d \<le> max_int64" for k d
    using envInt_bounds that by blast
  have "0 < 5 * Minute \<and> 5 * Minute \<le> max_int64" "0 < 10 * Second \<and> 10 * Second \<le> max_int64"
    "0 < 60 * Second \<and> 60 * Second \<le> max_int64" "0 < 30 * Minute \<and> 30 * Minute \<le> max_int64"
    "40 \<le> max_int64" "10 \<le> max_int64"
    by (simp_all add: duration_defs max_int64_def)
  then show ?thesis by (simp add: Let_def board_Load_def board_verifier_def New_def new_options_def dur num)
qed

theorem board_config_usable_witness:
  "bc_JWKSCacheTTL (board_Load (\<lambda>k. if k = ''JWKS_CACHE_TTL'' then ''-3m'' else [])) \<le> max_int64 \<and>
   bc_JWKSCacheTTL (board_Load (\<lambda>k. if k = ''JWKS_CACHE_TTL'' then ''-3m'' else [])) = 5 * Minute"
proof -
  have "ParseDuration ''-3m'' = Some (- 180000000000)" by code_simp
  then have "bc_JWKSCacheTTL (board_Load (\<lambda>k. if k = ''JWKS_CACHE_TTL'' then ''-3m'' else [])) = 5 * Minute"
    by (simp add: board_Load_def envDuration_def)
  with board_config_usable [of "\<lambda>k. if k = ''JWKS_CACHE_TTL'' then ''-3m'' else []"] show ?thesis by (simp add: Let_def)
qed

text \<open>
  A setting means what it says: a positive whole number of a unit (h, m, s, ms, us, ns) that fits a
  duration is read as that many units, and a positive 64-bit number as that number.
\<close>

theorem settings_read_back:
  assumes "0 < n"
  shows "(unit_of u = Some unit \<longrightarrow> n * unit \<le> max_int64 \<longrightarrow> getenv key = FormatInt n @ u \<longrightarrow>
      envDuration getenv key def = n * unit) \<and>
    (n \<le> max_int64 \<longrightarrow> getenv key = FormatInt n \<longrightarrow> envInt getenv key def = n)"
proof
  show "unit_of u = Some unit \<longrightarrow> n * unit \<le> max_int64 \<longrightarrow> getenv key = FormatInt n @ u \<longrightarrow>
      envDuration getenv key def = n * unit"
  proof (intro impI)
    assume u: "unit_of u = Some unit" and fit: "n * unit \<le> max_int64" and get: "getenv key = FormatInt n @ u"
    have n: "FormatInt n = fmt_nat (nat n)" "int (nat n) = n" using assms by (simp_all add: FormatInt_def)
    have "ParseDuration (FormatInt n @ u) = Some (n * unit)" using ParseDuration_whole [OF u, of "nat n"] fit n by simp
    moreover have "0 < n * unit" using assms unit_of_chars [OF u] by simp
    ultimately show "envDuration getenv key def = n * unit" using get by (simp add: envDuration_def Let_def)
  qed
  show "n \<le> max_int64 \<longrightarrow> getenv key = FormatInt n \<longrightarrow> envInt getenv key def = n"
    using assms ParseInt_FormatInt [of n] by (auto simp: envInt_def min_int64_def)
qed

theorem settings_read_back_witness:
  "envDuration (\<lambda>_. FormatInt 90 @ ''s'') ''K'' 5 = 90 * 1000000000 \<and> envInt (\<lambda>_. FormatInt 7) ''K'' 5 = 7"
  using settings_read_back [of 90 "''s''" 1000000000 "\<lambda>_. FormatInt 90 @ ''s''" "''K''" 5]
    settings_read_back [of 7 "''s''" 1000000000 "\<lambda>_. FormatInt 7" "''K''" 5]
  by (simp add: unit_of_def max_int64_def)

text \<open>The field of the configuration says never to enable it outside local development; it is on unless it is switched off.\<close>

theorem codes_echoed_by_default:
  assumes "getenv ''DEV_MODE'' = []"
    and "RequestOtp (identity_auth (identity_Load getenv) repo rdb J iss) env phone w = (Inr (expires, shown), w')"
  shows "\<exists>s. otp_Request rdb (e_draw env) phone (w_redis w) = (Inr shown, s)"
  using assms
  by (auto simp: RequestOtp_def identity_auth_def identity_Load_def envOr_def ok_def elim!: and_then_InrE map_err_InrE
      dest!: on_redis_db)

end
