(* ===== verification/App.thy ===== *)
theory App
  imports Config Board
begin

text \<open>
  The composition roots (\<^verbatim>\<open>internal/app/app.go\<close> of both services) and the identity service's HTTP surface
  (\<^verbatim>\<open>internal/delivery/http/handler.go\<close>). What the outside answers while a service starts is the record \<open>host\<close>; the
  state is the open connections and the files. Log lines are left out.
\<close>

section \<open>Connections\<close>

datatype handle = MySQL | Redis

record boot =
  b_open :: "handle list"
  b_pool :: "(int \<times> int \<times> duration) option"
  b_files :: "string \<rightharpoonup> string"

datatype boot_err = BootErr string | BootKey key_err

type_synonym http_handler = "string \<Rightarrow> string \<Rightarrow> http_response"

record 'sk host =
  h_sqlOpen :: "string \<Rightarrow> string option"
  h_dbPing :: "string \<Rightarrow> string option"
  h_redisPing :: "string \<Rightarrow> string option"
  h_codec :: "'sk key_codec"
  h_genKey :: "string + 'sk"
  h_mkdir :: "string option"
  h_write :: "string option"
  h_register :: "string \<Rightarrow> string + http_handler"

definition answer :: "string option \<Rightarrow> ('b, boot_err, unit) action" where
  "answer r = (case r of None \<Rightarrow> ok () | Some e \<Rightarrow> fail (BootErr e))"

definition open_handle :: "handle \<Rightarrow> (boot, boot_err, unit) action" where
  "open_handle h b = (Inr (), b\<lparr>b_open := h # b_open b\<rparr>)"

definition close_handle :: "handle \<Rightarrow> (boot, boot_err, unit) action" where
  "close_handle h b = (Inr (), b\<lparr>b_open := remove1 h (b_open b)\<rparr>)"

text \<open>A step after which an error first closes a connection.\<close>

definition closing :: "handle \<Rightarrow> (boot, boot_err, 'a) action \<Rightarrow> (boot, boot_err, 'a) action" where
  "closing h m b = (case m b of (Inl e, b1) \<Rightarrow> (Inl e, snd (close_handle h b1)) | (Inr x, b1) \<Rightarrow> (Inr x, b1))"

definition openMySQL :: "'sk host \<Rightarrow> string \<Rightarrow> (boot, boot_err, unit) action" where
  "openMySQL H dsn =
     and_then (answer (h_sqlOpen H dsn)) (\<lambda>_.
     and_then (open_handle MySQL) (\<lambda>_.
     closing MySQL (answer (h_dbPing H dsn))))"

definition openRedis :: "'sk host \<Rightarrow> string \<Rightarrow> (boot, boot_err, unit) action" where
  "openRedis H addr =
     and_then (open_handle Redis) (\<lambda>_. closing Redis (answer (h_redisPing H addr)))"

section \<open>The identity service\<close>

text \<open>
  The mux: a pattern with method GET also takes HEAD, everything else goes to the gateway. Paths are as the
  mux sees them, after cleaning.
\<close>

definition identity_http :: "(rsa_pub \<Rightarrow> string) \<Rightarrow> string \<Rightarrow> rsa_pub \<Rightarrow> http_handler \<Rightarrow> http_handler" where
  "identity_http kid iss pk gwMux method path =
     (if (method = ''GET'' \<or> method = ''HEAD'') \<and> path = ''/oauth2/v1/jwks'' then JWKSHandler kid [pk]
      else if (method = ''GET'' \<or> method = ''HEAD'') \<and> path = ''/.well-known/openid-configuration'' then DiscoveryHandler iss
      else gwMux method path)"

definition http_NewHandler ::
  "'sk host \<Rightarrow> (rsa_pub \<Rightarrow> string) \<Rightarrow> string \<Rightarrow> string \<Rightarrow> rsa_pub \<Rightarrow> (boot, boot_err, http_handler) action" where
  "http_NewHandler H kid iss grpcAddr pk = (case h_register H grpcAddr of
      Inl e \<Rightarrow> fail (BootErr e)
    | Inr gwMux \<Rightarrow> ok (identity_http kid iss pk gwMux))"

record ('s, 'd, 'sk) identity_app =
  ia_cfg :: identity_config
  ia_auth :: "('s, 'd, 'sk) auth"
  ia_http :: http_handler

definition load_key :: "'sk host \<Rightarrow> string \<Rightarrow> (boot, boot_err, 'sk) action" where
  "load_key H path b = (case LoadOrGenerateKey (h_codec H) (h_genKey H) (h_mkdir H) (h_write H) path (b_files b) of
      (Inl e, fs) \<Rightarrow> (Inl (BootKey e), b\<lparr>b_files := fs\<rparr>)
    | (Inr key, fs) \<Rightarrow> (Inr key, b\<lparr>b_files := fs\<rparr>))"

definition identity_New ::
  "'sk host \<Rightarrow> (rsa_pub \<Rightarrow> byte list) \<Rightarrow> (byte list \<Rightarrow> byte list) \<Rightarrow> 'sk jwt_lib \<Rightarrow> 'd user_repo \<Rightarrow> 's redis \<Rightarrow>
   identity_config \<Rightarrow> (boot, boot_err, ('s, 'd, 'sk) identity_app) action" where
  "identity_New H der sha256 J db rdb cfg =
     and_then (openMySQL H (ic_MySQLDSN cfg)) (\<lambda>_.
     and_then (openRedis H (ic_RedisAddr cfg)) (\<lambda>_.
     and_then (load_key H (ic_SigningKeyPath cfg)) (\<lambda>key.
     let auth = identity_auth cfg db rdb J (NewIssuer der sha256 J key (ic_Issuer cfg)) in
     and_then (http_NewHandler H (KeyID der sha256) (ic_Issuer cfg) (ic_GRPCAddr cfg) (jwt_public J key)) (\<lambda>httpHandler.
     ok \<lparr>ia_cfg = cfg, ia_auth = auth, ia_http = httpHandler\<rparr>))))"

section \<open>The board\<close>

record 'd board_app =
  ba_cfg :: board_config
  ba_verifier :: "verifier \<times> cache"
  ba_repo :: "'d post_repo"
  ba_http :: http_handler

definition set_pool :: "int \<times> int \<times> duration \<Rightarrow> (boot, boot_err, unit) action" where
  "set_pool p b = (Inr (), b\<lparr>b_pool := Some p\<rparr>)"

definition board_openMySQL :: "'sk host \<Rightarrow> board_config \<Rightarrow> (boot, boot_err, unit) action" where
  "board_openMySQL H cfg =
     and_then (answer (h_sqlOpen H (bc_MySQLDSN cfg))) (\<lambda>_.
     and_then (open_handle MySQL) (\<lambda>_.
     and_then (set_pool (bc_DBMaxOpenConns cfg, bc_DBMaxIdleConns cfg, bc_DBConnMaxLifetime cfg)) (\<lambda>_.
     closing MySQL (answer (h_dbPing H (bc_MySQLDSN cfg))))))"

text \<open>When Redis does not answer, the database is closed, the Redis client is not.\<close>

definition board_New :: "'sk host \<Rightarrow> 'd post_repo \<Rightarrow> board_config \<Rightarrow> (boot, boot_err, 'd board_app) action" where
  "board_New H repo cfg =
     and_then (board_openMySQL H cfg) (\<lambda>_.
     and_then (open_handle Redis) (\<lambda>_.
     and_then (closing MySQL (answer (h_redisPing H (bc_RedisAddr cfg)))) (\<lambda>_.
     case h_register H (bc_GRPCAddr cfg) of
       Inl e \<Rightarrow> fail (BootErr e)
     | Inr gwMux \<Rightarrow> ok \<lparr>ba_cfg = cfg, ba_verifier = board_verifier cfg, ba_repo = repo, ba_http = gwMux\<rparr>)))"

section \<open>Running\<close>

text \<open>
  \<^verbatim>\<open>Run\<close> is the same in both services but for the worker (the relay, the consumer). The listener may fail; then
  a cancelled context or the first error of a server ends the wait. The steps are those of the process in
  order; \<^verbatim>\<open>defer\<close> stops the worker last.
\<close>

datatype worker = RelayLoop | ConsumerLoop
datatype run_step = StartWorker worker | ServeGRPC | ServeHTTP | ShutdownHTTP | GracefulStop | Close handle | StopWorker worker
datatype ending = CtxDone | ServerErr "string option"

definition identity_Run :: "string option \<Rightarrow> ending \<Rightarrow> string option \<times> run_step list" where
  "identity_Run listen fin = (case listen of
      Some e \<Rightarrow> (Some e, [])
    | None \<Rightarrow> (case fin of CtxDone \<Rightarrow> None | ServerErr e \<Rightarrow> e,
        [StartWorker RelayLoop, ServeGRPC, ServeHTTP, ShutdownHTTP, GracefulStop, Close Redis, Close MySQL, StopWorker RelayLoop]))"

definition board_Run :: "string option \<Rightarrow> ending \<Rightarrow> string option \<times> run_step list" where
  "board_Run listen fin = (case listen of
      Some e \<Rightarrow> (Some e, [])
    | None \<Rightarrow> (case fin of CtxDone \<Rightarrow> None | ServerErr e \<Rightarrow> e,
        [StartWorker ConsumerLoop, ServeGRPC, ServeHTTP, ShutdownHTTP, GracefulStop, Close Redis, Close MySQL, StopWorker ConsumerLoop]))"

definition run_effect :: "run_step \<Rightarrow> boot \<Rightarrow> boot" where
  "run_effect s b = (case s of Close h \<Rightarrow> snd (close_handle h b) | _ \<Rightarrow> b)"

text \<open>\<^verbatim>\<open>main\<close>: the exit code and the connections that are left to the operating system.\<close>

definition identity_main ::
  "'sk host \<Rightarrow> (rsa_pub \<Rightarrow> byte list) \<Rightarrow> (byte list \<Rightarrow> byte list) \<Rightarrow> 'sk jwt_lib \<Rightarrow> 'd user_repo \<Rightarrow> 's redis \<Rightarrow>
   getenv \<Rightarrow> string option \<Rightarrow> ending \<Rightarrow> boot \<Rightarrow> int \<times> boot" where
  "identity_main H der sha256 J db rdb getenv listen fin b =
     (case identity_New H der sha256 J db rdb (identity_Load getenv) b of
        (Inl e, b1) \<Rightarrow> (1, b1)
      | (Inr a, b1) \<Rightarrow> (case identity_Run listen fin of (err, steps) \<Rightarrow>
          (if err = None then 0 else 1, fold run_effect steps b1)))"

definition board_main ::
  "'sk host \<Rightarrow> 'd post_repo \<Rightarrow> getenv \<Rightarrow> string option \<Rightarrow> ending \<Rightarrow> boot \<Rightarrow> int \<times> boot" where
  "board_main H repo getenv listen fin b =
     (case board_New H repo (board_Load getenv) b of
        (Inl e, b1) \<Rightarrow> (1, b1)
      | (Inr a, b1) \<Rightarrow> (case board_Run listen fin of (err, steps) \<Rightarrow>
          (if err = None then 0 else 1, fold run_effect steps b1)))"

section \<open>What a start leaves open\<close>

lemma answer_InrE: "answer r b = (Inr x, b') \<Longrightarrow> r = None \<and> b' = b"
  by (auto simp: answer_def ok_def fail_def split: option.splits)

lemma closing_answer_InrE: "closing h (answer r) b = (Inr x, b') \<Longrightarrow> r = None \<and> b' = b"
  by (cases "answer r b") (auto simp: closing_def dest: answer_InrE split: sum.splits)

lemma openMySQL_Inr: "openMySQL H dsn b = (Inr x, b') \<Longrightarrow> b_open b' = MySQL # b_open b \<and> b_files b' = b_files b"
  by (auto simp: openMySQL_def open_handle_def elim!: and_then_InrE dest!: answer_InrE closing_answer_InrE)

lemma openRedis_Inr: "openRedis H a b = (Inr x, b') \<Longrightarrow> b_open b' = Redis # b_open b \<and> b_files b' = b_files b"
  by (auto simp: openRedis_def open_handle_def elim!: and_then_InrE dest!: closing_answer_InrE)

lemma load_key_open: "load_key H p b = (r, b') \<Longrightarrow> b_open b' = b_open b"
  by (auto simp: load_key_def split: prod.splits sum.splits)

lemma identity_New_InrE:
  assumes "identity_New H der sha256 J db rdb cfg b = (Inr a, b')"
  obtains key gwMux where "b_open b' = Redis # MySQL # b_open b"
    and "a = \<lparr>ia_cfg = cfg, ia_auth = identity_auth cfg db rdb J (NewIssuer der sha256 J key (ic_Issuer cfg)),
      ia_http = identity_http (KeyID der sha256) (ic_Issuer cfg) (jwt_public J key) gwMux\<rparr>"
  using assms unfolding identity_New_def Let_def
  by (auto simp: http_NewHandler_def ok_def fail_def elim!: and_then_InrE
      dest!: openMySQL_Inr openRedis_Inr load_key_open split: sum.splits)

lemma board_New_InrE:
  assumes "board_New H repo cfg b = (Inr a, b')"
  obtains gwMux where "b_open b' = Redis # MySQL # b_open b"
    and "a = \<lparr>ba_cfg = cfg, ba_verifier = board_verifier cfg, ba_repo = repo, ba_http = gwMux\<rparr>"
  using assms unfolding board_New_def board_openMySQL_def
  by (auto simp: open_handle_def set_pool_def ok_def fail_def elim!: and_then_InrE
      dest!: answer_InrE closing_answer_InrE split: sum.splits)

lemma run_closes:
  assumes "identity_Run listen fin = (None, steps) \<or> board_Run listen fin = (None, steps)" and "b_open b = Redis # MySQL # hs"
  shows "b_open (fold run_effect steps b) = hs"
  using assms
  by (auto simp: identity_Run_def board_Run_def run_effect_def close_handle_def split: option.splits ending.splits)

text \<open>
  A process of either service that ends with exit code 0 has closed every connection it opened; and
  when Redis is down, a start of the identity service fails with the database still open, while the board closes it.
\<close>

theorem clean_exit:
  "(fst (identity_main H der sha256 J db rdb getenv listen fin b) = 0 \<longrightarrow>
      b_open (snd (identity_main H der sha256 J db rdb getenv listen fin b)) = b_open b) \<and>
   (fst (board_main H repo getenv listen fin b) = 0 \<longrightarrow>
      b_open (snd (board_main H repo getenv listen fin b)) = b_open b)"
proof (intro conjI impI)
  assume z: "fst (identity_main H der sha256 J db rdb getenv listen fin b) = 0"
  then obtain a b1 where new: "identity_New H der sha256 J db rdb (identity_Load getenv) b = (Inr a, b1)"
    unfolding identity_main_def by (cases "identity_New H der sha256 J db rdb (identity_Load getenv) b") (auto split: sum.splits)
  obtain steps where run: "identity_Run listen fin = (None, steps)"
    using z new by (cases "identity_Run listen fin") (auto simp: identity_main_def split: if_splits)
  from new show "b_open (snd (identity_main H der sha256 J db rdb getenv listen fin b)) = b_open b"
    by (rule identity_New_InrE) (use run_closes [OF disjI1 [OF run]] new run in \<open>simp add: identity_main_def\<close>)
next
  assume z: "fst (board_main H repo getenv listen fin b) = 0"
  then obtain a b1 where new: "board_New H repo (board_Load getenv) b = (Inr a, b1)"
    unfolding board_main_def by (cases "board_New H repo (board_Load getenv) b") (auto split: sum.splits)
  obtain steps where run: "board_Run listen fin = (None, steps)"
    using z new by (cases "board_Run listen fin") (auto simp: board_main_def split: if_splits)
  from new show "b_open (snd (board_main H repo getenv listen fin b)) = b_open b"
    by (rule board_New_InrE) (use run_closes [OF disjI2 [OF run]] new run in \<open>simp add: board_main_def\<close>)
qed

theorem failed_start_leaks:
  assumes "h_sqlOpen H (ic_MySQLDSN cfg) = None" and "h_dbPing H (ic_MySQLDSN cfg) = None"
    and "h_redisPing H (ic_RedisAddr cfg) = Some e"
  shows "\<exists>b'. identity_New H der sha256 J db rdb cfg b = (Inl (BootErr e), b') \<and> b_open b' = MySQL # b_open b"
  using assms
  by (simp add: identity_New_def openMySQL_def openRedis_def and_then_def answer_def ok_def fail_def open_handle_def
      closing_def close_handle_def)

section \<open>Two services that belong together\<close>

text \<open>
  C14. The services trust each other as they are assembled. Start both with any environments in which the board expects
  the issuer, the audience and the key address of that identity service (the defaults do), and let a GET of that
  address reach the identity service's HTTP handler. Then the board, with the empty cache it starts with, accepts
  every unexpired access token that the identity service's issuer makes, and reads the user id and the status from it.
\<close>

theorem services_trust:
  assumes "jwt_laws J"
    and "identity_New H der sha256 J db rdb (identity_Load ienv) b = (Inr A, b1)"
    and "board_New H' repo (board_Load benv) b2 = (Inr B, b3)"
    and "ic_Issuer (ia_cfg A) = bc_Issuer (ba_cfg B)" and "bc_Audience (ba_cfg B) = ''board''"
    and "bc_JWKSURL (ba_cfg B) = ic_Issuer (ia_cfg A) @ ''/oauth2/v1/jwks''"
    and "\<And>x. \<exists>x'. http_Do E (ic_Issuer (ia_cfg A) @ ''/oauth2/v1/jwks'') x = (Inr (ia_http A ''GET'' ''/oauth2/v1/jwks''), x')"
    and "\<And>f x. brk_Execute E f x = f x"
    and "sha256 (der (jwt_public J (iss_key (a_issuer (ia_auth A))))) \<noteq> []"
    and "0 \<le> rsa_E (jwt_public J (iss_key (a_issuer (ia_auth A))))" and "rsa_E (jwt_public J (iss_key (a_issuer (ia_auth A)))) < 2 ^ 63"
    and "AccessToken J (a_issuer (ia_auth A)) t0 jti u st = Inr tok"
    and "\<bar>t0 + Seconds AccessTokenTTL\<bar> < 2 ^ 53" and "\<And>x. fst (time_Now E x) div 10 ^ 9 < t0 + Seconds AccessTokenTTL"
  shows "\<exists>w'. Verify J (fst (ba_verifier B)) E tok \<lparr>vw_cache = snd (ba_verifier B), vw_env = x\<rparr> =
    (Inr \<lparr>c_Subject = FormatInt u, c_Status = st\<rparr>, w')"
proof -
  let ?i = "a_issuer (ia_auth A)" and ?v = "fst (ba_verifier B)"
  let ?pk = "jwt_public J (iss_key ?i)"
  from assms(2) obtain key gwMux where A: "A = \<lparr>ia_cfg = identity_Load ienv,
      ia_auth = identity_auth (identity_Load ienv) db rdb J (NewIssuer der sha256 J key (ic_Issuer (identity_Load ienv))),
      ia_http = identity_http (KeyID der sha256) (ic_Issuer (identity_Load ienv)) (jwt_public J key) gwMux\<rparr>"
    by (rule identity_New_InrE)
  from assms(3) obtain gwMux' where B: "B = \<lparr>ba_cfg = board_Load benv, ba_verifier = board_verifier (board_Load benv), ba_repo = repo, ba_http = gwMux'\<rparr>"
    by (rule board_New_InrE)
  have kid: "iss_kid ?i = KeyID der sha256 ?pk" and iss: "iss_issuer ?i = ic_Issuer (ia_cfg A)"
    and served: "ia_http A ''GET'' ''/oauth2/v1/jwks'' = JWKSHandler (KeyID der sha256) [?pk]"
    by (simp_all add: A identity_auth_def NewIssuer_def identity_http_def)
  have v: "v_issuer ?v = bc_Issuer (ba_cfg B)" "v_audience ?v = bc_Audience (ba_cfg B)" "v_jwksURL ?v = bc_JWKSURL (ba_cfg B)"
    and cache: "snd (ba_verifier B) = snd (New [] [] [] None)"
    by (simp_all add: B board_verifier_def New_def)
  have kid_ne: "KeyID der sha256 ?pk \<noteq> []" using assms(9) by (simp add: KeyID_def hex_EncodeToString_def)
  have fetch: "\<exists>x'. brk_Execute E (fetchJWKS E (v_jwksURL ?v)) x = (Inr [iss_kid ?i \<mapsto> ?pk], x')" for x
  proof -
    obtain x' where "http_Do E (v_jwksURL ?v) x = (Inr (JWKSHandler (KeyID der sha256) [?pk]), x')"
      using assms(7) [of x] unfolding served v assms(6) by blast
    from fetch_handler [OF this] kid_ne assms(10,11) show ?thesis by (simp add: assms(8) kid)
  qed
  have slow: "o_RefreshCooldown (v_opts ?v) \<le> max_int64"
    using envDuration_bounds [of "10 * Second" benv "''JWKS_REFRESH_COOLDOWN''"]
    by (simp add: B board_verifier_def New_def new_options_def board_Load_def duration_defs max_int64_def Let_def)
  have "\<exists>w'. Verify J ?v E tok \<lparr>vw_cache = snd (ba_verifier B), vw_env = x\<rparr> = (Inr \<lparr>c_Subject = FormatInt u, c_Status = st\<rparr>, w') \<and>
      k_keys (vw_cache w') = [iss_kid ?i \<mapsto> ?pk]"
    by (rule Verify_refetched [OF assms(1,12) _ _ _ fetch _ _ _ assms(13,14)])
      (use kid_ne slow in \<open>simp_all add: kid iss v assms(4,5) cache New_def miss_allowed_def Since_def\<close>)
  then show ?thesis by blast
qed

text \<open>A host on which everything answers, and a network that leads to a handler.\<close>

definition demo_host :: "rsa_pub host" where
  "demo_host = \<lparr>h_sqlOpen = (\<lambda>_. None), h_dbPing = (\<lambda>_. None), h_redisPing = (\<lambda>_. None),
     h_codec = \<lparr>pem_Decode = (\<lambda>_. Some []), pem_Encode = (\<lambda>_. []), ParsePKCS1 = (\<lambda>_. Inr demo_key), MarshalPKCS1 = (\<lambda>_. [])\<rparr>,
     h_genKey = Inr demo_key, h_mkdir = None, h_write = None, h_register = (\<lambda>_. Inr (\<lambda>_ _. DiscoveryHandler []))\<rparr>"

definition demo_boot :: boot where
  "demo_boot = \<lparr>b_open = [], b_pool = None, b_files = Map.empty\<rparr>"

definition net_to :: "http_handler \<Rightarrow> unit env" where
  "net_to h = \<lparr>http_Do = (\<lambda>url x. (Inr (h ''GET'' ''/oauth2/v1/jwks''), x)), brk_Execute = (\<lambda>f x. f x),
     brk_State = (\<lambda>x. ''closed''), time_Now = (\<lambda>x. (1500 * 10 ^ 9, x))\<rparr>"

lemmas boot_defs = openMySQL_def openRedis_def board_openMySQL_def load_key_def http_NewHandler_def closing_def answer_def
  open_handle_def set_pool_def and_then_def ok_def

theorem services_trust_witness:
  "\<exists>A B tok cl. fst (identity_New demo_host (\<lambda>_. []) (\<lambda>_. [1]) sealed_jwt (mysql_repo (\<lambda>x. x) demo_day) mem_redis
       (identity_Load (\<lambda>_. [])) demo_boot) = Inr A \<and>
     fst (board_New demo_host (NewPostRepo (\<lambda>x. x)) (board_Load (\<lambda>_. [])) demo_boot) = Inr B \<and>
     AccessToken sealed_jwt (a_issuer (ia_auth A)) 1000 ''j'' 7 ''ACTIVE'' = Inr tok \<and>
     fst (Verify sealed_jwt (fst (ba_verifier B)) (net_to (ia_http A)) tok \<lparr>vw_cache = snd (ba_verifier B), vw_env = ()\<rparr>) = Inr cl \<and>
     c_Subject cl = FormatInt 7"
proof -
  obtain A b1 where A: "identity_New demo_host (\<lambda>_. []) (\<lambda>_. [1]) sealed_jwt (mysql_repo (\<lambda>x. x) demo_day) mem_redis
      (identity_Load (\<lambda>_. [])) demo_boot = (Inr A, b1)"
    and a: "ia_cfg A = identity_Load (\<lambda>_. [])" "iss_key (a_issuer (ia_auth A)) = demo_key"
    by (simp add: identity_New_def boot_defs demo_host_def demo_boot_def LoadOrGenerateKey_def identity_auth_def NewIssuer_def)
  obtain B b3 where B: "board_New demo_host (NewPostRepo (\<lambda>x. x)) (board_Load (\<lambda>_. [])) demo_boot = (Inr B, b3)"
    and b: "ba_cfg B = board_Load (\<lambda>_. [])"
    by (simp add: board_New_def boot_defs demo_host_def demo_boot_def)
  obtain tok where tok: "AccessToken sealed_jwt (a_issuer (ia_auth A)) 1000 ''j'' 7 ''ACTIVE'' = Inr tok"
    using sealed_issues(1) by (rule not_islE)
  have "\<exists>w'. Verify sealed_jwt (fst (ba_verifier B)) (net_to (ia_http A)) tok \<lparr>vw_cache = snd (ba_verifier B), vw_env = ()\<rparr> =
      (Inr \<lparr>c_Subject = FormatInt 7, c_Status = ''ACTIVE''\<rparr>, w')"
    by (rule services_trust [OF sealed_laws A B _ _ _ _ _ _ _ _ tok])
      (simp_all add: a b identity_Load_def board_Load_def envOr_def net_to_def sealed_jwt_def demo_key_def
        AccessTokenTTL_def duration_defs)
  then obtain w' where "fst (Verify sealed_jwt (fst (ba_verifier B)) (net_to (ia_http A)) tok \<lparr>vw_cache = snd (ba_verifier B), vw_env = ()\<rparr>) =
      Inr \<lparr>c_Subject = FormatInt 7, c_Status = ''ACTIVE''\<rparr>" by auto
  with A B tok show ?thesis by (auto intro!: exI [of _ A] exI [of _ B] exI [of _ tok])
qed

end
