(* ===== verification/Spec2Isabelle.thy ===== *)
theory Spec2Isabelle
  imports Signup_Events Logging Jwks_Concurrent App
begin

text \<open>
  A verification of the identity core: two Go services, an identity provider for phone-number accounts and a
  message board that trusts its tokens, which share nothing but the provider's public keys (over HTTP) and its
  stream of events (over Redis Streams).

  \<^bold>\<open>The program and its parts.\<close> A client asks the identity service for a one-time code, proves it, and is routed by the status of
  the account and the device: tokens at once, or a flow token with which it completes a signup, a reactivation
  or a device challenge. Tokens are a signed access and ID token and an opaque refresh token that is exchanged
  once. A signup writes the account and an event row in one transaction; a relay copies such rows to a stream; the
  board's consumer keeps a table of nicknames from them. The board verifies access tokens with the keys that the identity
  service publishes, and stores and lists posts.

  \<^bold>\<open>Theories and sources\<close> (paths below \<^verbatim>\<open>src/\<close>; I is \<^verbatim>\<open>services/identity/internal\<close>, B is \<^verbatim>\<open>services/board/internal\<close>):

  \<^item> \<open>Prelude\<close>: results, state-passing actions (\<open>and_then\<close>), \<^verbatim>\<open>strconv\<close>; \<open>Go_Json\<close>, \<open>Go_Base64\<close>, \<open>Go_Duration\<close>: the parts of
    Go's standard library that the services use; \<open>Grpc_Status\<close>: status codes and metadata.
  \<^item> \<open>Redis_Server\<close>, \<open>Event_Stream\<close>: the servers outside the repository, as parameters with laws.
  \<^item> \<open>Rate_Window\<close>, \<open>Otp\<close> (\<^verbatim>\<open>I/otp/store.go\<close>), \<open>Devverify\<close> (\<^verbatim>\<open>I/devverify/limiter.go\<close>), \<open>Rtr\<close> (\<^verbatim>\<open>I/rtr/store.go\<close>): the stores in Redis.
  \<^item> \<open>Token\<close> (\<^verbatim>\<open>I/token\<close>): issuer, flow tokens, key file, key set and discovery documents.
  \<^item> \<open>Identity_Domain\<close> (\<^verbatim>\<open>I/domain/user.go\<close>), \<open>User_Repo\<close> (\<^verbatim>\<open>I/repo/mysql/user_repo.go\<close>): accounts and the SQL on their tables.
  \<^item> \<open>Auth\<close> (\<^verbatim>\<open>I/usecase/auth.go\<close>), \<open>Identity_Grpc\<close> (\<^verbatim>\<open>I/delivery/grpc/handler.go\<close>): the six flows and their RPCs.
  \<^item> \<open>Outbox\<close> (\<^verbatim>\<open>I/outbox/relay.go\<close>), \<open>Consumer\<close> (\<^verbatim>\<open>B/consumer/consumer.go\<close>), \<open>Signup_Events\<close>: the way of an event.
  \<^item> \<open>Jwks\<close> (\<^verbatim>\<open>pkg/jwks/verifier.go\<close>): the verifier with its key cache, for one caller; \<open>Jwks_Concurrent\<close>: the same code in pieces, for
    any number of goroutines.
  \<^item> \<open>Board_Repo\<close> (\<^verbatim>\<open>B/domain/post.go\<close>, \<^verbatim>\<open>B/repo/mysql/post_repo.go\<close>), \<open>Board\<close> (\<^verbatim>\<open>B/usecase/board.go\<close>), \<open>Board_Grpc\<close>
    (\<^verbatim>\<open>B/delivery/grpc\<close>): posts, the interceptor that authenticates, the RPCs.
  \<^item> \<open>Config\<close> (\<^verbatim>\<open>config.go\<close> of both), \<open>App\<close> (\<^verbatim>\<open>app.go\<close> and \<^verbatim>\<open>main.go\<close> of both, \<^verbatim>\<open>I/delivery/http/handler.go\<close>): settings and assembly.
  \<^item> \<open>Logging\<close> (\<^verbatim>\<open>pkg/logger/logger.go\<close>, \<^verbatim>\<open>interceptor.go\<close> of both, \<^verbatim>\<open>server.go\<close>): the request log, the lines of the mock SMS and of the
    circuit breaker, and the servers.

  \<^bold>\<open>State and operations.\<close> A Go struct is a record and an interface is a record of functions; a method is a function from its arguments and
  the state to a result (\<open>Inl\<close> the error) and the new state, named after the method. Every early return is a branch, and every
  call that changes state is made in the order of the source, also when its error is dropped. Strings are byte
  strings. Where an operation is several round trips that others can come between (exchanging a refresh token, publishing
  a batch, consuming a batch, verifying a token), an inductive step relation runs the pieces in any order, with errors, lost answers and restarts.

  \<^bold>\<open>Interfaces\<close> are locales, and the clients' lemmas are proved in them: \<open>redis_server\<close> and \<open>redis_reliable\<close> (commands on the view of a
  Redis server), \<open>window_limited\<close> (an operation behind a counter), \<open>user_store\<close> and \<open>repo_kept\<close> (what the flows rely on
  in the user repository), \<open>jwt_laws\<close> (the JWT library), \<open>stream_group\<close> and \<open>cons_server\<close> (a stream with a consumer group),
  \<open>jwks_env\<close>, \<open>steady_clock\<close> and \<open>provider_up\<close> (network and clock of the verifier), \<open>post_store\<close> (posts). Those that the repository
  implements are interpreted on its model (\<open>mysql\<close>, \<open>news\<close>, \<open>mysql_posts\<close>, the two limiters); those of
  outside systems on executable servers (\<open>mem\<close>, \<open>mem_rel\<close>, \<open>evlog\<close>, \<open>registered\<close>, \<open>sealed\<close>, \<open>demo_jwks\<close>, \<open>demo_clock\<close>, \<open>rotating\<close>), on which
  the witnesses run.

  \<^bold>\<open>What is shown.\<close>

  \<^item> Secrets: of verifications made one after the other a code is accepted once and only among the first five guesses; five codes are sent per
    fixed window, and three wrong device answers are looked at; a refresh token is exchanged at most once in every interleaving, the
    replay of any earlier token of a session ends it for good, and a session that is not disturbed lasts; tokens of one
    flow are useless in another; the log shows every code that is sent.
  \<^item> Accounts: registration is all or nothing under every fault; statuses move along the transition table only; a login is routed by
    status and device; no RPC returns tokens unless the challenge of its flow was met.
  \<^item> Events: the stream holds every row that is marked published, and nothing but committed rows, also when transactions
    overlap (in order of first occurrence, if they do not); no event that the consumer was given is lost; both catch up in a number of
    steps that is stated, the consumer with all effects in its table; every account becomes visible on the board.
  \<^item> The verifier: in every interleaving of its callers sound for the published keys and unable to be made to
    hammer the identity service; a caller that is alone computes the sequential function; alive in an outage and after a
    rotation; it reads back the key set that the identity service prints.
  \<^item> The board: an author is the subject of an accepted access token; listing equals a slice of a reference feed; a walk over
    the pages ends and shows every post once.
  \<^item> Assembly: the two services as their composition roots build them fit together; settings are always usable; a
    process that exits with code 0 has closed what it opened; the request log has its line for every call and changes nothing.
  \<^item> Where the code falls short (guesses of a code in parallel, overlapping fetches of the key set, a counter without a deadline, a poison event, refresh of suspended accounts, a connection left open by a
    failed start), the theorem says so.

  \<^bold>\<open>Bounds and fuel.\<close> The JSON parser is bounded by the length of its input, which \<open>parse_bound_enough\<close> shows to be enough. The relay and the
  consumer loop for ever by design; their models run a list of signals and a number of rounds, and the theorems state how many
  suffice: one tick per hundred rows, one round per entry and one more. A walk over pages is a relation, and
  \<open>browse_terminates\<close> shows that it gets to the end. All other recursions are total. Times of tokens are below
  2 to the 53rd seconds (JSON numbers), ids and durations are 64-bit.

  \<^bold>\<open>Parameters.\<close> Redis, the stream server, the JWT library, PEM, RSA, SHA-256, the HTTP client, the circuit breaker, the clock, random
  bytes, the collation (\<open>weight\<close>), the text that MySQL gives for JSON (\<open>jt\<close>), the verb \<^verbatim>\<open>%q\<close> (\<open>quote\<close>), the generated gateway and the
  answers of the host at the start are arguments; what is relied on is a locale or a hypothesis.

  \<^bold>\<open>Not modelled.\<close> The generated code (\<^verbatim>\<open>api/gen\<close>: messages, stubs and the REST gateway), the web client, the log lines of
  the relay, of the consumer and of start and end of a process, contexts and deadlines, pauses between retries, path cleaning of the
  HTTP mux. Registrations are one transaction at a time, except in \<open>Outbox\<close>, where transactions that hold an outbox id
  overlap with each other and with the relays. A section under the lock of the verifier is one step; waiting for it is not
  expressed. A call through the circuit breaker takes effect at one moment. A consumer
  group is seen by one consumer; others of the group would take entries away from it.
\<close>

section \<open>Properties that span the services\<close>

text \<open>
  C5. Every account becomes visible on the board. Start with an empty user database and let any RPCs be made with any
  arguments, with database faults and with Redis in any state in between; then let the database and the stream server
  answer, the relay run for enough ticks (a hundred rows each) and after it the board's consumer for more
  rounds than there are rows. Then the board shows, for every account that exists, the nickname of its profile. The
  hypotheses on \<open>jt\<close> and \<open>weight\<close>: the text that MySQL gives for the JSON column reads back as an object with the same
  members, in whatever order (MySQL sorts the keys of an object), and its collation tells decimal numbers apart.
\<close>

theorem nicknames_reach_board:
  assumes "stream_group X Stream cons_group name sview" and "appends X up" and "serves X name up" and "up x"
    and "sv_log (sview x) = []"
    and "(identity_step idweight)\<^sup>*\<^sup>* w0 w" and "db_tables (w_db w0) = db_tables empty_db"
    and "\<And>p. \<exists>j. parse_doc (jt (account_doc p)) = Some j \<and> same_object j (account_doc p)" and "inj_on weight (range FormatInt)"
    and "bd_faults b = []"
    and "length (t_outbox (db_tables (w_db w))) \<le> 100 * k" and "length (t_outbox (db_tables (w_db w))) < m"
    and "p \<in> set (t_profiles (db_tables (w_db w)))"
  shows "nickname_of weight (board_after X jt weight name k m (w_db w) x b) (FormatInt (pr_user p)) = pr_nick p"
proof -
  have "news_inv (w_db w0)" by (simp add: db_wf_def announced_def assms(7) empty_db_def)
  from identity_steps_news [OF assms(6) this]
  show ?thesis by (rule nickname_arrives [OF assms(1-5) _ assms(10,9,8,11-13)])
qed

text \<open>A JSON column as MySQL prints it: keys by length and, among those of one length, as they are (in order already).\<close>

definition mysql_text :: "json \<Rightarrow> string" where
  "mysql_text j = print_json (case j of JObj ms \<Rightarrow> JObj (sort_key (\<lambda>m. length (fst m)) ms) | _ \<Rightarrow> j)"

lemma account_doc_prints: "\<exists>j. parse_doc (mysql_text (account_doc p)) = Some j \<and> same_object j (account_doc p)"
proof -
  let ?j = "JObj [(''user_id'', JNum (FormatInt (pr_user p))), (''nickname'', JStr (pr_nick p))]"
  have "mysql_text (account_doc p) = print_json ?j" by (simp add: mysql_text_def account_doc_def)
  moreover have "parse_doc (print_json ?j) = Some ?j" by (rule parse_print) (auto intro!: int_json.intros)
  ultimately show ?thesis by (auto simp: account_doc_def)
qed

theorem nicknames_reach_board_witness:
  "let w = snd (identity_serve id demo_auth demo_env (CompleteSignupRequest demo_flow ''ann'' [] [] [])
       \<lparr>w_redis = empty_mem, w_db = empty_db\<rparr>);
     n = length (t_outbox (db_tables (w_db w))) in
   \<exists>p \<in> set (t_profiles (db_tables (w_db w))).
     nickname_of (\<lambda>x. x) (board_after (el_streams Stream) mysql_text (\<lambda>x. x) ''h'' n (Suc n) (w_db w) (rw_x demo_relay)
       (demo_board\<lparr>bd_authors := []\<rparr>)) (FormatInt (pr_user p)) = pr_nick p"
proof -
  let ?start = "\<lparr>w_redis = empty_mem, w_db = empty_db\<rparr>"
  let ?req = "CompleteSignupRequest demo_flow ''ann'' [] [] []"
  let ?w = "snd (identity_serve id demo_auth demo_env ?req ?start)"
  let ?T = "db_tables (w_db ?w)"
  have step: "(identity_step (\<lambda>x. x))\<^sup>*\<^sup>* ?start ?w"
    using identity_step.rpc [OF demo_repo, of ?start id demo_env ?req] by (simp only: r_into_rtranclp)
  have wf0: "db_wf (w_db ?start)" by (simp add: empty_db_wf)
  obtain pair w1 where run: "CompleteSignup demo_auth demo_env demo_flow ''ann'' [] [] [] ?start = (Inr pair, w1)"
    using demo_signup by blast
  have w1: "w1 = ?w" by (subst signup_rpc [OF run demo_flow_nonempty]) simp_all
  from mysql.signup_success [OF demo_repo wf0 run] obtain u where "acct_of (w_db ?w) u = Some ACTIVE" unfolding w1 by blast
  then obtain r where "user_by_id ?T u = Some r" by (auto simp only: map_option_eq_Some)
  then have r: "r \<in> set (t_users ?T)" by (simp only: user_by_id_mem)
  have "db_wf (w_db ?w)"
    using db_keepsD [OF mysql.keeps_CompleteSignup [OF demo_repo] wf0 run] unfolding w1 by (rule conjunct1)
  with r obtain p where p: "p \<in> set (t_profiles ?T)" by (auto simp: db_wf_def Let_def)
  have "nickname_of (\<lambda>x. x) (board_after (el_streams Stream) mysql_text (\<lambda>x. x) ''h'' (length (t_outbox ?T))
      (Suc (length (t_outbox ?T))) (w_db ?w) (rw_x demo_relay) (demo_board\<lparr>bd_authors := []\<rparr>)) (FormatInt (pr_user p)) = pr_nick p"
  proof (rule nicknames_reach_board [OF evlog_laws el_appends _ _ _ step _ account_doc_prints _ _ _ _ p])
    show "serves (el_streams Stream) ''h'' (\<lambda>x. el_faults x = [])" using el_serves by (simp add: same_stream)
    show "sv_log (el_view Stream (rw_x demo_relay)) = []" by (simp add: demo_relay_def el_view_def el_messages_def Let_def)
  qed (simp_all add: demo_relay_def demo_board_def inj_on_def)
  with p show ?thesis unfolding Let_def by blast
qed

text \<open>
  C12. The board takes access tokens only: of the tokens that an issuer makes, a verifier for the audience
  \<^verbatim>\<open>board\<close> accepts none but access tokens, whatever key set it holds, and the claims it returns are the
  user id and the status that the token was made for. Identity tokens and flow tokens are refused.
\<close>

theorem board_takes_access_tokens_only:
  assumes "jwt_laws J" and "v_audience v = ''board''"
    and "Inr tok \<in> {AccessToken J i t0 jti u st, IDToken J i t1 u' nick, FlowToken J i t2 q s}"
    and "Verify J v E tok w = (Inr cl, w')"
  shows "AccessToken J i t0 jti u st = Inr tok \<and> c_Subject cl = FormatInt u \<and> c_Status cl = st \<and>
    v_issuer v = iss_issuer i \<and> jwt_public J (iss_key i) \<in> ran (k_keys (vw_cache w'))"
proof -
  from VerifyE [OF assms(4)] obtain pk t c where pk: "pk \<in> ran (k_keys (vw_cache w'))"
    and chk: "jwt_check J \<lparr>want_iss = v_issuer v, want_aud = v_audience v\<rparr> t tok pk = Inr c"
    and fin: "finish_claims c = Inr cl" by blast
  note names = jwt_laws.check_claims [OF assms(1) chk]
  have signed: "map_of c = map_of cs \<and> pk = jwt_public J (iss_key i)" if "iss_sign J i cs = Inr tok" for cs
    using that jwt_laws.signed_claims [OF assms(1) _ chk] by (blast elim: iss_sign_InrE)
  have aud: "map_of cs ''aud'' \<noteq> Some (JStr a)" if "iss_sign J i cs = Inr tok" "a \<noteq> ''board''" for cs a
    using signed [OF that(1)] names that(2) assms(2) by (auto simp: names_aud_def)
  have "IDToken J i t1 u' nick \<noteq> Inr tok" using aud [of "id_claims i t1 u' nick" "''poc-frontend''"]
    by (auto simp: IDToken_def id_claims_def)
  moreover have "FlowToken J i t2 q s \<noteq> Inr tok" using aud [of "flow_claims i t2 q s" "''flow''"]
    by (auto simp: FlowToken_def flow_claims_def)
  ultimately have tok: "AccessToken J i t0 jti u st = Inr tok" using assms(3) by auto
  then have "iss_sign J i (access_claims i t0 jti u st) = Inr tok" by (simp add: AccessToken_def)
  note c = signed [OF this]
  then show ?thesis using tok fin names pk
    by (auto simp: finish_claims_def GetSubject_def access_claims_def names_iss_def split: if_splits)
qed

text \<open>The board of the witnesses: the key is cached and the identity service is down.\<close>

definition cached_world :: "unit vworld" where
  "cached_world = \<lparr>vw_cache = demo_cache\<lparr>k_keys := [''k1'' \<mapsto> demo_key]\<rparr>, vw_env = ()\<rparr>"

lemma cached_accepts:
  assumes "AccessToken sealed_jwt demo_issuer 1000 jti u st = Inr tok"
  shows "\<exists>w'. Verify sealed_jwt demo_verifier (still_env False) tok cached_world =
    (Inr \<lparr>c_Subject = FormatInt u, c_Status = st\<rparr>, w')"
proof -
  have down: "isl (fst (brk_Execute (still_env False) f x))" for f x by (simp add: still_env_def)
  from refreshIfStale_down [of "still_env False", OF down, of demo_verifier cached_world] obtain w1
    where st: "refreshIfStale demo_verifier (still_env False) cached_world = (Inr () :: verify_err + unit, w1)"
      and keys: "k_keys (vw_cache w1) = [''k1'' \<mapsto> demo_key]" by (auto simp: cached_world_def)
  have "keyFor demo_verifier (still_env False) (iss_kid demo_issuer) w1 =
      (Inr (jwt_public sealed_jwt (iss_key demo_issuer)), w1)" using keys by (simp add: keyFor_def)
  from Verify_access [OF sealed_laws assms _ _ _ st this] show ?thesis
    by (auto simp: still_env_def AccessTokenTTL_def duration_defs)
qed

theorem board_takes_access_tokens_only_witness:
  "\<exists>cl w'. Verify sealed_jwt demo_verifier (still_env False) demo_access cached_world = (Inr cl, w') \<and>
     c_Subject cl = FormatInt 7 \<and> c_Status cl = ''ACTIVE'' \<and>
     isl (fst (Verify sealed_jwt demo_verifier (still_env False) demo_flow cached_world))"
proof -
  obtain cl w' where ver: "Verify sealed_jwt demo_verifier (still_env False) demo_access cached_world = (Inr cl, w')"
    using cached_accepts [OF demo_access_issued] by blast
  have aud: "v_audience demo_verifier = ''board''" by simp
  note one = board_takes_access_tokens_only [OF sealed_laws aud _ ver, of demo_issuer 1000 "''j''" 7 "''ACTIVE''" 1000 7 "''n''"
      1000 FlowSignup "''+82''"]
  have "isl (fst (Verify sealed_jwt demo_verifier (still_env False) demo_flow cached_world))"
  proof (rule ccontr)
    assume "\<not> isl (fst (Verify sealed_jwt demo_verifier (still_env False) demo_flow cached_world))"
    then obtain cl2 w2 where "Verify sealed_jwt demo_verifier (still_env False) demo_flow cached_world = (Inr cl2, w2)"
      by (metis not_islE prod.collapse)
    note two = board_takes_access_tokens_only [OF sealed_laws aud _ this, of demo_issuer 1000 "''j''" 7 "''ACTIVE''" 1000 7 "''n''"
        1000 FlowSignup "''+82''"]
    with demo_flow_issued have "AccessToken sealed_jwt demo_issuer 1000 ''j'' 7 ''ACTIVE'' = Inr demo_flow" by auto
    then have "demo_flow = demo_access" using demo_access_issued by simp
    with demo_flow_issued demo_access_issued show False
      by (auto simp: AccessToken_def FlowToken_def access_claims_def flow_claims_def sealed_doc_inject
          elim!: iss_sign_InrE dest!: sealed_signed)
  qed
  with ver one demo_access_issued show ?thesis by auto
qed

text \<open>
  C13. Who signs up can post, under the new account. When CompleteSignup answers with tokens and the access token is sent to
  the board as the bearer of a CreatePost before it expires, the board, if it has or gets the issuer's key, does not
  refuse the call as unauthenticated, and a post that it returns has the id of the account that the signup has
  just created, ACTIVE, as its author.
\<close>

theorem signup_then_post:
  assumes "jwt_laws (a_jwt a)" and "a_repo a = mysql_repo weight now" and "db_wf (w_db w)"
    and "identity_serve quote a env (CompleteSignupRequest flow nick img fp nm) w = (Inr (CompleteSignupResponse (Some p)), w')"
    and "iss_kid (a_issuer a) \<noteq> []" and "v_issuer v = iss_issuer (a_issuer a)" and "v_audience v = ''board''"
    and "bearerToken \<lparr>ctx_md = md, ctx_claims = None\<rparr> = pb_access p"
    and "refreshIfStale v E (bw_ver bw) = (Inr () :: verify_err + unit, w1)"
    and "keyFor v E (iss_kid (a_issuer a)) w1 = (Inr (jwt_public (a_jwt a) (iss_key (a_issuer a))), w2)"
    and "\<bar>e_now env + Seconds AccessTokenTTL\<bar> < 2 ^ 53"
    and "\<And>x. fst (time_Now E x) div 10 ^ 9 < e_now env + Seconds AccessTokenTTL"
    and "pb_access p \<noteq> []"
    and "board_wf bweight (bw_db bw)"
    and "board_serve (a_jwt a) v E (NewPostRepo bweight) md (CreatePostRequest title content) bw = (r, bw')"
  shows "\<exists>u. acct_of (w_db w) u = None \<and> acct_of (w_db w') u = Some ACTIVE \<and>
    (\<forall>m. r \<noteq> Inl (Unauthenticated, m)) \<and> (\<forall>post. r = Inr (CreatePostResponse post) \<longrightarrow> pb_author_id post = FormatInt u)"
proof -
  from assms(4) obtain pair where run: "CompleteSignup a env flow nick img fp nm w = (Inr pair, w')"
    and p: "pb_access p = tp_AccessToken pair"
    by (auto simp: identity_serve_def h_CompleteSignup_def fail_def toProtoTokens_def split: if_splits elim!: handler_run)
  from mysql.signup_success [OF assms(2,3) run] obtain u where u: "acct_of (w_db w) u = None" "acct_of (w_db w') u = Some ACTIVE"
    and tok: "AccessToken (a_jwt a) (a_issuer a) (e_now env) (e_jti env) u (status_string ACTIVE) = Inr (tp_AccessToken pair)"
    by (elim exE conjE) (rule that)
  note tok = tok [folded p]
  obtain x where ver: "Verify (a_jwt a) v E (pb_access p) (bw_ver bw) = (Inr \<lparr>c_Subject = FormatInt u, c_Status = status_string ACTIVE\<rparr>, x)"
    using Verify_access [OF assms(1) tok assms(5-7,9-12)] by blast
  have codes: "board_mapErr e \<noteq> (Unauthenticated, m)" for e m
    by (auto simp: board_mapErr_def split: board_err.splits post_err.splits)
  from assms(15) have "(\<forall>m. r \<noteq> Inl (Unauthenticated, m)) \<and>
    (\<forall>post. r = Inr (CreatePostResponse post) \<longrightarrow> pb_author_id post = FormatInt u)"
  proof (cases rule: serve_create)
    case (refused m)
    with ver assms(8,13) show ?thesis by simp
  next
    case (accepted cl q y)
    from accepted(2) ver assms(8) have cl: "c_Subject cl = FormatInt u" by auto
    note made = created_entries [OF accepted(3) assms(14), unfolded cl]
    show ?thesis using made codes accepted(4) by (auto simp: toProto_def split: sum.splits)
  qed
  then show ?thesis using u by (elim conjE) (intro exI conjI)
qed

text \<open>The sealed tokens of the witnesses pass the header untouched.\<close>

lemma sealed_ends:
  assumes "jwt_SignedString sealed_jwt h c k = Inr tok"
  shows "tok \<noteq> [] \<and> printable (hd tok) \<and> printable (last tok)"
  using assms by (auto simp: sealed_jwt_def sealed_doc_def Let_def printable_def split: if_splits)

definition bearer_md :: "string \<Rightarrow> metadata" where
  "bearer_md tok k = (if k = ''authorization'' then [''Bearer '' @ tok] else [])"

lemma bearer_sealed:
  assumes "AccessToken sealed_jwt i t jti u st = Inr tok"
  shows "tok \<noteq> [] \<and> bearerToken \<lparr>ctx_md = Some (bearer_md tok), ctx_claims = None\<rparr> = tok"
proof -
  obtain h c k where "jwt_SignedString sealed_jwt h c k = Inr tok"
    using assms unfolding AccessToken_def by (rule iss_sign_InrE) blast
  note ends = sealed_ends [OF this]
  have low: "map to_lower_byte ''Bearer '' = ''bearer ''" by code_simp
  have "has_prefix (ToLower (''Bearer '' @ tok)) ''bearer ''"
    unfolding has_prefix_def ToLower_def map_append low by simp
  then have "bearer_value (''Bearer '' @ tok) = Some tok" using TrimSpace_id ends by (simp add: bearer_value_def)
  then show ?thesis using ends by (simp add: bearerToken_def bearer_md_def)
qed

theorem signup_then_post_witness:
  "\<exists>p w' r bw'. identity_serve id demo_auth demo_env (CompleteSignupRequest demo_flow ''ann'' [] [] [])
       \<lparr>w_redis = empty_mem, w_db = empty_db\<rparr> = (Inr (CompleteSignupResponse (Some p)), w') \<and>
     board_serve sealed_jwt demo_verifier (still_env False) (NewPostRepo (\<lambda>x. x)) (Some (bearer_md (pb_access p)))
       (CreatePostRequest ''hi'' ''yo'') \<lparr>bw_ver = cached_world, bw_db = demo_board\<rparr> = (r, bw') \<and>
     (\<forall>m. r \<noteq> Inl (Unauthenticated, m))"
proof -
  let ?start = "\<lparr>w_redis = empty_mem, w_db = empty_db\<rparr>"
  let ?bw = "\<lparr>bw_ver = cached_world, bw_db = demo_board\<rparr>"
  have jwt: "a_jwt demo_auth = sealed_jwt" and iss: "a_issuer demo_auth = demo_issuer" and now: "e_now demo_env = 1000"
    by (simp_all add: demo_auth_def demo_env_def)
  have wf: "db_wf (w_db ?start)" by (simp add: empty_db_wf)
  obtain pair w1 where run: "CompleteSignup demo_auth demo_env demo_flow ''ann'' [] [] [] ?start = (Inr pair, w1)"
    using demo_signup by blast
  from signup_rpc [OF run demo_flow_nonempty, of id] obtain p
    where p: "identity_serve id demo_auth demo_env (CompleteSignupRequest demo_flow ''ann'' [] [] []) ?start =
      (Inr (CompleteSignupResponse (Some p)), w1)" and acc: "pb_access p = tp_AccessToken pair"
    by (simp add: toProtoTokens_def)
  from mysql.signup_success [OF demo_repo wf run] obtain u
    where "AccessToken sealed_jwt demo_issuer 1000 (e_jti demo_env) u (status_string ACTIVE) = Inr (tp_AccessToken pair)"
    unfolding jwt iss now by (elim exE conjE) (rule that)
  note bearer = bearer_sealed [OF this [folded acc]]
  have down: "isl (fst (brk_Execute (still_env False) f x))" for f x by (simp add: still_env_def)
  from refreshIfStale_down [of "still_env False", OF down, of demo_verifier cached_world] obtain w2
    where stale: "refreshIfStale demo_verifier (still_env False) (bw_ver ?bw) = (Inr () :: verify_err + unit, w2)"
      and keys: "k_keys (vw_cache w2) = [''k1'' \<mapsto> demo_key]" by (auto simp: cached_world_def)
  have key: "keyFor demo_verifier (still_env False) (iss_kid (a_issuer demo_auth)) w2 =
      (Inr (jwt_public (a_jwt demo_auth) (iss_key (a_issuer demo_auth))), w2)" using keys by (simp add: keyFor_def jwt iss)
  obtain r bw' where post: "board_serve sealed_jwt demo_verifier (still_env False) (NewPostRepo (\<lambda>x. x)) (Some (bearer_md (pb_access p)))
       (CreatePostRequest ''hi'' ''yo'') ?bw = (r, bw')" by fastforce
  have "\<exists>u. acct_of (w_db ?start) u = None \<and> acct_of (w_db w1) u = Some ACTIVE \<and> (\<forall>m. r \<noteq> Inl (Unauthenticated, m)) \<and>
      (\<forall>post. r = Inr (CreatePostResponse post) \<longrightarrow> pb_author_id post = FormatInt u)"
    by (rule signup_then_post [OF _ demo_repo wf p _ _ _ _ stale key _ _ _ _ post [folded jwt]])
      (use bearer demo_board_wf(1) in
        \<open>simp_all add: jwt iss now sealed_laws still_env_def AccessTokenTTL_def duration_defs\<close>)
  with p post show ?thesis by (elim exE conjE) (intro exI conjI)
qed

end
